(* ===== verification/Prelude.thy ===== *)
theory Prelude
  imports Main "HOL-Library.Word" "HOL-Library.Multiset"
begin

text \<open>
  Shared vocabulary of the development: how a C function can end, the widths of C's
  integers, what a network peer can do to a call of recv, and the generic lemmas on lists
  that the components share.
\<close>

section \<open>How a C function ends\<close>

text \<open>
  A call returns a value, ends the process with exit(), runs into behaviour that the C
  standard leaves undefined (a null pointer is dereferenced, a buffer is overrun), or waits
  for a peer for ever.
\<close>

datatype 'a outcome = Ret 'a | Exits int | Undef | Blocks

primrec bind_outcome :: "'a outcome \<Rightarrow> ('a \<Rightarrow> 'b outcome) \<Rightarrow> 'b outcome" where
  "bind_outcome (Ret x) f = f x"
| "bind_outcome (Exits n) f = Exits n"
| "bind_outcome Undef f = Undef"
| "bind_outcome Blocks f = Blocks"

lemma bind_outcome_Ret_iff [simp]:
  "bind_outcome m f = Ret y \<longleftrightarrow> (\<exists>x. m = Ret x \<and> f x = Ret y)"
  by (cases m) auto

lemma bind_outcome_assoc:
  "bind_outcome (bind_outcome m f) g = bind_outcome m (\<lambda>x. bind_outcome (f x) g)"
  by (cases m) auto

abbreviation returns :: "'a outcome \<Rightarrow> bool" where
  "returns m \<equiv> (\<exists>x. m = Ret x)"

definition EXIT_SUCCESS :: int where "EXIT_SUCCESS = 0"
definition EXIT_FAILURE :: int where "EXIT_FAILURE = 1"

section \<open>C integers\<close>

text \<open>
  A value of a C integer type is an \<^typ>\<open>int\<close> in the type's range. A conversion to a type
  wraps: \<open>c_int\<close> to the 32-bit signed int, \<open>c_ushort\<close> to the 16-bit unsigned short,
  \<open>c_size\<close> to the 64-bit size_t.
\<close>

named_theorems c_width \<open>conversions that lose nothing inside the range of the type\<close>

definition c_int :: "int \<Rightarrow> int" where
  "c_int z = (z + 2 ^ 31) mod 2 ^ 32 - 2 ^ 31"

definition c_ushort :: "int \<Rightarrow> int" where
  "c_ushort z = z mod 2 ^ 16"

definition c_uint :: "int \<Rightarrow> int" where
  "c_uint z = z mod 2 ^ 32"

definition c_size :: "int \<Rightarrow> int" where
  "c_size z = z mod 2 ^ 64"

definition INT_MAX :: int where "INT_MAX = 2 ^ 31 - 1"

lemma c_int_id [c_width]: "- (2 ^ 31) \<le> z \<Longrightarrow> z < 2 ^ 31 \<Longrightarrow> c_int z = z"
  by (simp add: c_int_def)

lemma c_zero [simp]: "c_int 0 = 0" "c_size 0 = 0" "c_uint 0 = 0" "c_ushort 0 = 0"
  by (simp_all add: c_int_def c_size_def c_uint_def c_ushort_def)

lemma c_int_of_nat [c_width]: "n < 2 ^ 31 \<Longrightarrow> c_int (int n) = int n"
  by (rule c_int_id) auto

lemma c_int_nonneg [c_width]: "0 \<le> z \<Longrightarrow> z \<le> INT_MAX \<Longrightarrow> c_int z = z"
  by (rule c_int_id) (auto simp: INT_MAX_def)

lemma c_size_id [c_width]: "0 \<le> z \<Longrightarrow> z < 2 ^ 64 \<Longrightarrow> c_size z = z"
  by (simp add: c_size_def)

lemma c_size_of_nat [c_width]: "n < 2 ^ 64 \<Longrightarrow> c_size (int n) = int n"
  by (rule c_size_id) auto

lemma c_uint_id [c_width]: "0 \<le> z \<Longrightarrow> z < 2 ^ 32 \<Longrightarrow> c_uint z = z"
  by (simp add: c_uint_def)

lemma c_ushort_id [c_width]: "0 \<le> z \<Longrightarrow> z < 2 ^ 16 \<Longrightarrow> c_ushort z = z"
  by (simp add: c_ushort_def)

lemma c_ushort_range: "0 \<le> c_ushort z" "c_ushort z < 2 ^ 16"
  by (simp_all add: c_ushort_def)

lemma c_int_range: "- (2 ^ 31) \<le> c_int z" "c_int z < 2 ^ 31"
  by (simp_all add: c_int_def)

lemma c_int_word: "c_int z = sint (word_of_int z :: 32 word)"
  by (simp add: int_word_sint c_int_def)

section \<open>Lists\<close>

lemma takeWhile_append_stop:
  "\<forall>x\<in>set xs. P x \<Longrightarrow> \<not> P y \<Longrightarrow> takeWhile P (xs @ y # ys) = xs"
  by (induction xs) auto

lemma dropWhile_append_stop:
  "\<forall>x\<in>set xs. P x \<Longrightarrow> \<not> P y \<Longrightarrow> dropWhile P (xs @ y # ys) = y # ys"
  by (induction xs) auto

lemma takeWhile_eq_Nil_stop: "xs \<noteq> [] \<Longrightarrow> \<not> P (hd xs) \<Longrightarrow> takeWhile P xs = []"
  by (cases xs) auto

lemma list_update_middle: "(xs @ y # ys)[length xs := z] = xs @ z # ys"
  by (induction xs) auto

lemma nth_middle: "(xs @ y # ys) ! length xs = y"
  by (induction xs) auto

lemma take_then_drop: "n \<le> length xs \<Longrightarrow> take n xs @ take m (drop n xs) = take (n + m) xs"
  by (simp add: take_add)

text \<open>A list with one place updated, as the lists of thread states are.\<close>

lemma in_set_update: "x \<in> set (xs[w := y]) \<Longrightarrow> x = y \<or> x \<in> set xs"
  using set_update_subset_insert [of xs w y] by auto

lemma mset_concat_update:
  "w < length xs \<Longrightarrow>
     mset (concat (map f (xs[w := x]))) + mset (f (xs ! w)) = mset (concat (map f xs)) + mset (f x)"
  by (induction xs arbitrary: w) (auto simp: nth_Cons split: nat.splits)

lemma sum_list_map_update:
  fixes f :: "'a \<Rightarrow> nat"
  shows "w < length xs \<Longrightarrow> sum_list (map f (xs[w := x])) + f (xs ! w) = sum_list (map f xs) + f x"
  by (induction xs arbitrary: w) (auto simp: nth_Cons split: nat.splits)

lemma mset_concat_map_same:
  "w < length xs \<Longrightarrow> f x = f (xs ! w) \<Longrightarrow>
     mset (concat (map f (xs[w := x]))) = mset (concat (map f xs))"
  using mset_concat_update [of w xs f x] by simp

lemma concat_map_replicate_Nil [simp]: "f pc = [] \<Longrightarrow> concat (map f (replicate n pc)) = []"
  by (induction n) auto

end
