(* ===== verification/CStrings.thy ===== *)
theory CStrings
  imports Prelude "HOL-Library.List_Lexorder"
begin

text \<open>
  The functions of string.h and stdio.h that the program calls, over buffers. A buffer is a
  \<^typ>\<open>char list\<close> of fixed length (a \<^typ>\<open>char\<close> is one byte), a pointer into it an offset,
  and a null-terminated string the bytes from a pointer up to the first NUL. A call that
  would run past the end of its buffer is \<^const>\<open>Undef\<close>.
\<close>

section \<open>Null-terminated strings\<close>

abbreviation NUL :: char where "NUL \<equiv> CHR 0x00"
abbreviation TAB :: char where "TAB \<equiv> CHR 0x09"
abbreviation LF :: char where "LF \<equiv> CHR 0x0A"
abbreviation CR :: char where "CR \<equiv> CHR 0x0D"
abbreviation SP :: char where "SP \<equiv> CHR 0x20"

abbreviation CRLFCRLF :: string where "CRLFCRLF \<equiv> [CR, LF, CR, LF]"

definition cstr :: "char list \<Rightarrow> string" where
  "cstr buf = takeWhile (\<lambda>c. c \<noteq> NUL) buf"

definition c_strlen :: "char list \<Rightarrow> nat \<Rightarrow> nat outcome" where
  "c_strlen buf p = (if NUL \<in> set (drop p buf) then Ret (length (cstr (drop p buf))) else Undef)"

lemma cstr_simps [simp]: "cstr [] = []" "cstr (c # cs) = (if c = NUL then [] else c # cstr cs)"
  by (simp_all add: cstr_def)

lemma cstr_append_NUL [simp]: "NUL \<notin> set s \<Longrightarrow> cstr (s @ NUL # r) = s"
  unfolding cstr_def by (rule takeWhile_append_stop) auto

lemma cstr_NUL_free [simp]: "NUL \<notin> set s \<Longrightarrow> cstr s = s"
  unfolding cstr_def by (subst takeWhile_eq_all_conv) auto

lemma NUL_notin_cstr [simp]: "NUL \<notin> set (cstr s)"
  unfolding cstr_def by (auto dest: set_takeWhileD)

lemma length_cstr_le: "length (cstr s) \<le> length s"
  by (simp add: cstr_def length_takeWhile_le)

lemma cstr_append_replicate_NUL [simp]: "cstr (s @ replicate n NUL) = cstr s"
proof (cases "NUL \<in> set s")
  case True
  then show ?thesis unfolding cstr_def by (simp add: takeWhile_append1)
next
  case False
  then show ?thesis by (cases n) simp_all
qed

text \<open>The sign of strcmp's result; the C standard fixes no more than the sign.\<close>

fun strcmp :: "string \<Rightarrow> string \<Rightarrow> int" where
  "strcmp [] [] = 0"
| "strcmp [] (y # ys) = -1"
| "strcmp (x # xs) [] = 1"
| "strcmp (x # xs) (y # ys) =
     (if x = y then strcmp xs ys
      else if (of_char x :: nat) < of_char y then -1 else 1)"

text \<open>The order that strcmp computes is the lexicographic order of the byte codes.\<close>

definition codes :: "string \<Rightarrow> nat list" where
  "codes s = map of_char s"

lemma codes_inject [simp]: "codes s = codes t \<longleftrightarrow> s = t"
  unfolding codes_def by (rule inj_map_eq_map) (auto intro: injI)

lemma strcmp_eq_0_iff [simp]: "strcmp s t = 0 \<longleftrightarrow> s = t"
  by (induction s t rule: strcmp.induct) auto

lemma strcmp_neg_iff: "strcmp s t < 0 \<longleftrightarrow> codes s < codes t"
proof (induction s t rule: strcmp.induct)
  case (4 x xs y ys)
  have "of_char x = (of_char y :: nat) \<longleftrightarrow> x = y" by simp
  with 4 show ?case by (auto simp: codes_def)
qed (auto simp: codes_def)

lemma strcmp_pos_iff: "0 < strcmp s t \<longleftrightarrow> codes t < codes s"
proof -
  have "0 < strcmp s t \<longleftrightarrow> \<not> strcmp s t < 0 \<and> strcmp s t \<noteq> 0" by linarith
  also have "\<dots> \<longleftrightarrow> codes t < codes s"
    by (auto simp: strcmp_neg_iff not_less_iff_gr_or_eq)
  finally show ?thesis .
qed

section \<open>Searching and splitting\<close>

fun strstr :: "string \<Rightarrow> string \<Rightarrow> bool" where
  "strstr [] needle = (needle = [])"
| "strstr (c # cs) needle =
     (take (length needle) (c # cs) = needle \<or> strstr cs needle)"

lemma strstr_iff: "strstr hay needle \<longleftrightarrow> (\<exists>a b. hay = a @ needle @ b)"
proof (induction hay)
  case Nil
  show ?case by auto
next
  case (Cons c cs)
  have "take (length needle) (c # cs) = needle \<longleftrightarrow> (\<exists>b. c # cs = needle @ b)"
    by (metis append_eq_conv_conj append_take_drop_id)
  with Cons show ?case by (auto simp: Cons_eq_append_conv)
qed

text \<open>strsep on a null-terminated string: the token, and the rest after the separator.\<close>

fun strsep :: "string option \<Rightarrow> char list \<Rightarrow> string option \<times> string option" where
  "strsep None ds = (None, None)"
| "strsep (Some s) ds =
     (Some (takeWhile (\<lambda>c. c \<notin> set ds) s),
      (case dropWhile (\<lambda>c. c \<notin> set ds) s of [] \<Rightarrow> None | _ # r \<Rightarrow> Some r))"

lemma strsep_token:
  assumes "\<forall>c\<in>set k. c \<notin> set ds" and "d \<in> set ds"
  shows "strsep (Some (k @ d # r)) ds = (Some k, Some r)"
  using assms by (simp add: takeWhile_append_stop dropWhile_append_stop)

lemma strsep_last:
  assumes "\<forall>c\<in>set k. c \<notin> set ds"
  shows "strsep (Some k) ds = (Some k, None)"
proof -
  from assms have "takeWhile (\<lambda>c. c \<notin> set ds) k = k" by auto
  moreover from assms have "dropWhile (\<lambda>c. c \<notin> set ds) k = []" by auto
  ultimately show ?thesis by (simp only: strsep.simps list.case)
qed

text \<open>
  strtok, started at offset \<open>p\<close> of a buffer (the saved pointer of the C function): skip the
  delimiters, then overwrite the first delimiter after the token with NUL. The result is
  the buffer, the token's offset (None for a null pointer) and the pointer saved for the
  next call.
\<close>

definition strtok :: "char list \<Rightarrow> nat \<Rightarrow> char list \<Rightarrow> (char list \<times> nat option \<times> nat) outcome" where
  "strtok buf p ds =
     (let s = p + length (takeWhile (\<lambda>c. c \<in> set ds) (drop p buf)) in
      if length buf \<le> s then Undef
      else if buf ! s = NUL then Ret (buf, None, s)
      else
        (let e = s + length (takeWhile (\<lambda>c. c \<notin> set ds \<and> c \<noteq> NUL) (drop s buf)) in
         if length buf \<le> e then Undef
         else if buf ! e = NUL then Ret (buf, Some s, e)
         else Ret (buf[e := NUL], Some s, e + 1)))"

lemma strtok_token:
  assumes "tok \<noteq> []" and "\<forall>c\<in>set tok. c \<notin> set ds \<and> c \<noteq> NUL"
    and "d \<in> set ds" and "d \<noteq> NUL" and "p = length pre"
  shows "strtok (pre @ tok @ d # rest) p ds =
    Ret (pre @ tok @ NUL # rest, Some p, p + length tok + 1)"
proof -
  have s: "takeWhile (\<lambda>c. c \<in> set ds) (tok @ d # rest) = []"
    using assms(1,2) by (intro takeWhile_eq_Nil_stop) auto
  have e: "takeWhile (\<lambda>c. c \<notin> set ds \<and> c \<noteq> NUL) (tok @ d # rest) = tok"
    using assms(2,3) by (intro takeWhile_append_stop) auto
  have h: "(pre @ tok @ d # rest) ! length pre = hd tok"
    using assms(1) by (cases tok) (auto simp: nth_append)
  have "hd tok \<noteq> NUL" using assms(1,2) by (cases tok) auto
  moreover have "(pre @ tok @ d # rest) ! (length pre + length tok) = d"
    by (simp add: nth_append)
  moreover have "(pre @ tok @ d # rest)[length pre + length tok := NUL] = pre @ tok @ NUL # rest"
    by (simp add: list_update_append)
  ultimately show ?thesis
    using assms(1,4,5) by (simp add: strtok_def s e h Let_def)
qed

lemma strtok_last_token:
  assumes "tok \<noteq> []" and "\<forall>c\<in>set tok. c \<notin> set ds \<and> c \<noteq> NUL" and "NUL \<notin> set ds"
    and "p = length pre"
  shows "strtok (pre @ tok @ NUL # rest) p ds =
    Ret (pre @ tok @ NUL # rest, Some p, p + length tok)"
proof -
  have s: "takeWhile (\<lambda>c. c \<in> set ds) (tok @ NUL # rest) = []"
    using assms(1,2) by (intro takeWhile_eq_Nil_stop) auto
  have e: "takeWhile (\<lambda>c. c \<notin> set ds \<and> c \<noteq> NUL) (tok @ NUL # rest) = tok"
    using assms(2) by (intro takeWhile_append_stop) auto
  have "(pre @ tok @ NUL # rest) ! length pre \<noteq> NUL"
    using assms(1,2) by (cases tok) (auto simp: nth_append)
  moreover have "(pre @ tok @ NUL # rest) ! (length pre + length tok) = NUL"
    by (simp add: nth_append)
  ultimately show ?thesis
    using assms(4) by (simp add: strtok_def s e Let_def)
qed

lemma strtok_skip:
  assumes "\<forall>c\<in>set sk. c \<in> set ds" and "p = length pre"
  shows "strtok (pre @ sk @ rest) p ds = strtok ((pre @ sk) @ rest) (length (pre @ sk)) ds"
proof -
  have "takeWhile (\<lambda>c. c \<in> set ds) (sk @ rest) = sk @ takeWhile (\<lambda>c. c \<in> set ds) rest"
    using assms(1) by (simp add: takeWhile_append2)
  with assms(2) show ?thesis by (simp add: strtok_def add.assoc)
qed

lemma strtok_none:
  assumes "NUL \<notin> set ds" and "p = length pre"
  shows "strtok (pre @ NUL # rest) p ds = Ret (pre @ NUL # rest, None, p)"
  using assms by (simp add: strtok_def)

lemma strtok_length: "strtok buf p ds = Ret (buf', t, q) \<Longrightarrow> length buf' = length buf"
  by (auto simp: strtok_def Let_def split: if_splits)

text \<open>strcpy of the string \<open>s\<close> to offset \<open>p\<close> of a buffer.\<close>

definition strcpy_at :: "char list \<Rightarrow> nat \<Rightarrow> string \<Rightarrow> char list outcome" where
  "strcpy_at buf p s =
     (if p + length s + 1 \<le> length buf
      then Ret (take p buf @ s @ NUL # drop (p + length s + 1) buf) else Undef)"

section \<open>Decimal numbers\<close>

definition digit :: "nat \<Rightarrow> char" where
  "digit n = char_of (48 + n)"

definition isdigit :: "char \<Rightarrow> bool" where
  "isdigit c \<longleftrightarrow> 48 \<le> (of_char c :: nat) \<and> (of_char c :: nat) \<le> 57"

definition isspace :: "char \<Rightarrow> bool" where
  "isspace c \<longleftrightarrow> c = SP \<or> 9 \<le> (of_char c :: nat) \<and> (of_char c :: nat) \<le> 13"

text \<open>printf's %zu and %d for a value that is not negative.\<close>

fun show_nat :: "nat \<Rightarrow> string" where
  "show_nat n = (if n < 10 then [digit n] else show_nat (n div 10) @ [digit (n mod 10)])"

declare show_nat.simps [simp del]

definition show_int :: "int \<Rightarrow> string" where
  "show_int z = (if z < 0 then CHR ''-'' # show_nat (nat (- z)) else show_nat (nat z))"

text \<open>printf's %06d: the sign, then zeros up to a width of six.\<close>

definition show_06d :: "int \<Rightarrow> string" where
  "show_06d z =
     (if z < 0 then CHR ''-'' # (let ds = show_nat (nat (- z)) in replicate (5 - length ds) CHR ''0'' @ ds)
      else (let ds = show_nat (nat z) in replicate (6 - length ds) CHR ''0'' @ ds))"

fun scan_digits :: "nat \<Rightarrow> string \<Rightarrow> nat" where
  "scan_digits acc [] = acc"
| "scan_digits acc (c # cs) =
     (if isdigit c then scan_digits (10 * acc + (of_char c - 48)) cs else acc)"

text \<open>The sign and the digits after the white space that the scan functions skip.\<close>

definition scan_sign :: "string \<Rightarrow> bool \<times> string" where
  "scan_sign s =
     (case dropWhile isspace s of
        [] \<Rightarrow> (False, [])
      | c # cs \<Rightarrow> if c = CHR ''-'' then (True, cs)
                  else if c = CHR ''+'' then (False, cs) else (False, c # cs))"

text \<open>sscanf with %zu: None when there is no number; the value saturates at SIZE_MAX.\<close>

definition scan_zu :: "string \<Rightarrow> int option" where
  "scan_zu s =
     (let (neg, ds) = scan_sign s; v = int (scan_digits 0 ds) in
      if ds = [] \<or> \<not> isdigit (hd ds) then None
      else if 2 ^ 64 \<le> v then Some (2 ^ 64 - 1)
      else Some (c_size (if neg then - v else v)))"

text \<open>atoi is strtol in base 10, which saturates at the limits of long, cut down to int.\<close>

definition atoi :: "string \<Rightarrow> int" where
  "atoi s =
     (let (neg, ds) = scan_sign s; v = int (scan_digits 0 ds) in
      c_int (if neg then max (- (2 ^ 63)) (- v) else min (2 ^ 63 - 1) v))"

lemma of_char_digit: "n < 10 \<Longrightarrow> of_char (digit n) = 48 + n"
  by (simp add: digit_def)

lemma isdigit_digit [simp]: "n < 10 \<Longrightarrow> isdigit (digit n)"
  by (simp add: isdigit_def of_char_digit)

lemma show_nat_nonempty [simp]: "show_nat n \<noteq> []"
  by (subst show_nat.simps) simp

lemma show_nat_digits: "c \<in> set (show_nat n) \<Longrightarrow> isdigit c"
proof (induction n rule: show_nat.induct)
  case (1 n)
  then show ?case
    by (cases "n < 10") (auto simp: show_nat.simps [of n])
qed

lemma isdigit_not_special:
  "isdigit c \<Longrightarrow> c \<noteq> NUL \<and> c \<noteq> CR \<and> c \<noteq> LF \<and> c \<noteq> SP \<and> c \<noteq> CHR ''-'' \<and> c \<noteq> CHR ''+''"
  by (auto simp: isdigit_def)

lemma isdigit_not_space: "isdigit c \<Longrightarrow> \<not> isspace c"
  by (auto simp: isdigit_def isspace_def)

lemma scan_digits_show_nat:
  "scan_digits acc (show_nat n @ rest) = scan_digits (acc * 10 ^ length (show_nat n) + n) rest"
proof (induction n arbitrary: acc rest rule: show_nat.induct)
  case (1 n)
  show ?case
  proof (cases "n < 10")
    case True
    then show ?thesis by (simp add: show_nat.simps [of n] of_char_digit algebra_simps)
  next
    case False
    then have "scan_digits acc (show_nat n @ rest) =
        scan_digits (acc * 10 ^ length (show_nat (n div 10)) + n div 10) (digit (n mod 10) # rest)"
      by (simp add: show_nat.simps [of n] 1)
    also have "\<dots> = scan_digits (acc * 10 ^ length (show_nat n) + n) rest"
      using False by (simp add: show_nat.simps [of n] of_char_digit algebra_simps)
    finally show ?thesis .
  qed
qed

lemma scan_sign_show_nat: "scan_sign (show_nat n @ rest) = (False, show_nat n @ rest)"
proof -
  obtain c cs where c: "show_nat n = c # cs" by (cases "show_nat n") auto
  then have "isdigit c" using show_nat_digits [of c n] by simp
  with c show ?thesis by (simp add: scan_sign_def isdigit_not_space isdigit_not_special)
qed

lemma hd_show_nat_isdigit [simp]: "isdigit (hd (show_nat n @ rest))"
  by (cases "show_nat n") (auto simp: show_nat_digits, metis list.set_intros(1) show_nat_digits)

lemma scan_zu_show_nat [simp]: "n < 2 ^ 64 \<Longrightarrow> scan_zu (show_nat n) = Some (int n)"
  using scan_digits_show_nat [of 0 n "[]"] scan_sign_show_nat [of n "[]"]
    hd_show_nat_isdigit [of n "[]"]
  by (simp add: scan_zu_def c_size_of_nat)

lemma atoi_show_nat: "n < 2 ^ 31 \<Longrightarrow> atoi (show_nat n) = int n"
  using scan_digits_show_nat [of 0 n "[]"] scan_sign_show_nat [of n "[]"]
  by (simp add: atoi_def c_int_of_nat min_def)

lemma scan_digits_zeros: "scan_digits 0 (replicate k CHR ''0'' @ s) = scan_digits 0 s"
  by (induction k) (auto simp: isdigit_def)

lemma scan_digits_06d: "scan_digits 0 (show_06d (int n)) = n"
  using scan_digits_show_nat [of 0 n "[]"] by (simp add: show_06d_def scan_digits_zeros Let_def)

lemma show_06d_inject: "show_06d (int i) = show_06d (int j) \<longleftrightarrow> i = j"
  by (metis scan_digits_06d)

lemma length_show_nat: "n < 10 ^ Suc k \<Longrightarrow> length (show_nat n) \<le> Suc k"
proof (induction k arbitrary: n)
  case 0
  then show ?case by (subst show_nat.simps) simp
next
  case (Suc k)
  show ?case
  proof (cases "n < 10")
    case True
    then show ?thesis by (subst show_nat.simps) simp
  next
    case False
    have "n div 10 < 10 ^ Suc k" using Suc.prems by (simp add: less_mult_imp_div_less)
    with Suc.IH False show ?thesis by (subst show_nat.simps) simp
  qed
qed

lemma length_show_06d: "n < 1000000 \<Longrightarrow> length (show_06d (int n)) = 6"
  using length_show_nat [of n 5] by (simp add: show_06d_def Let_def)

end
