(* ===== verification/Network.thy ===== *)
theory Network
  imports CStrings
begin

text \<open>
  The environment of the programs that talk over TCP: what recv, send and the address list
  of getaddrinfo can give. The results of the system calls are inputs of the model, so a
  theorem about a program holds for every behaviour of the network that they describe.
\<close>

section \<open>Receiving\<close>

text \<open>
  What a socket delivers, in order: data, or an error of recv. Empty data is the end of the
  stream. A piece longer than the caller's buffer is handed over in parts; when nothing is
  left the call waits.
\<close>

datatype recv_res = RData "char list" | RErr

type_synonym net = "recv_res list"

fun recv :: "nat \<Rightarrow> net \<Rightarrow> (int \<times> char list \<times> net) outcome" where
  "recv n [] = Blocks"
| "recv n (RErr # r) = Ret (-1, [], r)"
| "recv n (RData d # r) =
     (if length d \<le> n then Ret (int (length d), d, r)
      else Ret (int n, take n d, RData (drop n d) # r))"

fun net_size :: "net \<Rightarrow> nat" where
  "net_size [] = 0"
| "net_size (RErr # r) = Suc (net_size r)"
| "net_size (RData d # r) = Suc (length d) + net_size r"

fun net_data :: "net \<Rightarrow> char list" where
  "net_data [] = []"
| "net_data (RErr # r) = net_data r"
| "net_data (RData d # r) = d @ net_data r"

lemma recv_decreases:
  "recv n net = Ret (k, d, net') \<Longrightarrow> 0 < n \<Longrightarrow> net_size net' < net_size net"
  by (cases "(n, net)" rule: recv.cases) (auto split: if_splits)

lemma recv_bound: "recv n net = Ret (k, d, net') \<Longrightarrow> length d \<le> n \<and> k \<le> int n \<and> -1 \<le> k"
  by (cases "(n, net)" rule: recv.cases) (auto split: if_splits)

lemma recv_count: "recv n net = Ret (k, d, net') \<Longrightarrow> 0 \<le> k \<Longrightarrow> k = int (length d)"
  by (cases "(n, net)" rule: recv.cases) (auto split: if_splits)

lemma recv_data: "recv n net = Ret (k, d, net') \<Longrightarrow> net_data net = d @ net_data net'"
  by (cases "(n, net)" rule: recv.cases)
    (auto split: if_splits simp flip: append_assoc)

text \<open>A stream without errors whose pieces are not empty.\<close>

fun stream :: "net \<Rightarrow> bool" where
  "stream [] = True"
| "stream (RErr # r) = False"
| "stream (RData d # r) = (d \<noteq> [] \<and> stream r)"

lemma recv_stream_append:
  assumes "stream net" and "0 < n" and "net \<noteq> []"
  obtains d net' where "recv n (net @ more) = Ret (int (length d), d, net' @ more)" and "d \<noteq> []"
    and "length d \<le> n" and "stream net'" and "net_data net = d @ net_data net'"
    and "net_size net' < net_size net"
proof -
  from assms obtain d r where net: "net = RData d # r" "d \<noteq> []" "stream r"
    by (cases net rule: net_data.cases) auto
  show thesis
  proof (cases "length d \<le> n")
    case True
    with net show thesis by (intro that [of d r]) auto
  next
    case False
    with net assms(2) show thesis
      by (intro that [of "take n d" "RData (drop n d) # r"]) (auto simp flip: append_assoc)
  qed
qed

lemma recv_stream:
  assumes "stream net" and "0 < n" and "net \<noteq> []"
  obtains d net' where "recv n net = Ret (int (length d), d, net')" and "d \<noteq> []"
    and "length d \<le> n" and "stream net'" and "net_data net = d @ net_data net'"
    and "net_size net' < net_size net"
  using recv_stream_append [OF assms, of "[]"] by auto

lemma net_data_Nil_iff_stream: "stream net \<Longrightarrow> net_data net = [] \<longleftrightarrow> net = []"
  by (cases net rule: net_data.cases) auto

section \<open>Connecting and binding\<close>

text \<open>
  An entry of the list that getaddrinfo returns, with what socket, setsockopt, bind and
  connect return for it.
\<close>

record addrinfo =
  ai_socket :: int
  ai_setsockopt :: int
  ai_bind :: int
  ai_connect :: int

text \<open>The client's loop: the first address that connects, None when none does.\<close>

fun connect_loop :: "addrinfo list \<Rightarrow> int option" where
  "connect_loop [] = None"
| "connect_loop (p # ps) =
     (if ai_socket p = -1 then connect_loop ps
      else if ai_connect p = -1 then connect_loop ps
      else Some (ai_socket p))"

text \<open>The server's loop: a failing setsockopt ends the process.\<close>

fun bind_loop :: "addrinfo list \<Rightarrow> int option outcome" where
  "bind_loop [] = Ret None"
| "bind_loop (p # ps) =
     (if ai_socket p = -1 then bind_loop ps
      else if ai_setsockopt p = -1 then Exits 1
      else if ai_bind p = -1 then bind_loop ps
      else Ret (Some (ai_socket p)))"

lemma connect_loop_None_iff:
  "connect_loop ps = None \<longleftrightarrow> (\<forall>p\<in>set ps. ai_socket p = -1 \<or> ai_connect p = -1)"
  by (induction ps) auto

lemma connect_loop_Some:
  "connect_loop ps = Some fd \<Longrightarrow> \<exists>p\<in>set ps. ai_socket p = fd \<and> fd \<noteq> -1 \<and> ai_connect p \<noteq> -1"
  by (induction ps) (auto split: if_splits)

lemma bind_loop_Some:
  "bind_loop ps = Ret (Some fd) \<Longrightarrow>
     \<exists>p\<in>set ps. ai_socket p = fd \<and> fd \<noteq> -1 \<and> ai_setsockopt p \<noteq> -1 \<and> ai_bind p \<noteq> -1"
  by (induction ps) (auto split: if_splits)

end
