(* ===== verification/Options.thy ===== *)
theory Options
  imports CStrings
begin

text \<open>
  Command lines. getopt\_long is a library call: a program sees the sequence of option
  characters that it returns, each with the value of optarg. The option loops of the mains are
  folds of their switch over that sequence; -1 ends it. An unknown option is a question mark.
\<close>

type_synonym opts = "(char \<times> string option) list"

text \<open>The loop over the options, with the body of the switch.\<close>

fun option_loop :: "(char \<Rightarrow> string option \<Rightarrow> 'c \<Rightarrow> 'c outcome) \<Rightarrow> opts \<Rightarrow> 'c \<Rightarrow> 'c outcome" where
  "option_loop sw [] c = Ret c"
| "option_loop sw ((ch, arg) # os) c = bind_outcome (sw ch arg c) (option_loop sw os)"

text \<open>atoi of optarg; a null pointer is dereferenced.\<close>

definition atoi_arg :: "string option \<Rightarrow> (int \<Rightarrow> 'c) \<Rightarrow> 'c outcome" where
  "atoi_arg arg f = (case arg of None \<Rightarrow> Undef | Some s \<Rightarrow> Ret (f (atoi s)))"

lemma atoi_arg_Some [simp]: "atoi_arg (Some s) f = Ret (f (atoi s))"
  by (simp add: atoi_arg_def)

lemma option_loop_append:
  "option_loop sw (xs @ ys) c = bind_outcome (option_loop sw xs c) (option_loop sw ys)"
proof (induction sw xs c rule: option_loop.induct)
  case (2 sw ch arg os c)
  then show ?case by (cases "sw ch arg c") auto
qed simp

text \<open>An invariant of the switch is one of the loop.\<close>

lemma option_loop_inv:
  assumes "option_loop sw os c = Ret c'" and "P c"
    and "\<And>ch arg c c'. P c \<Longrightarrow> sw ch arg c = Ret c' \<Longrightarrow> P c'"
  shows "P c'"
  using assms(1,2)
proof (induction os arbitrary: c)
  case (Cons a os)
  obtain ch arg where "a = (ch, arg)" by (cases a)
  with Cons show ?case using assms(3) [of c ch arg] by auto
qed simp

text \<open>The port check that most mains share.\<close>

abbreviation bad_port :: "int \<Rightarrow> bool" where
  "bad_port p \<equiv> p < 1025 \<or> 65535 < p"

end
