(* ===== verification/Echo.thy ===== *)
theory Echo
  imports Network Options
begin

text \<open>
  multithreading/echo: echoclient.c sends a message and prints what comes back, echoserver.c
  sends back what it receives. Both programs from their options to their exit.
\<close>

section \<open>The client\<close>

record echo_config =
  ec_portno :: int
  ec_message :: "string option"
  ec_hostname :: "string option"

definition echoclient_default :: echo_config where
  "echoclient_default =
     \<lparr>ec_portno = 10823, ec_message = Some ''Hello Summer!!'', ec_hostname = Some ''localhost''\<rparr>"

text \<open>The port of the client is an unsigned short.\<close>

definition echoclient_switch :: "char \<Rightarrow> string option \<Rightarrow> echo_config \<Rightarrow> echo_config outcome" where
  "echoclient_switch ch arg c =
     (if ch = CHR ''s'' then Ret (c\<lparr>ec_hostname := arg\<rparr>)
      else if ch = CHR ''p'' then atoi_arg arg (\<lambda>n. c\<lparr>ec_portno := c_ushort n\<rparr>)
      else if ch = CHR ''h'' then Exits 0
      else if ch = CHR ''m'' then Ret (c\<lparr>ec_message := arg\<rparr>)
      else Exits 1)"

text \<open>The buffer of 16 bytes after a receive: the data, then the zeros it held before.\<close>

definition ECHO_BUF :: nat where "ECHO_BUF = 16"

definition echo_buffer :: "char list \<Rightarrow> char list" where
  "echo_buffer d = d @ replicate (ECHO_BUF - length d) NUL"

text \<open>Reading the buffer as a string runs over its end when it holds no NUL.\<close>

definition echo_string :: "char list \<Rightarrow> string outcome" where
  "echo_string d = (if NUL \<in> set (echo_buffer d) then Ret (cstr (echo_buffer d)) else Undef)"

text \<open>The return value, what has been sent and what has been printed.\<close>

definition echoclient_main ::
  "opts \<Rightarrow> int \<Rightarrow> addrinfo list \<Rightarrow> net \<Rightarrow> (int \<times> string \<times> string) outcome" where
  "echoclient_main os gai addrs net =
     bind_outcome (option_loop echoclient_switch os echoclient_default) (\<lambda>c.
       if bad_port (ec_portno c) then Exits 1
       else (case ec_message c of None \<Rightarrow> Exits 1
       | Some message \<Rightarrow>
           (case ec_hostname c of None \<Rightarrow> Exits 1
            | Some _ \<Rightarrow>
                if gai \<noteq> 0 then Exits 1
                else (case connect_loop addrs of
                        None \<Rightarrow> Ret (2, [], [])
                      | Some _ \<Rightarrow>
                          bind_outcome (recv ECHO_BUF net) (\<lambda>(_, d, _).
                            bind_outcome (echo_string d) (\<lambda>out. Ret (0, message, out)))))))"

section \<open>The server\<close>

record echo_server_config =
  es_portno :: int
  es_maxnpending :: int

definition echoserver_default :: echo_server_config where
  "echoserver_default = \<lparr>es_portno = 10823, es_maxnpending = 5\<rparr>"

definition echoserver_switch ::
  "char \<Rightarrow> string option \<Rightarrow> echo_server_config \<Rightarrow> echo_server_config outcome" where
  "echoserver_switch ch arg c =
     (if ch = CHR ''m'' then atoi_arg arg (\<lambda>n. c\<lparr>es_maxnpending := n\<rparr>)
      else if ch = CHR ''p'' then atoi_arg arg (\<lambda>n. c\<lparr>es_portno := n\<rparr>)
      else if ch = CHR ''h'' then Exits 0
      else Exits 1)"

text \<open>
  The accept loop: one receive, one send, close. The result is what has been sent on each
  connection when no further one comes.
\<close>

fun echo_accept :: "(int \<times> net) list \<Rightarrow> (int \<times> string) list \<Rightarrow> (int \<times> string) list outcome" where
  "echo_accept [] sent = Ret sent"
| "echo_accept ((fd, net) # conns) sent =
     (if fd = -1 then echo_accept conns sent
      else bind_outcome (recv ECHO_BUF net) (\<lambda>(_, d, _).
             bind_outcome (echo_string d) (\<lambda>s. echo_accept conns (sent @ [(fd, s)]))))"

definition echoserver_main ::
  "opts \<Rightarrow> int \<Rightarrow> addrinfo list \<Rightarrow> int \<Rightarrow> (int \<times> net) list \<Rightarrow> (int \<times> string) list outcome" where
  "echoserver_main os gai addrs lstn conns =
     bind_outcome (option_loop echoserver_switch os echoserver_default) (\<lambda>c.
       if bad_port (es_portno c) then Exits 1
       else if es_maxnpending c < 1 then Exits 1
       else if gai \<noteq> 0 then Exits 1
       else bind_outcome (bind_loop addrs) (\<lambda>sock.
         case sock of None \<Rightarrow> Exits 1
         | Some _ \<Rightarrow> if lstn = -1 then Exits 1 else echo_accept conns []))"

section \<open>Strings of the buffer\<close>

lemma echo_string_short:
  "NUL \<notin> set d \<Longrightarrow> length d < ECHO_BUF \<Longrightarrow> echo_string d = Ret d"
  by (simp add: echo_string_def echo_buffer_def)

lemma echo_string_long:
  "NUL \<notin> set d \<Longrightarrow> length d = ECHO_BUF \<Longrightarrow> echo_string d = Undef"
  by (simp add: echo_string_def echo_buffer_def)

text \<open>Messages that fit, each in one piece.\<close>

lemma echo_accept_messages:
  assumes "\<forall>(fd, m) \<in> set ms. fd \<noteq> -1 \<and> NUL \<notin> set m \<and> length m < ECHO_BUF"
  shows "echo_accept (map (\<lambda>(fd, m). (fd, [RData m])) ms) sent = Ret (sent @ ms)"
  using assms by (induction ms arbitrary: sent) (auto simp: echo_string_short)

section \<open>Properties\<close>

text \<open>
  A message of at most 15 characters comes back: the server sends every client what that
  client sent, in the order of the connections, and a client that receives its message prints
  it and returns 0.
\<close>

theorem echo_roundtrip:
  assumes "\<forall>(fd, m) \<in> set ms. fd \<noteq> -1 \<and> NUL \<notin> set m \<and> length m < ECHO_BUF"
    and "bind_loop addrs = Ret (Some sock)" and "lstn \<noteq> -1"
    and "connect_loop caddrs = Some csock" and "(fd, m) \<in> set ms"
  shows "echoserver_main [] 0 addrs lstn (map (\<lambda>(fd, m). (fd, [RData m])) ms) = Ret ms \<and>
    echoclient_main [(CHR ''m'', Some m)] 0 caddrs [RData m] = Ret (0, m, m)"
proof
  show "echoserver_main [] 0 addrs lstn (map (\<lambda>(fd, m). (fd, [RData m])) ms) = Ret ms"
    using echo_accept_messages [OF assms(1), of "[]"] assms(2,3)
    by (simp add: echoserver_main_def echoserver_default_def)
  have "NUL \<notin> set m" "length m < ECHO_BUF" using assms(1,5) by auto
  then show "echoclient_main [(CHR ''m'', Some m)] 0 caddrs [RData m] = Ret (0, m, m)"
    using assms(4) echo_string_short [of m]
    by (simp add: echoclient_main_def echoclient_default_def echoclient_switch_def)
qed

theorem echo_roundtrip_witness:
  "echoserver_main [] 0 [\<lparr>ai_socket = 3, ai_setsockopt = 0, ai_bind = 0, ai_connect = 0\<rparr>] 0
     [(4, [RData ''hi'']), (5, [RData ''you''])] = Ret [(4, ''hi''), (5, ''you'')]"
  using echo_roundtrip [of "[(4, ''hi''), (5, ''you'')]"
      "[\<lparr>ai_socket = 3, ai_setsockopt = 0, ai_bind = 0, ai_connect = 0\<rparr>]" 3 0
      "[\<lparr>ai_socket = 3, ai_setsockopt = 0, ai_bind = 0, ai_connect = 0\<rparr>]" 3 4 "''hi''"]
  by (simp add: ECHO_BUF_def)

text \<open>
  A message of 16 characters or more fills the buffer without a NUL: the server reads
  over its end, and so does a client that receives such an answer.
\<close>

theorem echo_overrun:
  assumes "NUL \<notin> set m" and "ECHO_BUF \<le> length m" and "fd \<noteq> -1"
    and "bind_loop addrs = Ret (Some sock)" and "lstn \<noteq> -1" and "connect_loop caddrs = Some csock"
  shows "echoserver_main [] 0 addrs lstn ((fd, [RData m]) # conns) = Undef \<and>
    echoclient_main [] 0 caddrs [RData m] = Undef"
proof -
  have "\<exists>k r. recv ECHO_BUF [RData m] = Ret (k, take ECHO_BUF m, r)" using assms(2) by auto
  moreover have "echo_string (take ECHO_BUF m) = Undef"
    using assms(1,2) by (intro echo_string_long) (auto dest: in_set_takeD)
  ultimately show ?thesis using assms(3-6)
    by (auto simp: echoserver_main_def echoserver_default_def echoclient_main_def
        echoclient_default_def simp del: recv.simps)
qed

theorem echo_overrun_witness:
  "echoserver_main [] 0 [\<lparr>ai_socket = 3, ai_setsockopt = 0, ai_bind = 0, ai_connect = 0\<rparr>] 0
     [(4, [RData (replicate 16 CHR ''a'')])] = Undef"
  using echo_overrun [of "replicate 16 CHR ''a''" 4
      "[\<lparr>ai_socket = 3, ai_setsockopt = 0, ai_bind = 0, ai_connect = 0\<rparr>]" 3 0
      "[\<lparr>ai_socket = 3, ai_setsockopt = 0, ai_bind = 0, ai_connect = 0\<rparr>]" 3 "[]"]
  by (simp add: ECHO_BUF_def)

text \<open>
  The client's port is stored in 16 bits before it is checked: a port option is accepted
  when the number modulo 65536 is at least 1025, so 66561 passes for 1025; the server, with
  an int, refuses every number above 65535.
\<close>

theorem echo_port_check:
  assumes "n < 2 ^ 31" and "connect_loop caddrs = Some csock" and "NUL \<notin> set d" and "length d < ECHO_BUF"
  shows "(echoclient_main [(CHR ''p'', Some (show_nat n))] 0 caddrs [RData d] \<noteq> Exits 1) =
      (1025 \<le> n mod 65536) \<and>
    (65535 < n \<longrightarrow> echoserver_main [(CHR ''p'', Some (show_nat n))] 0 addrs lstn conns = Exits 1)"
proof
  have "c_ushort (int n) = int (n mod 65536)" by (simp add: c_ushort_def zmod_int)
  then show "(echoclient_main [(CHR ''p'', Some (show_nat n))] 0 caddrs [RData d] \<noteq> Exits 1) =
      (1025 \<le> n mod 65536)"
    using assms echo_string_short [OF assms(3,4)]
    by (auto simp: echoclient_main_def echoclient_switch_def echoclient_default_def atoi_show_nat)
  show "65535 < n \<longrightarrow> echoserver_main [(CHR ''p'', Some (show_nat n))] 0 addrs lstn conns = Exits 1"
    using assms(1) by (simp add: echoserver_main_def echoserver_switch_def echoserver_default_def atoi_show_nat)
qed

theorem echo_port_check_witness:
  "echoclient_main [(CHR ''p'', Some (show_nat 66561))] 0
     [\<lparr>ai_socket = 3, ai_setsockopt = 0, ai_bind = 0, ai_connect = 0\<rparr>] [RData ''a''] \<noteq> Exits 1"
  using echo_port_check [of 66561 "[\<lparr>ai_socket = 3, ai_setsockopt = 0, ai_bind = 0, ai_connect = 0\<rparr>]" 3 "''a''"]
  by (simp add: ECHO_BUF_def)

end
