(* ===== verification/FileTransfer.thy ===== *)
theory FileTransfer
  imports Network Options
begin

text \<open>
  multithreading/transfer: transferserver.c sends a file to whoever connects, transferclient.c
  writes what it receives to a file. Both read their buffers as strings.
\<close>

definition TR_BUF :: nat where "TR_BUF = 512"

section \<open>The client\<close>

record transfer_config =
  tc_portno :: int
  tc_hostname :: "string option"
  tc_filename :: "string option"

definition transferclient_default :: transfer_config where
  "transferclient_default =
     \<lparr>tc_portno = 10823, tc_hostname = Some ''localhost'', tc_filename = Some ''cs6200.txt''\<rparr>"

definition transferclient_switch ::
  "char \<Rightarrow> string option \<Rightarrow> transfer_config \<Rightarrow> transfer_config outcome" where
  "transferclient_switch ch arg c =
     (if ch = CHR ''s'' then Ret (c\<lparr>tc_hostname := arg\<rparr>)
      else if ch = CHR ''p'' then atoi_arg arg (\<lambda>n. c\<lparr>tc_portno := c_ushort n\<rparr>)
      else if ch = CHR ''h'' then Exits 0
      else if ch = CHR ''o'' then Ret (c\<lparr>tc_filename := arg\<rparr>)
      else Exits 1)"

text \<open>
  The receive loop: the string in the zeroed buffer of 513 bytes goes to the file \<open>out\<close>. The
  loop ends with the stream or with an error.
\<close>

function receive_file :: "net \<Rightarrow> string \<Rightarrow> string outcome" where
  "receive_file net out =
     (case recv TR_BUF net of
        Ret (n, d, net') \<Rightarrow>
          if 0 < n then receive_file net' (out @ cstr (d @ replicate (TR_BUF + 1 - length d) NUL))
          else Ret out
      | Exits k \<Rightarrow> Exits k | Undef \<Rightarrow> Undef | Blocks \<Rightarrow> Blocks)"
  by pat_completeness auto
termination
  by (relation "measure (\<lambda>(net, _). net_size net)") (auto simp: TR_BUF_def dest!: recv_decreases)

declare receive_file.simps [simp del]

text \<open>The result: the return value and the contents of the output file.\<close>

definition transferclient_main ::
  "opts \<Rightarrow> bool \<Rightarrow> int \<Rightarrow> addrinfo list \<Rightarrow> net \<Rightarrow> (int \<times> string) outcome" where
  "transferclient_main os can_open gai addrs net =
     bind_outcome (option_loop transferclient_switch os transferclient_default) (\<lambda>c.
       if tc_hostname c = None then Exits 1
       else if tc_filename c = None then Exits 1
       else if bad_port (tc_portno c) then Exits 1
       else if gai \<noteq> 0 then Exits 1
       else (case connect_loop addrs of
               None \<Rightarrow> Ret (2, [])
             | Some _ \<Rightarrow>
                 if can_open then bind_outcome (receive_file net []) (\<lambda>out. Ret (0, out))
                 else bind_outcome (recv TR_BUF net) (\<lambda>_. Undef)))"

section \<open>The server\<close>

text \<open>
  sendall, which no program calls: the results of send are an input. The local \<open>n\<close> is read
  uninitialised when there is nothing to send. The result: the value, the count and the data.
\<close>

fun sendall_loop ::
  "int list \<Rightarrow> string \<Rightarrow> int \<Rightarrow> int \<Rightarrow> int \<Rightarrow> int option \<Rightarrow> string \<Rightarrow> (int option \<times> int \<times> string) outcome" where
  "sendall_loop rs buf len tot left n out =
     (if tot < len
      then (case rs of
              [] \<Rightarrow> Blocks
            | k # rs' \<Rightarrow>
                if k = -1 then Ret (Some k, tot, out)
                else sendall_loop rs' buf len (tot + k) (left - k) (Some k)
                       (out @ take (nat k) (drop (nat tot) buf)))
      else Ret (n, tot, out))"

declare sendall_loop.simps [simp del]

definition sendall :: "int list \<Rightarrow> string \<Rightarrow> int \<Rightarrow> (int \<times> int \<times> string) outcome" where
  "sendall rs buf len =
     bind_outcome (sendall_loop rs buf len 0 len None []) (\<lambda>(n, tot, out).
       case n of None \<Rightarrow> Undef | Some k \<Rightarrow> Ret (if k = -1 then -1 else 0, tot, out))"

record transfer_server_config =
  ts_filename :: "string option"
  ts_portno :: int

definition transferserver_default :: transfer_server_config where
  "transferserver_default = \<lparr>ts_filename = Some ''6200.txt'', ts_portno = 10823\<rparr>"

definition transferserver_switch ::
  "char \<Rightarrow> string option \<Rightarrow> transfer_server_config \<Rightarrow> transfer_server_config outcome" where
  "transferserver_switch ch arg c =
     (if ch = CHR ''p'' then atoi_arg arg (\<lambda>n. c\<lparr>ts_portno := n\<rparr>)
      else if ch = CHR ''h'' then Exits 0
      else if ch = CHR ''f'' then Ret (c\<lparr>ts_filename := arg\<rparr>)
      else Exits 1)"

text \<open>
  The fread loop over the rest of the file: the strings that are passed to send, one for each
  buffer.
\<close>

function send_file :: "string \<Rightarrow> string list" where
  "send_file f =
     (if f = [] then []
      else cstr (take TR_BUF f @ replicate (TR_BUF + 1 - length (take TR_BUF f)) NUL) #
           send_file (drop TR_BUF f))"
  by pat_completeness auto
termination
  by (relation "measure length") (auto simp: TR_BUF_def)

declare send_file.simps [simp del]

text \<open>The accept loop: the file is read to its end for the first connection and never rewound.\<close>

fun transfer_accept :: "int list \<Rightarrow> string \<Rightarrow> (int \<times> string list) list \<Rightarrow> (int \<times> string list) list" where
  "transfer_accept [] f sent = sent"
| "transfer_accept (fd # fds) f sent =
     (if fd = -1 then transfer_accept fds f sent
      else transfer_accept fds [] (sent @ [(fd, send_file f)]))"

definition transferserver_main ::
  "opts \<Rightarrow> string option \<Rightarrow> int \<Rightarrow> addrinfo list \<Rightarrow> int \<Rightarrow> int list \<Rightarrow> (int \<times> string list) list outcome" where
  "transferserver_main os file gai addrs lstn fds =
     bind_outcome (option_loop transferserver_switch os transferserver_default) (\<lambda>c.
       if bad_port (ts_portno c) then Exits 1
       else if ts_filename c = None then Exits 1
       else (case file of
               None \<Rightarrow> Exits 0
             | Some f \<Rightarrow>
                 if gai \<noteq> 0 then Exits 1
                 else bind_outcome (bind_loop addrs) (\<lambda>sock.
                   case sock of None \<Rightarrow> Exits 1
                   | Some _ \<Rightarrow> if lstn = -1 then Exits 1 else Ret (transfer_accept fds f []))))"

section \<open>Lemmas\<close>

lemma send_file_complete: "NUL \<notin> set f \<Longrightarrow> concat (send_file f) = f"
proof (induction f rule: send_file.induct)
  case (1 f)
  show ?case
  proof (cases "f = []")
    case True
    then show ?thesis by (simp add: send_file.simps)
  next
    case False
    have "NUL \<notin> set (drop TR_BUF f)" "NUL \<notin> set (take TR_BUF f)"
      using 1(2) by (auto dest: in_set_dropD in_set_takeD)
    with 1(1) [OF False] False show ?thesis by (subst send_file.simps) simp
  qed
qed

lemma receive_file_stream:
  assumes "stream net" and "NUL \<notin> set (net_data net)"
  shows "receive_file (net @ [RData []]) out = Ret (out @ net_data net)"
  using assms
proof (induction "net_size net" arbitrary: net out rule: less_induct)
  case less
  show ?case
  proof (cases "net = []")
    case True
    then show ?thesis by (subst receive_file.simps) simp
  next
    case False
    have "0 < TR_BUF" by (simp add: TR_BUF_def)
    from recv_stream_append [OF less.prems(1) this False, of "[RData []]"]
    obtain d net' where rv: "recv TR_BUF (net @ [RData []]) = Ret (int (length d), d, net' @ [RData []])"
        and d: "d \<noteq> []" "stream net'" "net_data net = d @ net_data net'" "net_size net' < net_size net"
      by blast
    have nul: "NUL \<notin> set d" "NUL \<notin> set (net_data net')" using less.prems(2) d(3) by auto
    have "receive_file (net @ [RData []]) out = receive_file (net' @ [RData []]) (out @ d)"
      using rv d(1) nul(1) by (subst receive_file.simps) simp
    with less.hyps [OF d(4,2) nul(2)] d(3) show ?thesis by simp
  qed
qed

lemma transfer_accept_empty:
  "-1 \<notin> set fds \<Longrightarrow> transfer_accept fds [] sent = sent @ map (\<lambda>fd. (fd, [])) fds"
  by (induction fds arbitrary: sent) (auto simp: send_file.simps)

lemma sendall_loop_all:
  assumes "\<forall>k\<in>set rs. 0 < k" and "0 \<le> tot" and "tot + sum_list rs = len" and "int (length buf) = len"
    and "n \<noteq> Some (-1)" and "rs = [] \<Longrightarrow> n \<noteq> None"
  shows "\<exists>k. k \<noteq> -1 \<and> sendall_loop rs buf len tot left n out = Ret (Some k, len, out @ drop (nat tot) buf)"
  using assms
proof (induction rs arbitrary: tot left n out)
  case Nil
  then show ?case by (cases n) (auto simp: sendall_loop.simps)
next
  case (Cons k rs)
  have k: "0 < k" "0 \<le> sum_list rs" using Cons.prems(1) by (auto intro!: sum_list_nonneg simp: less_imp_le)
  have d: "drop (nat tot) buf = take (nat k) (drop (nat tot) buf) @ drop (nat (tot + k)) buf"
    using Cons.prems(2) k by (simp add: nat_add_distrib add.commute flip: drop_drop)
  have "\<exists>j. j \<noteq> -1 \<and> sendall_loop rs buf len (tot + k) (left - k) (Some k)
      (out @ take (nat k) (drop (nat tot) buf)) =
    Ret (Some j, len, (out @ take (nat k) (drop (nat tot) buf)) @ drop (nat (tot + k)) buf)"
    using Cons.prems k by (intro Cons.IH) auto
  moreover have "tot < len" using Cons.prems(3) k by simp
  ultimately show ?case using k d by (subst sendall_loop.simps) simp
qed

section \<open>Properties\<close>

text \<open>
  A file without NUL bytes arrives complete at the first client: what the server hands to
  send is the file, and a client that receives it in any pieces writes exactly that file. The
  file pointer is not rewound: every later client is sent nothing.
\<close>

theorem transfer_first_client_only:
  assumes "NUL \<notin> set f" and "bind_loop addrs = Ret (Some sock)" and "lstn \<noteq> -1"
    and "-1 \<notin> set (fd # fds)" and "connect_loop caddrs = Some csock"
    and "stream net" and "net_data net = concat (send_file f)"
  shows "transferserver_main [] (Some f) 0 addrs lstn (fd # fds) =
      Ret ((fd, send_file f) # map (\<lambda>fd. (fd, [])) fds) \<and>
    transferclient_main [] True 0 caddrs (net @ [RData []]) = Ret (0, f)"
proof
  show "transferserver_main [] (Some f) 0 addrs lstn (fd # fds) =
      Ret ((fd, send_file f) # map (\<lambda>fd. (fd, [])) fds)"
    using assms(2-4) transfer_accept_empty [of fds "[(fd, send_file f)]"]
    by (simp add: transferserver_main_def transferserver_default_def)
  have "net_data net = f" using assms(1,7) send_file_complete by simp
  then show "transferclient_main [] True 0 caddrs (net @ [RData []]) = Ret (0, f)"
    using assms(1,5) receive_file_stream [OF assms(6), of "[]"]
    by (simp add: transferclient_main_def transferclient_default_def)
qed

theorem transfer_first_client_only_witness:
  "transferclient_main [] True 0 [\<lparr>ai_socket = 3, ai_setsockopt = 0, ai_bind = 0, ai_connect = 0\<rparr>]
     ([RData ''ab'', RData ''c''] @ [RData []]) = Ret (0, ''abc'')"
  using transfer_first_client_only [of "''abc''"
      "[\<lparr>ai_socket = 3, ai_setsockopt = 0, ai_bind = 0, ai_connect = 0\<rparr>]" 3 0 4 "[5]"
      "[\<lparr>ai_socket = 3, ai_setsockopt = 0, ai_bind = 0, ai_connect = 0\<rparr>]" 3 "[RData ''ab'', RData ''c'']"]
  by (simp add: send_file_complete)

text \<open>
  A NUL byte cuts off the rest of its buffer: of a file of at most 512 bytes with a NUL
  the server sends only the part before it, and the client, receiving the whole file in one
  piece, would write only that part.
\<close>

theorem transfer_cut_at_NUL:
  assumes "f = a @ NUL # b" and "NUL \<notin> set a" and "length f \<le> TR_BUF"
    and "connect_loop caddrs = Some csock"
  shows "send_file f = [a] \<and> transferclient_main [] True 0 caddrs [RData f, RData []] = Ret (0, a)"
proof -
  have f: "f \<noteq> []" "cstr f = a" "take TR_BUF f = f" "drop TR_BUF f = []" using assms(1-3) by auto
  have "send_file f = cstr f # send_file []" using f by (subst send_file.simps) simp
  then have "send_file f = [a]" using f by (simp add: send_file.simps)
  moreover have "receive_file [RData f, RData []] [] = Ret a"
    using f assms(3) by (subst receive_file.simps, simp, subst receive_file.simps, simp)
  ultimately show ?thesis
    using assms(4) by (simp add: transferclient_main_def transferclient_default_def)
qed

theorem transfer_cut_at_NUL_witness:
  "send_file (''a'' @ NUL # ''b'') = [''a'']"
  using transfer_cut_at_NUL [of "''a'' @ NUL # ''b''" "''a''" "''b''"
      "[\<lparr>ai_socket = 3, ai_setsockopt = 0, ai_bind = 0, ai_connect = 0\<rparr>]" 3]
  by (simp add: TR_BUF_def)

text \<open>
  sendall sends everything: when no send fails and the counts add up to the length, it
  returns 0, the length, and has sent the buffer in order. With nothing to send it reads an
  uninitialised variable.
\<close>

theorem sendall_complete:
  assumes "\<forall>k\<in>set rs. 0 < k" and "sum_list rs = int (length buf)" and "buf \<noteq> []"
  shows "sendall rs buf (int (length buf)) = Ret (0, int (length buf), buf) \<and> sendall [] [] 0 = Undef"
proof
  have "rs \<noteq> []" using assms(2,3) by auto
  then show "sendall rs buf (int (length buf)) = Ret (0, int (length buf), buf)"
    using sendall_loop_all [OF assms(1), of 0 "int (length buf)" buf None "int (length buf)" "[]"] assms(2)
    by (auto simp: sendall_def)
  show "sendall [] [] 0 = Undef" by (simp add: sendall_def sendall_loop.simps)
qed

theorem sendall_complete_witness: "sendall [1, 2] ''abc'' 3 = Ret (0, 3, ''abc'')"
  using sendall_complete [of "[1, 2]" "''abc''"] by simp

end
