(* ===== verification/Steque.thy ===== *)
theory Steque
  imports Prelude
begin

text \<open>
  steque.c, the linked list that is both stack and queue, with its nodes in an explicit heap
  (three copies: multithreading/mtgf, ipc/server and ipc/cache; they differ in the exit
  status of an underflow). The operations are proved against their list meaning, and
  the contract that the boss-worker programs use is stated as a locale.
\<close>

section \<open>The data\<close>

text \<open>
  steque\_node\_t and steque\_t. A pointer is a \<^typ>\<open>nat option\<close>, None the null pointer; the
  heap holds the nodes that are allocated.
\<close>

record 'a node =
  nd_item :: 'a
  nd_next :: "nat option"

type_synonym 'a heap = "nat \<rightharpoonup> 'a node"

record steque =
  st_front :: "nat option"
  st_back :: "nat option"
  st_N :: int

type_synonym 'a steque_state = "'a heap \<times> steque"

section \<open>The operations\<close>

text \<open>The first argument of enqueue and push is what malloc returns.\<close>

definition steque_init :: "'a heap \<Rightarrow> 'a steque_state" where
  "steque_init h = (h, \<lparr>st_front = None, st_back = None, st_N = 0\<rparr>)"

fun steque_enqueue :: "nat option \<Rightarrow> 'a \<Rightarrow> 'a steque_state \<Rightarrow> 'a steque_state outcome" where
  "steque_enqueue None item st = Undef"
| "steque_enqueue (Some node) item (h, s) =
     (let h1 = h(node \<mapsto> \<lparr>nd_item = item, nd_next = None\<rparr>) in
      case st_back s of
        None \<Rightarrow> Ret (h1, \<lparr>st_front = Some node, st_back = Some node, st_N = c_int (st_N s + 1)\<rparr>)
      | Some b \<Rightarrow>
          (case h1 b of
             None \<Rightarrow> Undef
           | Some bn \<Rightarrow>
               Ret (h1(b \<mapsto> bn\<lparr>nd_next := Some node\<rparr>),
                    s\<lparr>st_back := Some node, st_N := c_int (st_N s + 1)\<rparr>)))"

fun steque_push :: "nat option \<Rightarrow> 'a \<Rightarrow> 'a steque_state \<Rightarrow> 'a steque_state outcome" where
  "steque_push None item st = Undef"
| "steque_push (Some node) item (h, s) =
     Ret (h(node \<mapsto> \<lparr>nd_item = item, nd_next = st_front s\<rparr>),
          \<lparr>st_front = Some node,
           st_back = (if st_back s = None then Some node else st_back s),
           st_N = c_int (st_N s + 1)\<rparr>)"

definition steque_size :: "'a steque_state \<Rightarrow> int" where
  "steque_size st = st_N (snd st)"

definition steque_isempty :: "'a steque_state \<Rightarrow> int" where
  "steque_isempty st = (if st_N (snd st) = 0 then 1 else 0)"

text \<open>\<open>fail\<close> is the exit status of an underflow: EXIT\_FAILURE or STEQUE\_FAILURE.\<close>

fun steque_pop :: "int \<Rightarrow> 'a steque_state \<Rightarrow> ('a \<times> 'a steque_state) outcome" where
  "steque_pop fail (h, s) =
     (case st_front s of
        None \<Rightarrow> Exits fail
      | Some node \<Rightarrow>
          (case h node of
             None \<Rightarrow> Undef
           | Some nd \<Rightarrow>
               Ret (nd_item nd,
                    h(node := None),
                    \<lparr>st_front = nd_next nd,
                     st_back = (if nd_next nd = None then None else st_back s),
                     st_N = c_int (st_N s - 1)\<rparr>)))"

fun steque_cycle :: "'a steque_state \<Rightarrow> 'a steque_state outcome" where
  "steque_cycle (h, s) =
     (case st_back s of
        None \<Rightarrow> Ret (h, s)
      | Some b \<Rightarrow>
          (case h b of
             None \<Rightarrow> Undef
           | Some bn \<Rightarrow>
               (let h1 = h(b \<mapsto> bn\<lparr>nd_next := st_front s\<rparr>) in
                case st_front s of
                  None \<Rightarrow> Undef
                | Some f \<Rightarrow>
                    (case h1 f of
                       None \<Rightarrow> Undef
                     | Some fn \<Rightarrow>
                         Ret (h1(f \<mapsto> fn\<lparr>nd_next := None\<rparr>),
                              s\<lparr>st_back := Some f, st_front := nd_next fn\<rparr>)))))"

fun steque_front :: "int \<Rightarrow> 'a steque_state \<Rightarrow> 'a outcome" where
  "steque_front fail (h, s) =
     (case st_front s of
        None \<Rightarrow> Exits fail
      | Some node \<Rightarrow> (case h node of None \<Rightarrow> Undef | Some nd \<Rightarrow> Ret (nd_item nd)))"

text \<open>The loop of steque\_destroy; None would be a loop that does not end.\<close>

partial_function (option) steque_destroy ::
  "int \<Rightarrow> 'a steque_state \<Rightarrow> 'a steque_state outcome option" where
  "steque_destroy fail st =
     (if steque_isempty st = 1 then Some (Ret st)
      else (case steque_pop fail st of
              Ret r \<Rightarrow> steque_destroy fail (snd r)
            | Exits n \<Rightarrow> Some (Exits n)
            | Undef \<Rightarrow> Some Undef
            | Blocks \<Rightarrow> Some Blocks))"

declare steque_destroy.simps [code]

section \<open>The functions of one copy of the library\<close>

record 'a steque_lib =
  lib_init :: "'a heap \<Rightarrow> 'a steque_state"
  lib_enqueue :: "nat option \<Rightarrow> 'a \<Rightarrow> 'a steque_state \<Rightarrow> 'a steque_state outcome"
  lib_push :: "nat option \<Rightarrow> 'a \<Rightarrow> 'a steque_state \<Rightarrow> 'a steque_state outcome"
  lib_size :: "'a steque_state \<Rightarrow> int"
  lib_isempty :: "'a steque_state \<Rightarrow> int"
  lib_pop :: "'a steque_state \<Rightarrow> ('a \<times> 'a steque_state) outcome"
  lib_cycle :: "'a steque_state \<Rightarrow> 'a steque_state outcome"
  lib_front :: "'a steque_state \<Rightarrow> 'a outcome"
  lib_destroy :: "'a steque_state \<Rightarrow> 'a steque_state outcome option"

definition steque_lib_with :: "int \<Rightarrow> 'a steque_lib" where
  "steque_lib_with fail =
     \<lparr>lib_init = steque_init, lib_enqueue = steque_enqueue, lib_push = steque_push,
      lib_size = steque_size, lib_isempty = steque_isempty, lib_pop = steque_pop fail,
      lib_cycle = steque_cycle, lib_front = steque_front fail,
      lib_destroy = steque_destroy fail\<rparr>"

definition STEQUE_FAILURE :: int where "STEQUE_FAILURE = -1"

definition mtgf_steque :: "'a steque_lib" where
  "mtgf_steque = steque_lib_with EXIT_FAILURE"

definition proxy_steque :: "'a steque_lib" where
  "proxy_steque = steque_lib_with STEQUE_FAILURE"

definition cache_steque :: "'a steque_lib" where
  "cache_steque = steque_lib_with STEQUE_FAILURE"

section \<open>The list that a steque holds\<close>

text \<open>
  \<open>lseg h p as xs q\<close>: following next from \<open>p\<close> visits the nodes \<open>as\<close>, which hold the
  items \<open>xs\<close>, and ends at \<open>q\<close>.
\<close>

fun lseg :: "'a heap \<Rightarrow> nat option \<Rightarrow> nat list \<Rightarrow> 'a list \<Rightarrow> nat option \<Rightarrow> bool" where
  "lseg h p [] [] q = (p = q)"
| "lseg h p (a # as) (x # xs) q =
     (p = Some a \<and> (\<exists>n. h a = Some \<lparr>nd_item = x, nd_next = n\<rparr> \<and> lseg h n as xs q))"
| "lseg h p _ _ q = False"

definition steque_rep :: "'a steque_state \<Rightarrow> nat list \<Rightarrow> 'a list \<Rightarrow> bool" where
  "steque_rep st as xs \<longleftrightarrow>
     distinct as \<and> lseg (fst st) (st_front (snd st)) as xs None \<and>
     st_back (snd st) = (if as = [] then None else Some (last as)) \<and>
     st_N (snd st) = int (length xs) \<and> int (length xs) \<le> INT_MAX"

text \<open>The same list, read off the heap by a walk of N steps.\<close>

fun walk :: "'a heap \<Rightarrow> nat \<Rightarrow> nat option \<Rightarrow> 'a list" where
  "walk h 0 p = []"
| "walk h (Suc n) None = []"
| "walk h (Suc n) (Some a) =
     (case h a of None \<Rightarrow> [] | Some nd \<Rightarrow> nd_item nd # walk h n (nd_next nd))"

definition steque_items :: "'a steque_state \<Rightarrow> 'a list" where
  "steque_items st = walk (fst st) (nat (st_N (snd st))) (st_front (snd st))"

text \<open>Well formed: a list, and no other node is allocated (nothing has leaked).\<close>

definition steque_wf :: "'a steque_state \<Rightarrow> bool" where
  "steque_wf st \<longleftrightarrow> (\<exists>as. steque_rep st as (steque_items st) \<and> dom (fst st) = set as)"

definition steque_nodes :: "'a steque_state \<Rightarrow> nat set" where
  "steque_nodes st = dom (fst st)"

named_theorems seg \<open>rewriting of list segments\<close>

lemma lseg_length: "lseg h p as xs q \<Longrightarrow> length as = length xs"
  by (induction h p as xs q rule: lseg.induct) auto

lemma lseg_upd [seg]: "a \<notin> set as \<Longrightarrow> lseg (h(a := v)) p as xs q = lseg h p as xs q"
  by (induction h p as xs q rule: lseg.induct) auto

lemma lseg_append [seg]:
  "length as = length xs \<Longrightarrow>
     lseg h p (as @ bs) (xs @ ys) q \<longleftrightarrow> (\<exists>r. lseg h p as xs r \<and> lseg h r bs ys q)"
  by (induction as xs arbitrary: p rule: list_induct2) auto

lemma lseg_dom: "lseg h p as xs q \<Longrightarrow> set as \<subseteq> dom h"
  by (induction h p as xs q rule: lseg.induct) auto

lemma lseg_None [seg]: "lseg h None as xs q \<longleftrightarrow> as = [] \<and> xs = [] \<and> q = None"
  by (cases "(h, None :: nat option, as, xs, q)" rule: lseg.cases) auto

lemma lseg_Nil [seg]: "lseg h p [] xs q \<longleftrightarrow> xs = [] \<and> p = q"
  by (cases xs) auto

lemma walk_lseg: "lseg h p as xs None \<Longrightarrow> walk h (length xs) p = xs"
  by (induction h p as xs "None :: nat option" rule: lseg.induct) auto

lemma steque_rep_items: "steque_rep st as xs \<Longrightarrow> steque_items st = xs"
  by (auto simp: steque_rep_def steque_items_def walk_lseg)

lemma steque_rep_wf: "steque_rep st as xs \<Longrightarrow> dom (fst st) = set as \<Longrightarrow> steque_wf st"
  by (auto simp: steque_wf_def dest: steque_rep_items)

lemma steque_wfE:
  assumes "steque_wf st"
  obtains as where "steque_rep st as (steque_items st)" and "dom (fst st) = set as"
  using assms by (auto simp: steque_wf_def)

lemma steque_rep_length: "steque_rep st as xs \<Longrightarrow> length as = length xs"
  by (auto simp: steque_rep_def dest: lseg_length)

lemma steque_rep_alloc: "steque_rep st as xs \<Longrightarrow> set as \<subseteq> steque_nodes st"
  by (auto simp: steque_rep_def steque_nodes_def dest: lseg_dom)

section \<open>Every operation does to the list what its comment says\<close>

lemma init_rep: "steque_rep (steque_init h) [] []"
  by (simp add: steque_init_def steque_rep_def INT_MAX_def)

lemma steque_rep_snoc:
  assumes "steque_rep (h, s) as xs" and "as \<noteq> []"
  obtains bs b ys y where "as = bs @ [b]" and "xs = ys @ [y]" and "length bs = length ys"
    and "lseg h (st_front s) bs ys (Some b)" and "h b = Some \<lparr>nd_item = y, nd_next = None\<rparr>"
proof -
  obtain bs b where as: "as = bs @ [b]" using assms(2) by (cases as rule: rev_cases) auto
  with steque_rep_length [OF assms(1)] obtain ys y where xs: "xs = ys @ [y]" "length bs = length ys"
    by (cases xs rule: rev_cases) auto
  with as assms(1) show thesis
    by (intro that [of bs b ys y]) (auto simp: steque_rep_def seg)
qed

lemma enqueue_rep:
  assumes rep: "steque_rep (h, s) as xs" and fresh: "h a = None" and room: "int (length xs) < INT_MAX"
  shows "\<exists>h' s'. steque_enqueue (Some a) x (h, s) = Ret (h', s') \<and>
    steque_rep (h', s') (as @ [a]) (xs @ [x]) \<and> dom h' = insert a (dom h)"
proof (cases "as = []")
  case True
  with rep room show ?thesis
    by (auto simp: steque_rep_def seg c_int_nonneg)
next
  case False
  then obtain bs b ys y where as: "as = bs @ [b]" "xs = ys @ [y]" "length bs = length ys"
      and b: "lseg h (st_front s) bs ys (Some b)" "h b = Some \<lparr>nd_item = y, nd_next = None\<rparr>"
    using steque_rep_snoc [OF rep] by blast
  have new: "a \<notin> set as" using steque_rep_alloc [OF rep] fresh by (auto simp: steque_nodes_def)
  have bk: "st_back s = Some b" "st_N s = int (length xs)" "distinct as"
    using rep as by (auto simp: steque_rep_def)
  let ?h = "h(a \<mapsto> \<lparr>nd_item = x, nd_next = None\<rparr>, b \<mapsto> \<lparr>nd_item = y, nd_next = Some a\<rparr>)"
  let ?s = "s\<lparr>st_back := Some a, st_N := c_int (st_N s + 1)\<rparr>"
  have "steque_enqueue (Some a) x (h, s) = Ret (?h, ?s)"
    using bk b new as by simp
  moreover have "steque_rep (?h, ?s) (as @ [a]) (xs @ [x])"
    using bk b new as room by (simp add: steque_rep_def seg c_int_nonneg)
  moreover have "dom ?h = insert a (dom h)" using b by auto
  ultimately show ?thesis by blast
qed

lemma push_rep:
  assumes "steque_rep (h, s) as xs" and "h a = None" and "int (length xs) < INT_MAX"
  shows "\<exists>h' s'. steque_push (Some a) x (h, s) = Ret (h', s') \<and>
    steque_rep (h', s') (a # as) (x # xs) \<and> dom h' = insert a (dom h)"
proof -
  have "a \<notin> set as" using steque_rep_alloc [OF assms(1)] assms(2) by (auto simp: steque_nodes_def)
  with assms show ?thesis
    by (auto simp: steque_rep_def seg c_int_nonneg)
qed

lemma pop_rep:
  assumes "steque_rep (h, s) (a # as) (x # xs)"
  shows "\<exists>h' s'. steque_pop fail (h, s) = Ret (x, (h', s')) \<and> steque_rep (h', s') as xs \<and>
    dom h' = dom h - {a}"
  using assms by (cases as; cases xs) (auto simp: steque_rep_def seg c_int_nonneg)

lemma pop_underflow: "steque_rep (h, s) [] [] \<Longrightarrow> steque_pop fail (h, s) = Exits fail"
  by (auto simp: steque_rep_def)

lemma front_rep:
  "steque_rep (h, s) as (x # xs) \<Longrightarrow> steque_front fail (h, s) = Ret x"
  by (cases as) (auto simp: steque_rep_def)

lemma front_underflow: "steque_rep (h, s) [] [] \<Longrightarrow> steque_front fail (h, s) = Exits fail"
  by (auto simp: steque_rep_def)

lemma isempty_rep: "steque_rep st as xs \<Longrightarrow> steque_isempty st = (if xs = [] then 1 else 0)"
  by (auto simp: steque_rep_def steque_isempty_def)

lemma size_rep: "steque_rep st as xs \<Longrightarrow> steque_size st = int (length xs)"
  by (auto simp: steque_rep_def steque_size_def)

lemma cycle_rep_Cons:
  assumes rep: "steque_rep (h, s) (a # as) (x # xs)"
  shows "\<exists>h' s'. steque_cycle (h, s) = Ret (h', s') \<and>
    steque_rep (h', s') (as @ [a]) (xs @ [x]) \<and> dom h' = dom h"
proof (cases "as = []")
  case True
  with rep show ?thesis by (auto simp: steque_rep_def seg)
next
  case False
  obtain cs b zs z where as: "a # as = cs @ [b]" "x # xs = zs @ [z]" "length cs = length zs"
      and b: "lseg h (st_front s) cs zs (Some b)" "h b = Some \<lparr>nd_item = z, nd_next = None\<rparr>"
    using steque_rep_snoc [OF rep] by blast
  from as False obtain bs ys where bs: "cs = a # bs" "as = bs @ [b]" "zs = x # ys" "xs = ys @ [z]"
    by (cases cs; cases zs) auto
  have s: "st_front s = Some a" "st_back s = Some b" "a \<notin> set bs" "b \<notin> set bs" "a \<noteq> b" "distinct bs"
    "st_N s = int (length ys) + 2" "int (length ys) + 2 \<le> INT_MAX"
    using rep bs by (auto simp: steque_rep_def)
  obtain n where a: "h a = Some \<lparr>nd_item = x, nd_next = n\<rparr>" "lseg h n bs ys (Some b)"
    using b(1) bs s(1) by auto
  let ?h = "h(b \<mapsto> \<lparr>nd_item = z, nd_next = Some a\<rparr>, a \<mapsto> \<lparr>nd_item = x, nd_next = None\<rparr>)"
  let ?s = "s\<lparr>st_back := Some a, st_front := n\<rparr>"
  have "steque_cycle (h, s) = Ret (?h, ?s)" using s a b by simp
  moreover have "steque_rep (?h, ?s) (as @ [a]) (xs @ [x])"
    using s a b bs as by (simp add: steque_rep_def seg)
  moreover have "dom ?h = dom h" using a b by auto
  ultimately show ?thesis by blast
qed

lemma cycle_rep_Nil: "steque_rep (h, s) [] [] \<Longrightarrow> steque_cycle (h, s) = Ret (h, s)"
  by (auto simp: steque_rep_def)

lemma destroy_rep:
  "steque_rep (h, s) as xs \<Longrightarrow>
     \<exists>h' s'. steque_destroy fail (h, s) = Some (Ret (h', s')) \<and> steque_rep (h', s') [] [] \<and>
       dom h' = dom h - set as"
proof (induction xs arbitrary: h s as)
  case Nil
  then have "as = []" using steque_rep_length by force
  with Nil show ?case by (subst steque_destroy.simps) (auto simp: isempty_rep)
next
  case (Cons x xs)
  then obtain a bs where as: "as = a # bs" using steque_rep_length by (cases as) force+
  from pop_rep [OF Cons.prems [unfolded as], of fail]
  obtain h1 s1 where 1: "steque_pop fail (h, s) = Ret (x, (h1, s1))"
      "steque_rep (h1, s1) bs xs" "dom h1 = dom h - {a}" by blast
  from Cons.IH [OF 1(2)] obtain h' s' where 2: "steque_destroy fail (h1, s1) = Some (Ret (h', s'))"
      "steque_rep (h', s') [] []" "dom h' = dom h1 - set bs" by blast
  have "steque_destroy fail (h, s) = Some (Ret (h', s'))"
    by (simp only: steque_destroy.simps [of fail "(h, s)"] isempty_rep [OF Cons.prems] 1(1) 2(1)
        outcome.case snd_conv list.distinct if_False zero_neq_one)
  moreover have "dom h' = dom h - set as" using 1(3) 2(3) as by auto
  ultimately show ?case using 2(2) by blast
qed

declare steque_enqueue.simps [simp del] steque_push.simps [simp del] steque_pop.simps [simp del]
  steque_cycle.simps [simp del] steque_front.simps [simp del]

section \<open>The contract of a work queue\<close>

text \<open>
  What the boss and worker threads rely on. \<open>nodes\<close> are the allocated addresses; malloc
  may return any other.
\<close>

locale work_queue =
  fixes enq :: "nat option \<Rightarrow> 'a \<Rightarrow> 'q \<Rightarrow> 'q outcome"
    and pop :: "'q \<Rightarrow> ('a \<times> 'q) outcome"
    and isempty :: "'q \<Rightarrow> int"
    and items :: "'q \<Rightarrow> 'a list"
    and wf :: "'q \<Rightarrow> bool"
    and nodes :: "'q \<Rightarrow> nat set"
  assumes enq_law: "wf q \<Longrightarrow> a \<notin> nodes q \<Longrightarrow> int (length (items q)) < INT_MAX \<Longrightarrow>
      \<exists>q'. enq (Some a) x q = Ret q' \<and> wf q' \<and> items q' = items q @ [x] \<and>
        nodes q' = insert a (nodes q)"
    and pop_law: "wf q \<Longrightarrow> items q = x # xs \<Longrightarrow>
      \<exists>q'. pop q = Ret (x, q') \<and> wf q' \<and> items q' = xs"
    and pop_empty_law: "wf q \<Longrightarrow> items q = [] \<Longrightarrow> \<exists>n. pop q = Exits n"
    and isempty_law: "wf q \<Longrightarrow> isempty q = (if items q = [] then 1 else 0)"
    and nodes_law: "wf q \<Longrightarrow> finite (nodes q) \<and> card (nodes q) = length (items q)"

text \<open>Any interleaving of enqueues and pops: what went in and what came out.\<close>

inductive queue_run ::
  "(nat option \<Rightarrow> 'a \<Rightarrow> 'q \<Rightarrow> 'q outcome) \<Rightarrow> ('q \<Rightarrow> ('a \<times> 'q) outcome) \<Rightarrow> ('q \<Rightarrow> nat set) \<Rightarrow>
   'q \<Rightarrow> 'a list \<Rightarrow> 'a list \<Rightarrow> 'q \<Rightarrow> bool" for enq pop nodes where
  run_nil: "queue_run enq pop nodes q [] [] q"
| run_enq: "a \<notin> nodes q \<Longrightarrow> enq (Some a) x q = Ret q1 \<Longrightarrow>
     queue_run enq pop nodes q1 ins outs q' \<Longrightarrow> queue_run enq pop nodes q (x # ins) outs q'"
| run_pop: "pop q = Ret (x, q1) \<Longrightarrow>
     queue_run enq pop nodes q1 ins outs q' \<Longrightarrow> queue_run enq pop nodes q ins (x # outs) q'"

context work_queue begin

lemma fresh_node: "wf q \<Longrightarrow> \<exists>a. a \<notin> nodes q"
  using nodes_law ex_new_if_finite [OF infinite_UNIV_nat] by blast

lemma enqE:
  assumes "wf q" and "a \<notin> nodes q" and "int (length (items q)) < INT_MAX"
    and "enq (Some a) x q = Ret q'"
  shows "wf q' \<and> items q' = items q @ [x]"
  using enq_law [OF assms(1-3), of x] assms(4) by auto

lemma popE:
  assumes "wf q" and "pop q = Ret (x, q')"
  shows "wf q' \<and> items q = x # items q'"
proof (cases "items q")
  case Nil
  with pop_empty_law [OF assms(1)] assms(2) show ?thesis by auto
next
  case (Cons y ys)
  with pop_law [OF assms(1) Cons] assms(2) show ?thesis by auto
qed

lemma run_fifo:
  "queue_run enq pop nodes q ins outs q' \<Longrightarrow> wf q \<Longrightarrow>
     int (length (items q) + length ins) \<le> INT_MAX \<Longrightarrow>
     wf q' \<and> outs @ items q' = items q @ ins"
proof (induction rule: queue_run.induct)
  case (run_enq a q x q1 ins outs q')
  have "wf q1 \<and> items q1 = items q @ [x]"
    using run_enq by (intro enqE) auto
  with run_enq show ?case by auto
next
  case (run_pop q x q1 ins outs q')
  have "wf q1 \<and> items q = x # items q1" using run_pop by (intro popE) auto
  with run_pop show ?case by auto
qed auto

end

lemma steque_enqueue_law:
  assumes "steque_wf q" and "a \<notin> steque_nodes q" and "int (length (steque_items q)) < INT_MAX"
  shows "\<exists>q'. steque_enqueue (Some a) x q = Ret q' \<and> steque_wf q' \<and>
    steque_items q' = steque_items q @ [x] \<and> steque_nodes q' = insert a (steque_nodes q)"
proof -
  obtain h s where q: "q = (h, s)" by (cases q)
  obtain as where rep: "steque_rep (h, s) as (steque_items (h, s))" and dom: "dom h = set as"
    using assms(1) q by (auto elim: steque_wfE)
  have "h a = None" using assms(2) q by (auto simp: steque_nodes_def)
  from enqueue_rep [OF rep this] assms(3) q
  obtain h' s' where 1: "steque_enqueue (Some a) x (h, s) = Ret (h', s')"
      "steque_rep (h', s') (as @ [a]) (steque_items (h, s) @ [x])" "dom h' = insert a (dom h)"
    by blast
  then have "steque_wf (h', s')" using dom by (intro steque_rep_wf) auto
  with 1 q show ?thesis by (auto simp: steque_nodes_def dest: steque_rep_items)
qed

lemma steque_pop_law:
  assumes "steque_wf q" and "steque_items q = x # xs"
  shows "\<exists>q'. steque_pop fail q = Ret (x, q') \<and> steque_wf q' \<and> steque_items q' = xs"
proof -
  obtain h s where q: "q = (h, s)" by (cases q)
  obtain as where rep: "steque_rep (h, s) as (x # xs)" and dom: "dom h = set as"
    using assms q by (auto elim: steque_wfE)
  then obtain a bs where as: "as = a # bs" "a \<notin> set bs"
    using steque_rep_length [OF rep] by (cases as) (auto simp: steque_rep_def)
  from pop_rep [OF rep [unfolded as(1)], of fail]
  obtain h' s' where 1: "steque_pop fail (h, s) = Ret (x, (h', s'))" "steque_rep (h', s') bs xs"
      "dom h' = dom h - {a}" by blast
  then have "steque_wf (h', s')" using dom as by (intro steque_rep_wf) auto
  with 1 q show ?thesis by (auto dest: steque_rep_items)
qed

lemma steque_pop_empty_law:
  assumes "steque_wf q" and "steque_items q = []"
  shows "steque_pop fail q = Exits fail"
proof -
  obtain h s where q: "q = (h, s)" by (cases q)
  obtain as where "steque_rep (h, s) as []" using assms q by (auto elim: steque_wfE)
  with q show ?thesis using steque_rep_length by (cases as) (force dest: pop_underflow)+
qed

lemma steque_nodes_law:
  assumes "steque_wf q"
  shows "finite (steque_nodes q) \<and> card (steque_nodes q) = length (steque_items q)"
  using assms by (auto elim!: steque_wfE simp: steque_nodes_def steque_rep_def
      distinct_card dest!: lseg_length)

lemma steque_isempty_law:
  "steque_wf q \<Longrightarrow> steque_isempty q = (if steque_items q = [] then 1 else 0)"
  by (auto elim!: steque_wfE simp: isempty_rep)

lemma steque_init_wf [simp]: "steque_wf (steque_init Map.empty)"
  by (rule steque_rep_wf [OF init_rep]) (simp add: steque_init_def)

lemma steque_init_items [simp]: "steque_items (steque_init h) = []"
  by (rule steque_rep_items [OF init_rep])

lemma steque_init_nodes [simp]: "steque_nodes (steque_init h) = dom h"
  by (simp add: steque_nodes_def steque_init_def)

interpretation sq: work_queue steque_enqueue "steque_pop fail" steque_isempty steque_items
  steque_wf steque_nodes
  by (unfold_locales, rule steque_enqueue_law, assumption+, rule steque_pop_law, assumption+,
      rule exI, rule steque_pop_empty_law, assumption+, rule steque_isempty_law, assumption,
      rule steque_nodes_law, assumption)

lemma steque_destroy_law:
  assumes "steque_wf st"
  shows "\<exists>st'. steque_destroy fail st = Some (Ret st') \<and> steque_items st' = [] \<and>
    steque_nodes st' = {} \<and> steque_wf st'"
proof -
  obtain h s where st: "st = (h, s)" by (cases st)
  obtain as where rep: "steque_rep (h, s) as (steque_items st)" and dom: "dom h = set as"
    using assms st by (auto elim: steque_wfE)
  from destroy_rep [OF rep, of fail] obtain h' s' where
      1: "steque_destroy fail (h, s) = Some (Ret (h', s'))" "steque_rep (h', s') [] []"
        "dom h' = dom h - set as" by blast
  then have "steque_wf (h', s')" using dom by (intro steque_rep_wf) auto
  with 1 dom st show ?thesis by (auto simp: steque_nodes_def dest: steque_rep_items)
qed

section \<open>Properties\<close>

text \<open>
  C29. First in, first out, exactly once: run any interleaving of enqueues and pops, with
  malloc returning any free address. What was popped, followed by what is still queued, is
  what was queued at the start followed by what was enqueued; the list stays well formed, so
  exactly its nodes are allocated.
\<close>

theorem steque_fifo:
  assumes "steque_wf q" and "int (length (steque_items q) + length ins) \<le> INT_MAX"
    and "queue_run steque_enqueue (steque_pop fail) steque_nodes q ins outs q'"
  shows "outs @ steque_items q' = steque_items q @ ins \<and> steque_wf q' \<and>
    card (steque_nodes q') = length (steque_items q')"
  using sq.run_fifo [OF assms(3,1,2)] sq.nodes_law by blast

theorem steque_fifo_witness:
  "\<exists>q' :: char steque_state. queue_run steque_enqueue (steque_pop 1) steque_nodes
     (steque_init Map.empty) [CHR ''a'', CHR ''b''] [CHR ''a''] q' \<and>
     [CHR ''a''] @ steque_items q' = [CHR ''a'', CHR ''b''] \<and>
     card (steque_nodes q') = length (steque_items q')"
proof -
  let ?q0 = "steque_init Map.empty :: char steque_state"
  obtain q1 where 1: "steque_enqueue (Some 0) (CHR ''a'') ?q0 = Ret q1" "steque_wf q1"
      "steque_items q1 = [CHR ''a'']" "steque_nodes q1 = {0}"
    using steque_enqueue_law [of ?q0 0 "CHR ''a''"]
    by (auto simp: INT_MAX_def)
  obtain q2 where 2: "steque_enqueue (Some 1) (CHR ''b'') q1 = Ret q2" "steque_wf q2"
      "steque_items q2 = [CHR ''a'', CHR ''b'']"
    using steque_enqueue_law [of q1 1 "CHR ''b''"] 1 by (auto simp: INT_MAX_def)
  obtain q3 where 3: "steque_pop 1 q2 = Ret (CHR ''a'', q3)"
    using steque_pop_law [OF 2(2,3)] by blast
  let ?run = "queue_run steque_enqueue (steque_pop 1) steque_nodes"
  have "?run q3 [] [] q3" by (rule run_nil)
  with 3 have "?run q2 [] [CHR ''a''] q3" by (rule run_pop)
  with 2(1) have "?run q1 [CHR ''b''] [CHR ''a''] q3"
    by (rule run_enq [where a = 1, rotated]) (simp add: 1(4))
  with 1(1) have run: "?run ?q0 [CHR ''a'', CHR ''b''] [CHR ''a''] q3"
    by (rule run_enq [where a = 0, rotated]) simp
  from steque_fifo [OF _ _ run] run show ?thesis
    by (intro exI [of _ q3]) (simp add: INT_MAX_def)
qed

text \<open>
  steque\_destroy returns, whatever the length of the list, and leaves an empty list
  with no node allocated.
\<close>

theorem steque_destroy_frees_all:
  assumes "steque_wf st"
  shows "\<exists>st'. steque_destroy fail st = Some (Ret st') \<and> steque_items st' = [] \<and>
    steque_nodes st' = {} \<and> steque_wf st'"
  using assms by (rule steque_destroy_law)

theorem steque_destroy_frees_all_witness:
  "\<exists>st'. steque_destroy 1 (steque_init Map.empty :: char steque_state) = Some (Ret st') \<and>
     steque_nodes st' = {}"
  using steque_destroy_frees_all [OF steque_init_wf] by blast

text \<open>
  steque\_cycle moves the front item to the back, on a list of any length (one node
  included, where front and back are the same node), and allocates and frees nothing.
\<close>

theorem steque_cycle_rotates:
  assumes "steque_wf st"
  shows "\<exists>st'. steque_cycle st = Ret st' \<and> steque_items st' = rotate1 (steque_items st) \<and>
    steque_nodes st' = steque_nodes st \<and> steque_wf st'"
proof -
  obtain h s where st: "st = (h, s)" by (cases st)
  obtain as where rep: "steque_rep (h, s) as (steque_items st)" and dom: "dom h = set as"
    using assms st by (auto elim: steque_wfE)
  show ?thesis
  proof (cases "steque_items st")
    case Nil
    with rep have "as = []" using steque_rep_length by force
    with rep Nil st assms show ?thesis by (auto dest: cycle_rep_Nil)
  next
    case (Cons x xs)
    with rep obtain a bs where as: "as = a # bs" using steque_rep_length by (cases as) force+
    from cycle_rep_Cons [OF rep [unfolded as Cons]] obtain h' s' where
        1: "steque_cycle (h, s) = Ret (h', s')" "steque_rep (h', s') (bs @ [a]) (xs @ [x])"
          "dom h' = dom h" by blast
    then have "steque_wf (h', s')" using dom as by (intro steque_rep_wf) auto
    with 1 Cons st show ?thesis by (auto simp: steque_nodes_def dest: steque_rep_items)
  qed
qed

theorem steque_cycle_rotates_witness:
  "\<exists>st'. steque_cycle (steque_init Map.empty :: char steque_state) = Ret st' \<and>
     steque_items st' = rotate1 []"
  using steque_cycle_rotates [OF steque_init_wf] by force

text \<open>
  push and pop are a stack: pop after push gives the pushed item and the list as it was.
\<close>

theorem steque_push_pop:
  assumes "steque_wf st" and "a \<notin> steque_nodes st" and "int (length (steque_items st)) < INT_MAX"
  shows "\<exists>st1 st2. steque_push (Some a) x st = Ret st1 \<and> steque_items st1 = x # steque_items st \<and>
    steque_pop fail st1 = Ret (x, st2) \<and> steque_items st2 = steque_items st \<and>
    steque_nodes st2 = steque_nodes st \<and> steque_wf st2"
proof -
  obtain h s where st: "st = (h, s)" by (cases st)
  obtain as where rep: "steque_rep (h, s) as (steque_items st)" and dom: "dom h = set as"
    using assms st by (auto elim: steque_wfE)
  have "h a = None" using assms(2) st by (auto simp: steque_nodes_def)
  from push_rep [OF rep this assms(3)] obtain h1 s1 where
      1: "steque_push (Some a) x (h, s) = Ret (h1, s1)"
        "steque_rep (h1, s1) (a # as) (x # steque_items st)" "dom h1 = insert a (dom h)" by blast
  from pop_rep [OF 1(2), of fail] obtain h2 s2 where
      2: "steque_pop fail (h1, s1) = Ret (x, (h2, s2))" "steque_rep (h2, s2) as (steque_items st)"
        "dom h2 = dom h1 - {a}" by blast
  have "dom h2 = dom h" using 1(3) 2(3) assms(2) st by (auto simp: steque_nodes_def)
  moreover from this dom have "steque_wf (h2, s2)" by (intro steque_rep_wf [OF 2(2)]) simp
  ultimately show ?thesis using 1 2 st dom
    by (intro exI [of "\<lambda>st1. \<exists>st2. _ st1 st2" "(h1, s1)"], intro exI [of _ "(h2, s2)"])
      (auto simp: steque_nodes_def dest: steque_rep_items)
qed

theorem steque_push_pop_witness:
  "\<exists>st1 st2. steque_push (Some 7) (CHR ''x'') (steque_init Map.empty) = Ret st1 \<and>
     steque_pop 1 st1 = Ret (CHR ''x'', st2) \<and> steque_items st2 = []"
proof -
  have "7 \<notin> steque_nodes (steque_init Map.empty :: char steque_state)"
    by simp
  from steque_push_pop [OF steque_init_wf this, of "CHR ''x''" 1]
  show ?thesis by (auto simp: INT_MAX_def)
qed

end
