(* ===== verification/Content.thy ===== *)
theory Content
  imports CStrings
begin

text \<open>
  The content libraries: multithreading/gflib/content.c, multithreading/mtgf/content.c and
  ipc/cache/simplecache.c. Each reads a listing of keys and paths, opens every path, sorts the
  table and finds a descriptor by binary search. The three copies differ in the length of a
  line, the exit code and the lseek of a hit; the shared text is modelled once, with these
  as arguments.
\<close>

section \<open>Library calls\<close>

text \<open>fgets of at most \<open>n - 1\<close> characters, up to and including a line end; None at the end.\<close>

definition fgets :: "nat \<Rightarrow> string \<Rightarrow> (string \<times> string) option" where
  "fgets n f =
     (if f = [] then None
      else (let l = length (takeWhile (\<lambda>c. c \<noteq> LF) f) + 1; k = min (n - 1) l
            in Some (take k f, drop k f)))"

lemma fgets_decreases: "fgets n f = Some (l, f') \<Longrightarrow> 2 \<le> n \<Longrightarrow> length f' < length f"
  by (auto simp: fgets_def Let_def split: if_splits)

lemma fgets_line:
  assumes "LF \<notin> set l" and "length l + 1 < n"
  shows "fgets n (l @ LF # f) = Some (l @ [LF], f)"
proof -
  have "takeWhile (\<lambda>c. c \<noteq> LF) (l @ LF # f) = l"
    using assms(1) by (intro takeWhile_append_stop) auto
  then show ?thesis using assms(2) by (simp add: fgets_def)
qed

lemma fgets_last:
  assumes "LF \<notin> set l" and "l \<noteq> []" and "length l < n"
  shows "fgets n l = Some (l, [])"
proof -
  have "takeWhile (\<lambda>c. c \<noteq> LF) l = l" using assms(1) by (subst takeWhile_eq_all_conv) auto
  moreover have "length l \<le> min (n - 1) (length l + 1)" using assms(3) by simp
  ultimately show ?thesis using assms(2) unfolding fgets_def Let_def by (simp only: if_False take_all drop_all)
qed

text \<open>item\_t: a descriptor and its key.\<close>

record item_t =
  fildes :: int
  key :: string

definition itemcmp :: "item_t \<Rightarrow> item_t \<Rightarrow> int" where
  "itemcmp a b = strcmp (key a) (key b)"

text \<open>qsort, as an insertion sort over the comparison function.\<close>

fun ins_by :: "('a \<Rightarrow> 'a \<Rightarrow> int) \<Rightarrow> 'a \<Rightarrow> 'a list \<Rightarrow> 'a list" where
  "ins_by cmp x [] = [x]"
| "ins_by cmp x (y # ys) = (if cmp x y \<le> 0 then x # y # ys else y # ins_by cmp x ys)"

fun qsort :: "('a \<Rightarrow> 'a \<Rightarrow> int) \<Rightarrow> 'a list \<Rightarrow> 'a list" where
  "qsort cmp [] = []"
| "qsort cmp (x # xs) = ins_by cmp x (qsort cmp xs)"

lemma mset_ins_by [simp]: "mset (ins_by cmp x xs) = add_mset x (mset xs)"
  by (induction xs) auto

lemma set_ins_by [simp]: "set (ins_by cmp x xs) = insert x (set xs)"
  by (induction xs) auto

lemma mset_qsort [simp]: "mset (qsort cmp xs) = mset xs"
  by (induction xs) auto

lemma length_qsort [simp]: "length (qsort cmp xs) = length xs"
  by (rule mset_eq_length) (rule mset_qsort)

lemma set_qsort [simp]: "set (qsort cmp xs) = set xs"
  by (rule mset_eq_setD) (rule mset_qsort)

lemma itemcmp_le_iff: "itemcmp a b \<le> 0 \<longleftrightarrow> codes (key a) \<le> codes (key b)"
  using strcmp_pos_iff [of "key a" "key b"] unfolding itemcmp_def by auto

abbreviation table_sorted :: "item_t list \<Rightarrow> bool" where
  "table_sorted xs \<equiv> sorted (map (\<lambda>i. codes (key i)) xs)"

lemma ins_by_sorted: "table_sorted xs \<Longrightarrow> table_sorted (ins_by itemcmp x xs)"
proof (induction xs)
  case (Cons y ys)
  then have y: "\<forall>z\<in>set ys. codes (key y) \<le> codes (key z)" "table_sorted ys" by simp_all
  show ?case
  proof (cases "itemcmp x y \<le> 0")
    case True
    then have "codes (key x) \<le> codes (key y)" by (simp add: itemcmp_le_iff)
    with y have "\<forall>z\<in>set ys. codes (key x) \<le> codes (key z)" by (meson order_trans)
    with True y show ?thesis by (simp add: itemcmp_le_iff)
  next
    case False
    then have "codes (key y) \<le> codes (key x)" by (simp add: itemcmp_le_iff)
    with False y Cons.IH [OF y(2)] show ?thesis by simp
  qed
qed simp

lemma qsort_sorted: "table_sorted (qsort itemcmp xs)"
  by (induction xs) (auto intro: ins_by_sorted)

section \<open>Loading the listing\<close>

text \<open>
  The loop over the lines. \<open>opn i p\<close> is the result of opening \<open>p\<close> as the \<open>i\<close>-th file,
  \<open>fail\<close> the exit code, \<open>cap\<close> the number of items for which there is memory.
\<close>

function load_loop ::
  "(nat \<Rightarrow> string \<Rightarrow> int) \<Rightarrow> nat \<Rightarrow> int \<Rightarrow> string \<Rightarrow> item_t list \<Rightarrow> nat \<Rightarrow> item_t list outcome" where
  "load_loop opn maxlen fail f its cap =
     (if maxlen < 2 then Blocks
      else if cap \<le> length its then Undef
      else (case fgets maxlen f of
              None \<Rightarrow> Ret its
            | Some (l, f') \<Rightarrow>
                (if cstr l = [] then Undef
                 else (let (k, ptr) = strsep (Some (butlast (cstr l))) [SP, TAB];
                           (path, _) = strsep ptr [SP, TAB]
                       in case path of
                            None \<Rightarrow> Exits fail
                          | Some p \<Rightarrow>
                              (let fd = opn (length its) p
                               in if fd < 0 then Exits fail
                                  else (let its' = its @ [\<lparr>fildes = fd, key = the k\<rparr>]
                                        in load_loop opn maxlen fail f' its'
                                             (if length its' = cap then 2 * cap else cap)))))))"
  by pat_completeness auto
termination
  by (relation "measure (\<lambda>(_, _, _, f, _, _). length f)") (auto dest: fgets_decreases)

declare load_loop.simps [simp del]

text \<open>
  The static variables of a library; None for memory that is not allocated. A copy of the
  library is described by its line length, exit code and whether a hit rewinds the file.
\<close>

record content =
  nitems :: int
  items :: "item_t list option"

record content_lib =
  max_keylen :: nat
  fail_code :: int
  rewinds :: bool

definition content_start :: content where
  "content_start = \<lparr>nitems = 0, items = None\<rparr>"

definition content_init_with ::
  "content_lib \<Rightarrow> (nat \<Rightarrow> string \<Rightarrow> int) \<Rightarrow> string option \<Rightarrow> content outcome" where
  "content_init_with lib opn file =
     (case file of
        None \<Rightarrow> Exits (fail_code lib)
      | Some f \<Rightarrow>
          bind_outcome (load_loop opn (max_keylen lib) (fail_code lib) f [] 16) (\<lambda>its.
            Ret \<lparr>nitems = int (length its), items = Some (qsort itemcmp its)\<rparr>))"

section \<open>Finding a key\<close>

function bsearch :: "item_t list option \<Rightarrow> string \<Rightarrow> int \<Rightarrow> int \<Rightarrow> int option outcome" where
  "bsearch its k lo hi =
     (if lo \<le> hi
      then (let mid = lo + (hi - lo) div 2
            in case its of None \<Rightarrow> Undef
               | Some xs \<Rightarrow>
                   if mid < 0 \<or> int (length xs) \<le> mid then Undef
                   else if strcmp k (key (xs ! nat mid)) < 0 then bsearch its k lo (mid - 1)
                   else if 0 < strcmp k (key (xs ! nat mid)) then bsearch its k (mid + 1) hi
                   else Ret (Some (fildes (xs ! nat mid))))
      else Ret None)"
  by pat_completeness auto
termination
  by (relation "measure (\<lambda>(_, _, lo, hi). nat (hi - lo + 1))") auto

declare bsearch.simps [simp del]

text \<open>The result of a get and the descriptor that lseek rewinds, if any.\<close>

definition content_get_with :: "content_lib \<Rightarrow> string \<Rightarrow> content \<Rightarrow> (int \<times> int option) outcome" where
  "content_get_with lib k st =
     bind_outcome (bsearch (items st) k 0 (nitems st - 1)) (\<lambda>hit.
       case hit of None \<Rightarrow> Ret (-1, None)
       | Some fd \<Rightarrow> Ret (fd, if rewinds lib then Some fd else None))"

text \<open>The descriptors closed, in order, and the state: the count is kept, the memory is gone.\<close>

definition content_destroy :: "content \<Rightarrow> (int list \<times> content) outcome" where
  "content_destroy st =
     (case items st of
        None \<Rightarrow> if 0 < nitems st then Undef else Ret ([], st)
      | Some xs \<Rightarrow> Ret (map fildes xs, st\<lparr>items := None\<rparr>))"

text \<open>The three copies.\<close>

definition gf_content :: content_lib where
  "gf_content = \<lparr>max_keylen = 256, fail_code = EXIT_FAILURE, rewinds = True\<rparr>"

definition mt_content :: content_lib where
  "mt_content = \<lparr>max_keylen = 256, fail_code = EXIT_FAILURE, rewinds = False\<rparr>"

definition simplecache :: content_lib where
  "simplecache = \<lparr>max_keylen = 1024, fail_code = -1, rewinds = True\<rparr>"

lemmas content_lib_defs = gf_content_def mt_content_def simplecache_def

definition content_init :: "(nat \<Rightarrow> string \<Rightarrow> int) \<Rightarrow> string option \<Rightarrow> content outcome" where
  "content_init = content_init_with gf_content"

definition content_get :: "string \<Rightarrow> content \<Rightarrow> (int \<times> int option) outcome" where
  "content_get = content_get_with gf_content"

definition mt_content_init :: "(nat \<Rightarrow> string \<Rightarrow> int) \<Rightarrow> string option \<Rightarrow> content outcome" where
  "mt_content_init = content_init_with mt_content"

definition mt_content_get :: "string \<Rightarrow> content \<Rightarrow> (int \<times> int option) outcome" where
  "mt_content_get = content_get_with mt_content"

definition mt_content_destroy :: "content \<Rightarrow> (int list \<times> content) outcome" where
  "mt_content_destroy = content_destroy"

definition simplecache_init :: "(nat \<Rightarrow> string \<Rightarrow> int) \<Rightarrow> string option \<Rightarrow> content outcome" where
  "simplecache_init = content_init_with simplecache"

definition simplecache_get :: "string \<Rightarrow> content \<Rightarrow> (int \<times> int option) outcome" where
  "simplecache_get = content_get_with simplecache"

definition simplecache_destroy :: "content \<Rightarrow> (int list \<times> content) outcome" where
  "simplecache_destroy = content_destroy"

section \<open>The search is right\<close>

lemma bsearch_correct:
  assumes "table_sorted xs" and "0 \<le> lo" and "hi < int (length xs)"
  shows "\<exists>r. bsearch (Some xs) k lo hi = Ret r \<and>
    (case r of
       None \<Rightarrow> \<forall>i. lo \<le> int i \<and> int i \<le> hi \<longrightarrow> key (xs ! i) \<noteq> k
     | Some fd \<Rightarrow> \<exists>i < length xs. key (xs ! i) = k \<and> fildes (xs ! i) = fd)"
  using assms
proof (induction "Some xs" k lo hi rule: bsearch.induct)
  case (1 k lo hi)
  show ?case
  proof (cases "lo \<le> hi")
    case False
    then show ?thesis by (subst bsearch.simps) auto
  next
    case True
    define mid where "mid = lo + (hi - lo) div 2"
    have mid: "lo \<le> mid" "mid \<le> hi" "0 \<le> mid" "mid < int (length xs)"
      using True "1.prems" by (auto simp: mid_def)
    have step: "bsearch (Some xs) k lo hi =
        (if strcmp k (key (xs ! nat mid)) < 0 then bsearch (Some xs) k lo (mid - 1)
         else if 0 < strcmp k (key (xs ! nat mid)) then bsearch (Some xs) k (mid + 1) hi
         else Ret (Some (fildes (xs ! nat mid))))"
      using True mid by (subst bsearch.simps) (simp add: mid_def [symmetric] Let_def)
    have le: "codes (key (xs ! i)) \<le> codes (key (xs ! j))" if "i \<le> j" "j < length xs" for i j
      using "1.prems"(1) that sorted_nth_mono [of "map (\<lambda>i. codes (key i)) xs" i j] by simp
    consider "strcmp k (key (xs ! nat mid)) < 0" | "0 < strcmp k (key (xs ! nat mid))"
      | "strcmp k (key (xs ! nat mid)) = 0" by linarith
    then show ?thesis
    proof cases
      case 1
      have "key (xs ! i) \<noteq> k" if "mid \<le> int i" "int i \<le> hi" for i
        using 1 le [of "nat mid" i] that mid "1.prems"(3) unfolding strcmp_neg_iff
        by (auto simp: not_less [symmetric])
      with 1 step "1.hyps"(1) [OF True mid_def refl] mid "1.prems" show ?thesis
        by (auto split: option.splits) (metis linorder_not_less zle_diff1_eq)
    next
      case 2
      have "key (xs ! i) \<noteq> k" if "lo \<le> int i" "int i \<le> mid" for i
        using 2 le [of i "nat mid"] that mid unfolding strcmp_pos_iff
        by (auto simp: not_less [symmetric])
      with 2 step "1.hyps"(2) [OF True mid_def refl] mid "1.prems" show ?thesis
        by (auto split: option.splits) (metis linorder_not_less zless_imp_add1_zle)
    next
      case 3
      with step mid show ?thesis by (auto intro!: exI [of _ "nat mid"])
    qed
  qed
qed

section \<open>Loading is right\<close>

text \<open>
  A listing of rows. A row is in order for lines of \<open>maxlen\<close> when its key and path have no
  separator and its line fits.
\<close>

definition listing :: "(string \<times> string) list \<Rightarrow> string" where
  "listing rows = concat (map (\<lambda>(k, p). k @ SP # p @ [LF]) rows)"

definition row_ok :: "nat \<Rightarrow> string \<times> string \<Rightarrow> bool" where
  "row_ok maxlen r \<longleftrightarrow>
     (\<forall>c\<in>set (fst r @ snd r). c \<noteq> SP \<and> c \<noteq> TAB \<and> c \<noteq> LF \<and> c \<noteq> NUL) \<and>
     length (fst r) + length (snd r) + 2 < maxlen"

fun loaded :: "(nat \<Rightarrow> string \<Rightarrow> int) \<Rightarrow> nat \<Rightarrow> (string \<times> string) list \<Rightarrow> item_t list" where
  "loaded opn i [] = []"
| "loaded opn i ((k, p) # rows) = \<lparr>fildes = opn i p, key = k\<rparr> # loaded opn (Suc i) rows"

fun opens_all :: "(nat \<Rightarrow> string \<Rightarrow> int) \<Rightarrow> nat \<Rightarrow> (string \<times> string) list \<Rightarrow> bool" where
  "opens_all opn i [] = True"
| "opens_all opn i ((k, p) # rows) = (0 \<le> opn i p \<and> opens_all opn (Suc i) rows)"

abbreviation fd_table :: "(nat \<Rightarrow> string \<Rightarrow> int) \<Rightarrow> (string \<times> string) list \<Rightarrow> string \<Rightarrow> int option" where
  "fd_table opn rows \<equiv> map_of (map (\<lambda>it. (key it, fildes it)) (loaded opn 0 rows))"

lemma length_loaded [simp]: "length (loaded opn i rows) = length rows"
  by (induction rows arbitrary: i) auto

lemma keys_loaded [simp]: "map key (loaded opn i rows) = map fst rows"
  by (induction rows arbitrary: i) auto

lemma loaded_nth:
  "j < length rows \<Longrightarrow> loaded opn i rows ! j = \<lparr>fildes = opn (i + j) (snd (rows ! j)), key = fst (rows ! j)\<rparr>"
  by (induction rows arbitrary: i j) (auto simp: nth_Cons split: nat.splits)

lemma opens_all_fildes: "opens_all opn i rows \<Longrightarrow> it \<in> set (loaded opn i rows) \<Longrightarrow> 0 \<le> fildes it"
  by (induction rows arbitrary: i) auto

lemma strsep_row:
  assumes "\<forall>c\<in>set (k @ p). c \<noteq> SP \<and> c \<noteq> TAB \<and> c \<noteq> LF \<and> c \<noteq> NUL"
  shows "strsep (Some (k @ SP # p)) [SP, TAB] = (Some k, Some p)"
    and "strsep (Some p) [SP, TAB] = (Some p, None)"
proof -
  have k: "\<forall>c\<in>set k. c \<notin> set [SP, TAB]" and p: "\<forall>c\<in>set p. c \<notin> set [SP, TAB]" using assms by auto
  show "strsep (Some (k @ SP # p)) [SP, TAB] = (Some k, Some p)" by (rule strsep_token [OF k]) simp
  show "strsep (Some p) [SP, TAB] = (Some p, None)" by (rule strsep_last [OF p])
qed

lemma load_loop_row:
  assumes "row_ok maxlen (k, p)" and "0 \<le> opn (length its) p" and "length its < cap" and "2 \<le> maxlen"
  shows "load_loop opn maxlen fail (k @ SP # p @ LF # f) its cap =
    load_loop opn maxlen fail f (its @ [\<lparr>fildes = opn (length its) p, key = k\<rparr>])
      (if length its + 1 = cap then 2 * cap else cap)"
proof -
  have ok: "\<forall>c\<in>set (k @ p). c \<noteq> SP \<and> c \<noteq> TAB \<and> c \<noteq> LF \<and> c \<noteq> NUL"
    using assms(1) by (simp add: row_ok_def)
  define l where "l = k @ SP # p"
  have f: "k @ SP # p @ LF # f = l @ LF # f" by (simp add: l_def)
  have "fgets maxlen (l @ LF # f) = Some (l @ [LF], f)"
    using assms(1) by (intro fgets_line) (auto simp: row_ok_def l_def)
  moreover have "NUL \<notin> set (l @ [LF])" using ok by (auto simp: l_def)
  then have "cstr (l @ [LF]) = l @ [LF]" by (rule cstr_NUL_free)
  moreover have "strsep (Some l) [SP, TAB] = (Some k, Some p)"
    unfolding l_def by (rule strsep_row [OF ok])
  moreover have "strsep (Some p) [SP, TAB] = (Some p, None)" by (rule strsep_row [OF ok])
  ultimately show ?thesis using assms(2-4) unfolding f
    by (subst load_loop.simps) (simp del: strsep.simps)
qed

lemma load_loop_rows:
  assumes "\<forall>r\<in>set rows. row_ok maxlen r" and "opens_all opn (length its) rows" and "length its < cap"
    and "2 \<le> maxlen"
  shows "\<exists>cap'. length its + length rows < cap' \<and>
    (\<forall>f. load_loop opn maxlen fail (listing rows @ f) its cap =
      load_loop opn maxlen fail f (its @ loaded opn (length its) rows) cap')"
  using assms
proof (induction rows arbitrary: its cap)
  case Nil
  then show ?case by (auto simp: listing_def)
next
  case (Cons r rows)
  obtain k p where r: "r = (k, p)" by (cases r)
  let ?its = "its @ [\<lparr>fildes = opn (length its) p, key = k\<rparr>]"
  let ?cap = "if length its + 1 = cap then 2 * cap else cap"
  have "load_loop opn maxlen fail (listing (r # rows) @ f) its cap =
      load_loop opn maxlen fail (listing rows @ f) ?its ?cap" for f
    using load_loop_row [of maxlen k p opn its cap fail "listing rows @ f"] Cons.prems r
    by (simp add: listing_def)
  moreover have "opens_all opn (length ?its) rows" "length ?its < ?cap"
    using Cons.prems r by auto
  ultimately show ?case using Cons.IH [of ?its ?cap] Cons.prems r by auto
qed

lemma load_loop_end: "length its < cap \<Longrightarrow> 2 \<le> maxlen \<Longrightarrow> load_loop opn maxlen fail [] its cap = Ret its"
  by (subst load_loop.simps) (simp add: fgets_def)

lemma content_init_rows:
  assumes "\<forall>r\<in>set rows. row_ok (max_keylen lib) r" and "opens_all opn 0 rows" and "2 \<le> max_keylen lib"
  shows "content_init_with lib opn (Some (listing rows)) =
    Ret \<lparr>nitems = int (length rows), items = Some (qsort itemcmp (loaded opn 0 rows))\<rparr>"
  using load_loop_rows [of rows "max_keylen lib" opn "[]" 16 "fail_code lib"]
    load_loop_end assms by (auto simp: content_init_with_def dest!: spec [of _ "[]"])

text \<open>A get on a sorted table answers for the map of its entries.\<close>

lemma content_get_table:
  assumes "table_sorted xs"
  shows "\<exists>fd rw. content_get_with lib k \<lparr>nitems = int (length xs), items = Some xs\<rparr> = Ret (fd, rw) \<and>
    (if k \<in> key ` set xs then \<exists>it\<in>set xs. key it = k \<and> fd = fildes it else fd = -1)"
proof -
  obtain r where r: "bsearch (Some xs) k 0 (int (length xs) - 1) = Ret r"
      "case r of None \<Rightarrow> \<forall>i. 0 \<le> int i \<and> int i \<le> int (length xs) - 1 \<longrightarrow> key (xs ! i) \<noteq> k
       | Some fd \<Rightarrow> \<exists>i < length xs. key (xs ! i) = k \<and> fildes (xs ! i) = fd"
    using bsearch_correct [OF assms, of 0 "int (length xs) - 1" k] by auto
  show ?thesis
  proof (cases r)
    case None
    with r have "k \<notin> key ` set xs" by (auto simp: in_set_conv_nth)
    with None r show ?thesis by (simp add: content_get_with_def)
  next
    case (Some fd)
    with r have "\<exists>it\<in>set xs. key it = k \<and> fd = fildes it" by auto
    moreover from this have "k \<in> key ` set xs" by auto
    ultimately show ?thesis using Some r by (simp add: content_get_with_def)
  qed
qed

lemma content_get_rows:
  assumes "\<forall>r\<in>set rows. row_ok (max_keylen lib) r" and "opens_all opn 0 rows" and "2 \<le> max_keylen lib"
    and "distinct (map fst rows)" and "content_init_with lib opn (Some (listing rows)) = Ret st"
  shows "\<exists>rw. content_get_with lib k st =
    Ret (case fd_table opn rows k of None \<Rightarrow> -1 | Some fd \<Rightarrow> fd, rw)"
proof -
  let ?xs = "loaded opn 0 rows"
  have st: "st = \<lparr>nitems = int (length (qsort itemcmp ?xs)), items = Some (qsort itemcmp ?xs)\<rparr>"
    using content_init_rows [OF assms(1-3)] assms(5) by simp
  obtain fd rw where get: "content_get_with lib k st = Ret (fd, rw)"
      and fd: "if k \<in> key ` set ?xs then \<exists>it\<in>set ?xs. key it = k \<and> fd = fildes it else fd = -1"
    using content_get_table [OF qsort_sorted, of lib k ?xs] unfolding st set_qsort by blast
  have dist: "distinct (map fst (map (\<lambda>it. (key it, fildes it)) ?xs))"
    using assms(4) by (simp add: comp_def)
  show ?thesis
  proof (cases "fd_table opn rows k")
    case None
    then have "k \<notin> key ` set ?xs" by (auto simp: map_of_eq_None_iff image_image)
    with None fd get show ?thesis by simp
  next
    case (Some v)
    from map_of_SomeD [OF this] have "k \<in> key ` set ?xs" by auto
    with fd obtain it where it: "it \<in> set ?xs" "key it = k" "fd = fildes it" by auto
    then have "fd_table opn rows k = Some fd" by (intro map_of_is_SomeI [OF dist]) auto
    with get show ?thesis by simp
  qed
qed

section \<open>Any listing\<close>

lemma load_loop_safe:
  assumes "NUL \<notin> set f" and "length its < cap" and "2 \<le> maxlen"
  shows "returns (load_loop opn maxlen fail f its cap) \<or> load_loop opn maxlen fail f its cap = Exits fail"
  using assms
proof (induction opn maxlen fail f its cap rule: load_loop.induct)
  case (1 opn maxlen fail f its cap)
  show ?case
  proof (cases "fgets maxlen f")
    case None
    with "1.prems" show ?thesis by (subst load_loop.simps) simp
  next
    case (Some x)
    obtain l f' where x: "x = (l, f')" by (cases x)
    have f: "f \<noteq> []" "f = l @ f'" "l \<noteq> []" using Some x "1.prems"(3)
      by (auto simp: fgets_def Let_def split: if_splits)
    then have nul: "NUL \<notin> set l" "NUL \<notin> set f'" using "1.prems"(1) by auto
    then have l: "cstr l \<noteq> []" using f by simp
    obtain k ptr path rest where s: "strsep (Some (butlast (cstr l))) [SP, TAB] = (k, ptr)"
      "strsep ptr [SP, TAB] = (path, rest)" by (metis surj_pair)
    show ?thesis
    proof (cases path)
      case None
      with Some x l s "1.prems" show ?thesis by (subst (1 2) load_loop.simps) (simp del: strsep.simps)
    next
      case p: (Some p)
      show ?thesis
      proof (cases "opn (length its) p < 0")
        case True
        with Some x l s p "1.prems" show ?thesis
          by (subst (1 2) load_loop.simps) (simp del: strsep.simps)
      next
        case False
        let ?its = "its @ [\<lparr>fildes = opn (length its) p, key = the k\<rparr>]"
        have "returns (load_loop opn maxlen fail f' ?its (if length ?its = cap then 2 * cap else cap)) \<or>
            load_loop opn maxlen fail f' ?its (if length ?its = cap then 2 * cap else cap) = Exits fail"
          using "1.IH" [OF _ _ Some x [symmetric] l refl s(1) [symmetric] refl s(2) [symmetric] p refl False refl]
            "1.prems" nul by auto
        with Some x l s p False "1.prems" show ?thesis
          by (subst (1 2) load_loop.simps) (simp del: strsep.simps)
      qed
    qed
  qed
qed

text \<open>The last line without its line end loses the last character of the path.\<close>

lemma load_loop_last:
  assumes "row_ok maxlen (k, p @ [c])" and "length its < cap" and "2 \<le> maxlen"
  shows "load_loop opn maxlen fail (k @ SP # p @ [c]) its cap =
    load_loop opn maxlen fail (k @ SP # p @ [LF]) its cap"
proof -
  have ok: "\<forall>c\<in>set (k @ p). c \<noteq> SP \<and> c \<noteq> TAB \<and> c \<noteq> LF \<and> c \<noteq> NUL"
    "c \<noteq> LF" "c \<noteq> NUL" using assms(1) by (simp_all add: row_ok_def)
  define l where "l = k @ SP # p"
  have f: "k @ SP # p @ [d] = l @ [d]" for d by (simp add: l_def)
  have len: "length l + 1 < maxlen" using assms(1) by (simp add: row_ok_def l_def)
  have lf: "LF \<notin> set l" "NUL \<notin> set l" using ok by (auto simp: l_def)
  have 1: "fgets maxlen (l @ [LF]) = Some (l @ [LF], [])" using lf len by (intro fgets_line) auto
  have 2: "fgets maxlen (l @ [c]) = Some (l @ [c], [])" using lf len ok by (intro fgets_last) auto
  have 3: "cstr (l @ [LF]) = l @ [LF]" "cstr (l @ [c]) = l @ [c]"
    using lf ok by (intro cstr_NUL_free, simp)+
  show ?thesis unfolding f
    by (subst (1 2) load_loop.simps) (simp add: 1 2 3 del: strsep.simps)
qed

section \<open>The interface\<close>

text \<open>
  What the servers rely on: a listing whose files all open is loaded, and a get then answers
  with the descriptor of the key's row, or with -1.
\<close>

locale content_store =
  fixes init :: "(nat \<Rightarrow> string \<Rightarrow> int) \<Rightarrow> string option \<Rightarrow> 'st outcome"
    and get :: "string \<Rightarrow> 'st \<Rightarrow> (int \<times> int option) outcome"
    and maxlen :: nat
  assumes init_law: "\<forall>r\<in>set rows. row_ok maxlen r \<Longrightarrow> opens_all opn 0 rows \<Longrightarrow>
      returns (init opn (Some (listing rows)))"
    and get_law: "\<forall>r\<in>set rows. row_ok maxlen r \<Longrightarrow> opens_all opn 0 rows \<Longrightarrow>
      distinct (map fst rows) \<Longrightarrow> init opn (Some (listing rows)) = Ret st \<Longrightarrow>
      \<exists>rw. get k st = Ret (case fd_table opn rows k of None \<Rightarrow> -1 | Some fd \<Rightarrow> fd, rw)"
begin

lemma get_row:
  assumes "\<forall>r\<in>set rows. row_ok maxlen r" and "opens_all opn 0 rows"
    and "distinct (map fst rows)" and "init opn (Some (listing rows)) = Ret st" and "i < length rows"
  shows "\<exists>rw. get (fst (rows ! i)) st = Ret (opn i (snd (rows ! i)), rw)"
proof -
  have "loaded opn 0 rows ! i \<in> set (loaded opn 0 rows)" using assms(5) by simp
  then have "(fst (rows ! i), opn i (snd (rows ! i))) \<in> set (map (\<lambda>it. (key it, fildes it)) (loaded opn 0 rows))"
    using loaded_nth [OF assms(5), of opn 0] by force
  moreover have "distinct (map fst (map (\<lambda>it. (key it, fildes it)) (loaded opn 0 rows)))"
    using assms(3) by (simp add: comp_def)
  ultimately have "fd_table opn rows (fst (rows ! i)) = Some (opn i (snd (rows ! i)))"
    by (intro map_of_is_SomeI)
  with get_law [OF assms(1-4), of "fst (rows ! i)"] show ?thesis by simp
qed

lemma get_unknown:
  assumes "\<forall>r\<in>set rows. row_ok maxlen r" and "opens_all opn 0 rows"
    and "distinct (map fst rows)" and "init opn (Some (listing rows)) = Ret st" and "k \<notin> fst ` set rows"
  shows "\<exists>rw. get k st = Ret (-1, rw)"
proof -
  have "set (map fst rows) = set (map key (loaded opn 0 rows))" by simp
  with assms(5) have "k \<notin> key ` set (loaded opn 0 rows)" by (simp del: keys_loaded)
  then have "fd_table opn rows k = None" by (auto simp: map_of_eq_None_iff)
  with get_law [OF assms(1-4), of k] show ?thesis by simp
qed

lemma lookup:
  assumes "\<forall>r\<in>set rows. row_ok maxlen r" and "opens_all opn 0 rows" and "distinct (map fst rows)"
  obtains st where "init opn (Some (listing rows)) = Ret st"
    and "\<And>i. i < length rows \<Longrightarrow> \<exists>rw. get (fst (rows ! i)) st = Ret (opn i (snd (rows ! i)), rw)"
    and "\<And>k. k \<notin> fst ` set rows \<Longrightarrow> \<exists>rw. get k st = Ret (-1, rw)"
  using init_law [OF assms(1,2)] get_row [OF assms] get_unknown [OF assms] by blast

end

interpretation gfc: content_store content_init content_get 256
proof
  fix rows opn
  assume "\<forall>r\<in>set rows. row_ok 256 r" "opens_all opn 0 rows"
  then show "returns (content_init opn (Some (listing rows)))"
    by (simp add: content_init_def content_init_rows gf_content_def)
next
  fix rows opn st k
  assume "\<forall>r\<in>set rows. row_ok 256 r" "opens_all opn 0 rows" "distinct (map fst rows)"
    "content_init opn (Some (listing rows)) = Ret st"
  then show "\<exists>rw. content_get k st = Ret (case fd_table opn rows k of None \<Rightarrow> -1 | Some fd \<Rightarrow> fd, rw)"
    unfolding content_init_def content_get_def
    by (intro content_get_rows) (simp_all add: gf_content_def)
qed

interpretation mtc: content_store mt_content_init mt_content_get 256
proof
  fix rows opn
  assume "\<forall>r\<in>set rows. row_ok 256 r" "opens_all opn 0 rows"
  then show "returns (mt_content_init opn (Some (listing rows)))"
    by (simp add: mt_content_init_def content_init_rows mt_content_def)
next
  fix rows opn st k
  assume "\<forall>r\<in>set rows. row_ok 256 r" "opens_all opn 0 rows" "distinct (map fst rows)"
    "mt_content_init opn (Some (listing rows)) = Ret st"
  then show "\<exists>rw. mt_content_get k st = Ret (case fd_table opn rows k of None \<Rightarrow> -1 | Some fd \<Rightarrow> fd, rw)"
    unfolding mt_content_init_def mt_content_get_def
    by (intro content_get_rows) (simp_all add: mt_content_def)
qed

interpretation sc: content_store simplecache_init simplecache_get 1024
proof
  fix rows opn
  assume "\<forall>r\<in>set rows. row_ok 1024 r" "opens_all opn 0 rows"
  then show "returns (simplecache_init opn (Some (listing rows)))"
    by (simp add: simplecache_init_def content_init_rows simplecache_def)
next
  fix rows opn st k
  assume "\<forall>r\<in>set rows. row_ok 1024 r" "opens_all opn 0 rows" "distinct (map fst rows)"
    "simplecache_init opn (Some (listing rows)) = Ret st"
  then show "\<exists>rw. simplecache_get k st = Ret (case fd_table opn rows k of None \<Rightarrow> -1 | Some fd \<Rightarrow> fd, rw)"
    unfolding simplecache_init_def simplecache_get_def
    by (intro content_get_rows) (simp_all add: simplecache_def)
qed

section \<open>Properties\<close>

text \<open>
  C31. content\_init and content\_get keep their promise: after a listing with distinct keys
  has been loaded, content\_get returns for the key of every row the descriptor that was
  opened for the row's path, and -1 for every other key.
\<close>

theorem content_lookup:
  assumes "\<forall>r\<in>set rows. row_ok 256 r" and "opens_all opn 0 rows" and "distinct (map fst rows)"
  shows "\<exists>st. content_init opn (Some (listing rows)) = Ret st \<and>
    (\<forall>i < length rows. \<exists>rw. content_get (fst (rows ! i)) st = Ret (opn i (snd (rows ! i)), rw)) \<and>
    (\<forall>k. k \<notin> fst ` set rows \<longrightarrow> (\<exists>rw. content_get k st = Ret (-1, rw)))"
  using gfc.lookup [OF assms] by metis

theorem content_lookup_witness:
  "\<exists>st rw rw'. content_init (\<lambda>i p. int i + 3) (Some (listing [(''/b'', ''y''), (''/a'', ''x'')])) = Ret st \<and>
     content_get ''/a'' st = Ret (4, rw) \<and> content_get ''/c'' st = Ret (-1, rw')"
  using content_lookup [of "[(''/b'', ''y''), (''/a'', ''x'')]" "\<lambda>i p. int i + 3"]
  by (auto simp: row_ok_def less_Suc_eq)

text \<open>
  simplecache\_init and simplecache\_get keep the same promise for lines of 1024.
\<close>

theorem simplecache_lookup:
  assumes "\<forall>r\<in>set rows. row_ok 1024 r" and "opens_all opn 0 rows" and "distinct (map fst rows)"
  shows "\<exists>st. simplecache_init opn (Some (listing rows)) = Ret st \<and>
    (\<forall>i < length rows. \<exists>rw. simplecache_get (fst (rows ! i)) st = Ret (opn i (snd (rows ! i)), rw)) \<and>
    (\<forall>k. k \<notin> fst ` set rows \<longrightarrow> (\<exists>rw. simplecache_get k st = Ret (-1, rw)))"
  using sc.lookup [OF assms] by metis

theorem simplecache_lookup_witness:
  "\<exists>st rw. simplecache_init (\<lambda>i p. int i + 3) (Some (listing [(''/b'', ''y''), (''/a'', ''x'')])) = Ret st \<and>
     simplecache_get ''/a'' st = Ret (4, rw)"
  using simplecache_lookup [of "[(''/b'', ''y''), (''/a'', ''x'')]" "\<lambda>i p. int i + 3"]
  by (auto simp: row_ok_def less_Suc_eq)



text \<open>
  content\_init takes the last character of a line for its line end. In a listing whose
  last line has none, the path of that line loses its last character: the table is the one
  of the shorter path.
\<close>

theorem content_init_last_line:
  assumes "\<forall>r\<in>set rows. row_ok 256 r" and "opens_all opn 0 rows" and "row_ok 256 (k, p @ [c])"
  shows "content_init opn (Some (listing rows @ k @ SP # p @ [c])) =
    content_init opn (Some (listing (rows @ [(k, p)])))"
proof -
  obtain cap where cap: "length rows < cap"
    and go: "\<And>f. load_loop opn 256 EXIT_FAILURE (listing rows @ f) [] 16 =
      load_loop opn 256 EXIT_FAILURE f (loaded opn 0 rows) cap"
    using load_loop_rows [OF assms(1), of opn "[]" 16 EXIT_FAILURE] assms(2) by auto
  have "listing (rows @ [(k, p)]) = listing rows @ k @ SP # p @ [LF]" by (simp add: listing_def)
  with go load_loop_last [OF assms(3), of "loaded opn 0 rows" cap opn EXIT_FAILURE] cap
  show ?thesis by (simp add: content_init_def content_init_with_def gf_content_def)
qed

theorem content_init_last_line_witness:
  "content_init (\<lambda>i p. 3) (Some (listing [(''a'', ''x'')] @ ''b'' @ SP # ''y.tx'' @ ''t'')) =
     content_init (\<lambda>i p. 3) (Some (listing [(''a'', ''x''), (''b'', ''y.tx'')]))"
  using content_init_last_line [of "[(''a'', ''x'')]" "\<lambda>i p. 3" "''b''" "''y.tx''" "CHR ''t''"]
  by (simp add: row_ok_def)

end
