(* ===== verification/GFClient.thy ===== *)
theory GFClient
  imports Network
begin

text \<open>
  multithreading/gflib/gfclient.c: the Getfile client library. The request object with its
  setters and getters, the parse of the first piece of the response and the receive loop of
  gfc\_perform.
\<close>

section \<open>The request object\<close>

text \<open>gfstatus\_t of gfclient.h.\<close>

datatype gfstatus = GF_OK | GF_FILE_NOT_FOUND | GF_ERROR | GF_INVALID

text \<open>struct gfcrequest\_t. A callback or an argument pointer is a number, None is NULL.\<close>

record gfcrequest =
  gr_port :: int
  gr_path :: string
  gr_server :: string
  gr_write_arg :: "nat option"
  gr_write_func :: "nat option"
  gr_header_arg :: "nat option"
  gr_header_func :: "nat option"
  gr_status :: gfstatus
  gr_file_length :: int
  gr_bytes_received :: int

text \<open>\<open>junk\<close> is the memory malloc returns: gfc\_create initialises three of its fields.\<close>

definition gfc_create :: "gfcrequest \<Rightarrow> gfcrequest" where
  "gfc_create junk =
     junk\<lparr>gr_file_length := 0, gr_bytes_received := 0, gr_status := GF_INVALID\<rparr>"

text \<open>gfc\_cleanup frees the object and clears the caller's handle.\<close>

definition gfc_cleanup :: "gfcrequest option \<Rightarrow> gfcrequest option" where
  "gfc_cleanup gfr = None"

definition gfc_get_bytesreceived :: "gfcrequest \<Rightarrow> int" where
  "gfc_get_bytesreceived r = gr_bytes_received r"

definition gfc_get_filelen :: "gfcrequest \<Rightarrow> int" where
  "gfc_get_filelen r = gr_file_length r"

definition gfc_get_status :: "gfcrequest \<Rightarrow> gfstatus" where
  "gfc_get_status r = gr_status r"

definition gfc_set_server :: "string \<Rightarrow> gfcrequest \<Rightarrow> gfcrequest" where
  "gfc_set_server server r = r\<lparr>gr_server := server\<rparr>"

definition gfc_set_port :: "int \<Rightarrow> gfcrequest \<Rightarrow> gfcrequest" where
  "gfc_set_port port r = r\<lparr>gr_port := c_ushort port\<rparr>"

definition gfc_set_path :: "string \<Rightarrow> gfcrequest \<Rightarrow> gfcrequest" where
  "gfc_set_path path r = r\<lparr>gr_path := path\<rparr>"

definition gfc_set_headerarg :: "nat option \<Rightarrow> gfcrequest \<Rightarrow> gfcrequest" where
  "gfc_set_headerarg a r = r\<lparr>gr_header_arg := a\<rparr>"

definition gfc_set_headerfunc :: "nat option \<Rightarrow> gfcrequest \<Rightarrow> gfcrequest" where
  "gfc_set_headerfunc f r = r\<lparr>gr_header_func := f\<rparr>"

definition gfc_set_writearg :: "nat option \<Rightarrow> gfcrequest \<Rightarrow> gfcrequest" where
  "gfc_set_writearg a r = r\<lparr>gr_write_arg := a\<rparr>"

definition gfc_set_writefunc :: "nat option \<Rightarrow> gfcrequest \<Rightarrow> gfcrequest" where
  "gfc_set_writefunc f r = r\<lparr>gr_write_func := f\<rparr>"

fun gfc_strstatus :: "gfstatus \<Rightarrow> string" where
  "gfc_strstatus GF_ERROR = ''ERROR''"
| "gfc_strstatus GF_OK = ''OK''"
| "gfc_strstatus GF_INVALID = ''INVALID''"
| "gfc_strstatus GF_FILE_NOT_FOUND = ''FILE_NOT_FOUND''"

section \<open>gfc\_perform\<close>

text \<open>BUFSIZE of gf-student.h, and the size of the request buffer.\<close>

definition BUFSIZE :: nat where "BUFSIZE = 10240"
definition MSGSIZE :: nat where "MSGSIZE = 100"

text \<open>What the system calls of one gfc\_perform return.\<close>

record client_env =
  env_gai :: int
  env_addrs :: "addrinfo list"
  env_send :: int
  env_rx :: net

text \<open>A call of the write callback: the function, the data, the registered argument.\<close>

type_synonym write_call = "nat \<times> char list \<times> nat option"

text \<open>The loop over the addresses; an address that does not connect leaves GF\_ERROR.\<close>

fun gfc_connect :: "addrinfo list \<Rightarrow> gfcrequest \<Rightarrow> int option \<times> gfcrequest" where
  "gfc_connect [] r = (None, r)"
| "gfc_connect (p # ps) r =
     (if ai_socket p = -1 then gfc_connect ps r
      else if ai_connect p = -1 then gfc_connect ps (r\<lparr>gr_status := GF_ERROR\<rparr>)
      else (Some (ai_socket p), r))"

definition gfc_request :: "string \<Rightarrow> string" where
  "gfc_request path = ''GETFILE GET '' @ path @ CRLFCRLF"

text \<open>A receive buffer: the data that recv stored, then the zeros of the memset.\<close>

definition rx_buffer :: "char list \<Rightarrow> char list" where
  "rx_buffer d = d @ replicate (BUFSIZE - length d) NUL"

text \<open>The status line is not OK: cut it at the line end and compare the three other names.\<close>

definition gfc_not_ok :: "gfcrequest \<Rightarrow> char list \<Rightarrow> nat \<Rightarrow> (int \<times> gfcrequest) outcome" where
  "gfc_not_ok r buf st =
     bind_outcome (strtok buf st CRLFCRLF) (\<lambda>(b, _, _).
       (let status = cstr (drop st b);
            r1 = (if status = ''FILE_NOT_FOUND'' then r\<lparr>gr_status := GF_FILE_NOT_FOUND\<rparr> else r);
            r2 = (if status = ''ERROR'' then r1\<lparr>gr_status := GF_ERROR\<rparr> else r1)
        in if status = ''INVALID'' then Ret (-1, r2\<lparr>gr_status := GF_INVALID\<rparr>)
           else if gr_status r2 = GF_INVALID then Ret (-1, r2)
           else Ret (0, r2)))"

text \<open>The first piece of the response either ends the call or yields the first content.\<close>

datatype first_step = Stop int gfcrequest | Go gfcrequest int "char list option"

text \<open>The length and the content that follow \<open>OK\<close>; \<open>n\<close> is the number of bytes received.\<close>

definition gfc_ok ::
  "gfcrequest \<Rightarrow> int \<Rightarrow> char list \<Rightarrow> nat \<Rightarrow> nat \<Rightarrow> nat \<Rightarrow> first_step outcome" where
  "gfc_ok r n buf sc st saved =
     bind_outcome (strtok buf saved CRLFCRLF) (\<lambda>(b1, len, saved1).
       case len of None \<Rightarrow> Undef
       | Some l \<Rightarrow>
           (let r1 = r\<lparr>gr_status := GF_OK\<rparr>;
                lens = cstr (drop l b1);
                r2 = (if gr_file_length r1 = 0
                      then (case scan_zu lens of None \<Rightarrow> r1 | Some v \<Rightarrow> r1\<lparr>gr_file_length := v\<rparr>)
                      else r1)
            in bind_outcome (strtok b1 saved1 [LF, CR, LF]) (\<lambda>(b2, content, _).
                 (let response_size = c_int (n - int (length (cstr (drop sc b2)))
                        - int (length (cstr (drop st b2))) - int (length lens) - 6);
                      data_remained = c_int (gr_file_length r2 - response_size);
                      r3 = r2\<lparr>gr_bytes_received := c_size response_size\<rparr>
                  in if 0 < response_size
                     then (case content of None \<Rightarrow> Undef
                           | Some c \<Rightarrow>
                               if c + nat response_size \<le> length b2
                               then Ret (Go r3 data_remained
                                          (Some (take (nat response_size) (drop c b2))))
                               else Undef)
                     else Ret (Go r3 data_remained None)))))"

definition gfc_first :: "gfcrequest \<Rightarrow> int \<Rightarrow> char list \<Rightarrow> first_step outcome" where
  "gfc_first r n d =
     bind_outcome (strtok (rx_buffer d) 0 [SP]) (\<lambda>(b1, scheme, p1).
     bind_outcome (strtok b1 p1 [SP]) (\<lambda>(b2, status, p2).
       case scheme of None \<Rightarrow> Undef
       | Some sc \<Rightarrow>
           if cstr (drop sc b2) \<noteq> ''GETFILE'' then Ret (Stop (-1) (r\<lparr>gr_status := GF_INVALID\<rparr>))
           else (case status of None \<Rightarrow> Undef
                 | Some st \<Rightarrow>
                     if cstr (drop st b2) = ''OK'' then gfc_ok r n b2 sc st p2
                     else bind_outcome (gfc_not_ok r b2 st) (\<lambda>(rc, r'). Ret (Stop rc r')))))"

definition write_call_of :: "gfcrequest \<Rightarrow> char list \<Rightarrow> write_call outcome" where
  "write_call_of r d =
     (case gr_write_func r of None \<Rightarrow> Undef | Some f \<Rightarrow> Ret (f, d, gr_write_arg r))"

text \<open>
  The receive loop. \<open>rem\<close> is data\_remained, \<open>fst0\<close> says that no piece has been seen yet,
  \<open>out\<close> are the calls of the write callback so far.
\<close>

function gfc_loop ::
  "net \<Rightarrow> int \<Rightarrow> bool \<Rightarrow> gfcrequest \<Rightarrow> write_call list \<Rightarrow>
   (int \<times> gfcrequest \<times> write_call list) outcome" where
  "gfc_loop net rem fst0 r out =
     (if rem = 0 then Ret (if gr_status r = GF_INVALID then -1 else 0, r, out)
      else (case recv BUFSIZE net of
              Ret (n, d, net') \<Rightarrow>
                if n = 0 then Ret (-1, r\<lparr>gr_bytes_received := 0\<rparr>, out)
                else if fst0 then
                  (case gfc_first r n d of
                     Ret (Stop rc r') \<Rightarrow> Ret (rc, r', out)
                   | Ret (Go r' rem' None) \<Rightarrow> gfc_loop net' rem' False r' out
                   | Ret (Go r' rem' (Some c)) \<Rightarrow>
                       (case write_call_of r' c of
                          Ret w \<Rightarrow> gfc_loop net' rem' False r' (out @ [w])
                        | _ \<Rightarrow> Undef)
                   | Exits k \<Rightarrow> Exits k
                   | Undef \<Rightarrow> Undef
                   | Blocks \<Rightarrow> Blocks)
                else if n < 0 then Undef
                else (case write_call_of r d of
                        Ret w \<Rightarrow>
                          gfc_loop net' (c_int (rem - n)) False
                            (r\<lparr>gr_bytes_received := c_size (gr_bytes_received r + n)\<rparr>) (out @ [w])
                      | _ \<Rightarrow> Undef)
            | Exits k \<Rightarrow> Exits k
            | Undef \<Rightarrow> Undef
            | Blocks \<Rightarrow> Blocks))"
  by pat_completeness auto
termination
  by (relation "measure (\<lambda>(net, _). net_size net)")
    (auto simp: BUFSIZE_def dest!: recv_decreases)

declare gfc_loop.simps [simp del]

definition gfc_perform ::
  "client_env \<Rightarrow> gfcrequest \<Rightarrow> (int \<times> gfcrequest \<times> write_call list) outcome" where
  "gfc_perform env r =
     (if env_gai env \<noteq> 0 then Exits 1
      else (case gfc_connect (env_addrs env) r of
              (None, r1) \<Rightarrow> Ret (2, r1, [])
            | (Some _, r1) \<Rightarrow>
                if MSGSIZE < length (gfc_request (gr_path r1)) + 1 then Undef
                else (let r2 = (if env_send env = -1 then r1\<lparr>gr_status := GF_ERROR\<rparr> else r1)
                      in gfc_loop (env_rx env) 100 True r2 [])))"

section \<open>Reading a response that starts with an OK header\<close>

abbreviation ok_header :: "nat \<Rightarrow> string" where
  "ok_header n \<equiv> ''GETFILE OK '' @ show_nat n @ CRLFCRLF"

text \<open>
  Content that the tokenizer leaves alone: it does not start with NUL and has no line end
  before its first NUL.
\<close>

definition clean :: "char list \<Rightarrow> bool" where
  "clean c \<longleftrightarrow> c = [] \<or> hd c \<noteq> NUL \<and> CR \<notin> set (cstr c) \<and> LF \<notin> set (cstr c)"

lemma cstr_split: "NUL \<in> set c \<Longrightarrow> \<exists>r. c = cstr c @ NUL # r"
  unfolding cstr_def by (induction c) auto

lemma strtok_content:
  assumes "clean c"
  shows "\<exists>q. strtok (pre @ [LF, CR, LF] @ c @ NUL # z) (length pre) [LF, CR, LF] =
    Ret (pre @ [LF, CR, LF] @ c @ NUL # z, if c = [] then None else Some (length pre + 3), q)"
proof -
  let ?pre = "pre @ [LF, CR, LF]"
  have skip: "strtok (pre @ [LF, CR, LF] @ c @ NUL # z) (length pre) [LF, CR, LF] =
      strtok (?pre @ c @ NUL # z) (length ?pre) [LF, CR, LF]"
    using strtok_skip [of "[LF, CR, LF]" "[LF, CR, LF]" "length pre" pre "c @ NUL # z"] by simp
  show ?thesis
  proof (cases "c = []")
    case True
    with skip show ?thesis using strtok_none [of "[LF, CR, LF]" "length ?pre" ?pre z] by simp
  next
    case False
    have tok: "cstr c \<noteq> []" "\<forall>x\<in>set (cstr c). x \<notin> set [LF, CR, LF] \<and> x \<noteq> NUL"
      using assms False NUL_notin_cstr [of c] by (auto simp: clean_def cstr_def takeWhile_eq_Nil_iff)
    obtain r where "c @ NUL # z = cstr c @ NUL # r"
    proof (cases "NUL \<in> set c")
      case True
      then obtain r where "c = cstr c @ NUL # r" using cstr_split by blast
      then have "c @ NUL # z = cstr c @ NUL # (r @ NUL # z)" by (metis append_Cons append_assoc)
      then show thesis by (rule that)
    next
      case False
      then show thesis by (intro that [of z]) simp
    qed
    with strtok_last_token [OF tok, of "length ?pre" ?pre r] skip False
    show ?thesis by simp
  qed
qed

lemma strtok_status_line:
  assumes "w \<noteq> []" and "\<forall>x\<in>set w. x \<noteq> SP \<and> x \<noteq> NUL"
  shows "strtok (''GETFILE '' @ w @ SP # rest) 0 [SP] = Ret (''GETFILE'' @ NUL # w @ SP # rest, Some 0, 8)"
    and "strtok (''GETFILE'' @ NUL # w @ SP # rest) 8 [SP] =
      Ret (''GETFILE'' @ NUL # w @ NUL # rest, Some 8, 9 + length w)"
  using strtok_token [of "''GETFILE''" "[SP]" SP 0 "[]" "w @ SP # rest"]
    strtok_token [of w "[SP]" SP 8 "''GETFILE'' @ [NUL]" rest] assms
  by simp_all

lemma strtok_length_field:
  "strtok (''GETFILE'' @ NUL # ''OK'' @ NUL # show_nat n @ CRLFCRLF @ rest) 11 CRLFCRLF =
     Ret (''GETFILE'' @ NUL # ''OK'' @ NUL # show_nat n @ NUL # [LF, CR, LF] @ rest,
          Some 11, 12 + length (show_nat n))"
proof -
  have "\<forall>c\<in>set (show_nat n). c \<notin> set CRLFCRLF \<and> c \<noteq> NUL"
    by (auto dest: show_nat_digits isdigit_not_special)
  from strtok_token [OF show_nat_nonempty this, of CR 11 "''GETFILE'' @ NUL # ''OK'' @ [NUL]"
      "[LF, CR, LF] @ rest"]
  show ?thesis by simp
qed

lemma NUL_notin_show_nat [simp]: "NUL \<notin> set (show_nat n)"
  by (auto dest: show_nat_digits isdigit_not_special)

lemma ok_header_length: "length (ok_header n) = 15 + length (show_nat n)"
  by simp

text \<open>The buffer after the length has been cut off, with content \<open>c\<close> and free space after it.\<close>

definition cut_buffer :: "nat \<Rightarrow> char list \<Rightarrow> char list \<Rightarrow> char list" where
  "cut_buffer n c z =
     (''GETFILE'' @ NUL # ''OK'' @ NUL # show_nat n @ [NUL]) @ [LF, CR, LF] @ c @ NUL # z"

lemma cut_buffer_parts:
  shows "cstr (cut_buffer n c z) = ''GETFILE''" and "cstr (drop 8 (cut_buffer n c z)) = ''OK''"
    and "cstr (drop 11 (cut_buffer n c z)) = show_nat n"
    and "drop (15 + length (show_nat n)) (cut_buffer n c z) = c @ NUL # z"
    and "length (cut_buffer n c z) = 16 + length (show_nat n) + length c + length z"
  by (simp_all add: cut_buffer_def) (simp add: numeral_eq_Suc)

lemma gfc_ok_step:
  assumes tok: "strtok (cut_buffer n c z) (12 + length (show_nat n)) [LF, CR, LF] =
      Ret (cut_buffer n c' z, if c = [] then None else Some (15 + length (show_nat n)), q)"
    and same: "length c' = length c" and n: "n < 2 ^ 31" and fl: "gr_file_length r = 0"
    and len: "length c < 2 ^ 31"
  shows "gfc_ok r (int (length (ok_header n @ c)))
      (''GETFILE'' @ NUL # ''OK'' @ NUL # show_nat n @ CRLFCRLF @ c @ NUL # z) 0 8 11 =
    Ret (Go (r\<lparr>gr_status := GF_OK, gr_file_length := int n, gr_bytes_received := int (length c)\<rparr>)
          (c_int (int n - int (length c))) (if c = [] then None else Some c'))"
proof -
  define A where "A = ''GETFILE'' @ NUL # ''OK'' @ NUL # show_nat n @ CRLFCRLF @ c @ NUL # z"
  have 1: "strtok A 11 CRLFCRLF = Ret (cut_buffer n c z, Some 11, 12 + length (show_nat n))"
    unfolding A_def cut_buffer_def
    using strtok_length_field [of n "c @ NUL # z"] by simp
  have "n < 2 ^ 64" using n by (rule order.strict_trans) simp
  then show ?thesis
    unfolding A_def [symmetric] using 1 tok same fl len
    by (simp add: gfc_ok_def cut_buffer_parts c_size_of_nat c_int_of_nat Let_def)
qed

lemma gfc_ok_content:
  assumes c: "clean c" and "n < 2 ^ 31" and "gr_file_length r = 0" and "length c < 2 ^ 31"
  shows "gfc_ok r (int (length (ok_header n @ c)))
      (''GETFILE'' @ NUL # ''OK'' @ NUL # show_nat n @ CRLFCRLF @ c @ NUL # z) 0 8 11 =
    Ret (Go (r\<lparr>gr_status := GF_OK, gr_file_length := int n, gr_bytes_received := int (length c)\<rparr>)
          (c_int (int n - int (length c))) (if c = [] then None else Some c))"
proof -
  let ?pre = "''GETFILE'' @ NUL # ''OK'' @ NUL # show_nat n @ [NUL]"
  have pre: "length ?pre = 12 + length (show_nat n)" by simp
  obtain q where "strtok (cut_buffer n c z) (12 + length (show_nat n)) [LF, CR, LF] =
      Ret (cut_buffer n c z, if c = [] then None else Some (15 + length (show_nat n)), q)"
    using strtok_content [OF c, of ?pre z] unfolding cut_buffer_def [symmetric] pre by auto
  from gfc_ok_step [OF this refl assms(2-4)] show ?thesis .
qed

lemma rx_buffer_room:
  "length d < BUFSIZE \<Longrightarrow> \<exists>z. rx_buffer d = d @ NUL # z"
  unfolding rx_buffer_def by (cases "BUFSIZE - length d") auto

lemma gfc_first_ok:
  assumes c: "clean c" and n: "n < 2 ^ 31" and fl: "gr_file_length r = 0"
    and room: "length (ok_header n @ c) < BUFSIZE"
  shows "gfc_first r (int (length (ok_header n @ c))) (ok_header n @ c) =
    Ret (Go (r\<lparr>gr_status := GF_OK, gr_file_length := int n, gr_bytes_received := int (length c)\<rparr>)
          (c_int (int n - int (length c))) (if c = [] then None else Some c))"
proof -
  obtain z where "rx_buffer (ok_header n @ c) = (ok_header n @ c) @ NUL # z"
    using rx_buffer_room [OF room] by blast
  then have buf: "rx_buffer (ok_header n @ c) =
      ''GETFILE '' @ ''OK'' @ SP # show_nat n @ CRLFCRLF @ c @ NUL # z" by simp
  define A where "A = show_nat n @ CRLFCRLF @ c @ NUL # z"
  have "length c < 2 ^ 31" using room by (simp add: BUFSIZE_def)
  note ok = gfc_ok_content [OF c n fl this, of z, folded A_def]
  have s1: "strtok (''GETFILE '' @ ''OK'' @ SP # A) 0 [SP] =
      Ret (''GETFILE'' @ NUL # ''OK'' @ SP # A, Some 0, 8)"
    by (rule strtok_status_line) auto
  have s2: "strtok (''GETFILE'' @ NUL # ''OK'' @ SP # A) 8 [SP] =
      Ret (''GETFILE'' @ NUL # ''OK'' @ NUL # A, Some 8, 11)"
    using strtok_status_line(2) [of "''OK''" A] by simp
  have "gfc_first r (int (length (ok_header n @ c))) (ok_header n @ c) =
      gfc_ok r (int (length (ok_header n @ c))) (''GETFILE'' @ NUL # ''OK'' @ NUL # A) 0 8 11"
    unfolding gfc_first_def buf A_def [symmetric] s1 bind_outcome.simps prod.case s2
    by simp
  with ok show ?thesis by simp
qed

lemma BUFSIZE_pos: "0 < BUFSIZE" by (simp add: BUFSIZE_def)

text \<open>
  After the first piece the loop writes what arrives, as long as the stream lasts and less
  than the length has come.
\<close>

lemma gfc_loop_stream:
  assumes "stream net" and "length (net_data net) = m" and "m + k < 2 ^ 31"
    and "gr_write_func r = Some f"
  shows "\<exists>ws. gfc_loop (net @ net2) (int (m + k)) False r out =
      gfc_loop net2 (int k) False
        (r\<lparr>gr_bytes_received := (if net = [] then gr_bytes_received r
             else c_size (gr_bytes_received r + int m))\<rparr>) (out @ ws) \<and>
    concat (map (\<lambda>(_, d, _). d) ws) = net_data net \<and>
    (\<forall>w\<in>set ws. fst w = f \<and> snd (snd w) = gr_write_arg r)"
  using assms
proof (induction "net_size net" arbitrary: net m r out rule: less_induct)
  case less
  show ?case
  proof (cases "net = []")
    case True
    with less.prems show ?thesis by (intro exI [of _ "[]"]) simp
  next
    case False
    then obtain d net' where rv: "recv BUFSIZE (net @ net2) = Ret (int (length d), d, net' @ net2)"
        and d: "d \<noteq> []" and st: "stream net'" and data: "net_data net = d @ net_data net'"
        and size: "net_size net' < net_size net"
      using recv_stream_append [OF less.prems(1) BUFSIZE_pos False] by blast
    define m' where "m' = length (net_data net')"
    have m: "m = length d + m'" using less.prems(2) data m'_def by simp
    define r' where "r' = r\<lparr>gr_bytes_received := c_size (gr_bytes_received r + int (length d))\<rparr>"
    from less.hyps [OF size st, of m' r' "out @ [(f, d, gr_write_arg r)]"] less.prems m
    obtain ws where ws: "gfc_loop (net' @ net2) (int (m' + k)) False r' (out @ [(f, d, gr_write_arg r)]) =
        gfc_loop net2 (int k) False
          (r'\<lparr>gr_bytes_received := (if net' = [] then gr_bytes_received r'
             else c_size (gr_bytes_received r' + int m'))\<rparr>) ((out @ [(f, d, gr_write_arg r)]) @ ws)"
      and ws_data: "concat (map (\<lambda>(_, d, _). d) ws) = net_data net'"
      and ws_cb: "\<forall>w\<in>set ws. fst w = f \<and> snd (snd w) = gr_write_arg r"
      by (auto simp: m'_def r'_def)
    have "int (m + k) \<noteq> 0" using m d by (cases d) auto
    moreover have "c_int (int (m + k) - int (length d)) = int (m' + k)"
      using m less.prems c_int_of_nat [of "m' + k"] by auto
    ultimately have "gfc_loop (net @ net2) (int (m + k)) False r out =
        gfc_loop (net' @ net2) (int (m' + k)) False r' (out @ [(f, d, gr_write_arg r)])"
      using rv d less.prems(4) by (subst gfc_loop.simps) (simp add: write_call_of_def r'_def)
    moreover have "(if net' = [] then gr_bytes_received r' else c_size (gr_bytes_received r' + int m')) =
        c_size (gr_bytes_received r + int m)"
      using st m by (auto simp: r'_def m'_def c_size_def mod_simps algebra_simps)
    ultimately show ?thesis using ws ws_data ws_cb data False
      by (intro exI [of _ "(f, d, gr_write_arg r) # ws"]) (simp add: r'_def)
  qed
qed

lemma gfc_loop_done: "gr_status r \<noteq> GF_INVALID \<Longrightarrow> gfc_loop net 0 b r out = Ret (0, r, out)"
  by (subst gfc_loop.simps) simp

lemma gfc_loop_closed:
  "k \<noteq> 0 \<Longrightarrow> gfc_loop (RData [] # net2) k b r out = Ret (-1, r\<lparr>gr_bytes_received := 0\<rparr>, out)"
  by (subst gfc_loop.simps) simp

text \<open>Connecting changes nothing but the status.\<close>

lemma gfc_connect_frame:
  "gfc_connect ps r = (x, r') \<Longrightarrow> r' = r\<lparr>gr_status := gr_status r'\<rparr>"
proof (induction ps r rule: gfc_connect.induct)
  case (2 p ps r)
  then show ?case by (auto split: if_splits)
qed simp

lemma gfc_connect_loop: "fst (gfc_connect ps r) = connect_loop ps"
  by (induction ps r rule: gfc_connect.induct) auto

lemma gfc_connectE:
  assumes "connect_loop ps = Some fd"
  obtains st where "gfc_connect ps r = (Some fd, r\<lparr>gr_status := st\<rparr>)"
proof -
  obtain x r' where g: "gfc_connect ps r = (x, r')" by (cases "gfc_connect ps r")
  with assms gfc_connect_loop [of ps r] have "x = Some fd" by simp
  with g gfc_connect_frame [OF g] show thesis by (metis that)
qed

lemma gfc_perform_connected:
  assumes "env_gai env = 0" and "connect_loop (env_addrs env) = Some fd"
    and "length (gr_path r) \<le> 83"
  obtains st where "gfc_perform env r = gfc_loop (env_rx env) 100 True (r\<lparr>gr_status := st\<rparr>) []"
proof -
  obtain st where "gfc_connect (env_addrs env) r = (Some fd, r\<lparr>gr_status := st\<rparr>)"
    using gfc_connectE [OF assms(2)] by blast
  with assms(1,3) have "gfc_perform env r = gfc_loop (env_rx env) 100 True
      (r\<lparr>gr_status := (if env_send env = -1 then GF_ERROR else st)\<rparr>) []"
    by (simp add: gfc_perform_def gfc_request_def MSGSIZE_def)
  then show thesis by (rule that)
qed

text \<open>The first receive delivers the piece \<open>d\<close>.\<close>

lemma gfc_loop_first:
  assumes "length d \<le> BUFSIZE" and "d \<noteq> []"
  shows "gfc_loop (RData d # net) 100 True r [] =
    (case gfc_first r (int (length d)) d of
       Ret (Stop rc r') \<Rightarrow> Ret (rc, r', [])
     | Ret (Go r' rem' None) \<Rightarrow> gfc_loop net rem' False r' []
     | Ret (Go r' rem' (Some c)) \<Rightarrow>
         (case write_call_of r' c of Ret w \<Rightarrow> gfc_loop net rem' False r' [w] | _ \<Rightarrow> Undef)
     | Exits k \<Rightarrow> Exits k | Undef \<Rightarrow> Undef | Blocks \<Rightarrow> Blocks)"
  using assms by (subst gfc_loop.simps)
    (auto split: outcome.splits first_step.splits option.splits)

text \<open>A first piece with an OK header and clean content, then the loop over the rest.\<close>

lemma gfc_loop_ok:
  assumes "clean c" and "n < 2 ^ 31" and "gr_file_length r = 0" and "gr_write_func r = Some f"
    and "length (ok_header n @ c) < BUFSIZE" and "length c + m = n"
  shows "gfc_loop (RData (ok_header n @ c) # net) 100 True r [] =
    gfc_loop net (int m) False
      (r\<lparr>gr_status := GF_OK, gr_file_length := int n, gr_bytes_received := int (length c)\<rparr>)
      (if c = [] then [] else [(f, c, gr_write_arg r)])"
proof -
  define d where "d = ok_header n @ c"
  have d: "length d \<le> BUFSIZE" "d \<noteq> []" using assms(5) by (simp_all add: d_def)
  have "c_int (int n - int (length c)) = int m" using assms(2,6) by (auto simp: c_int_of_nat)
  with gfc_loop_first [OF d, of net r] gfc_first_ok [OF assms(1-3,5)] assms(4)
  show ?thesis unfolding d_def [symmetric] by (simp add: write_call_of_def)
qed

text \<open>A complete response whose header comes with the first piece.\<close>

lemma gfc_perform_ok_response:
  assumes "env_gai env = 0" and "connect_loop (env_addrs env) = Some fd"
    and "length (gr_path r) \<le> 83" and "gr_file_length r = 0" and "gr_write_func r = Some f"
    and "env_rx env = RData (ok_header n @ c) # rest" and "clean c"
    and "length (ok_header n @ c) < BUFSIZE" and "stream rest"
    and "length (c @ net_data rest) = n" and "n < 2 ^ 31"
  shows "\<exists>r' ws. gfc_perform env r = Ret (0, r', ws) \<and> gfc_get_status r' = GF_OK \<and>
    gfc_get_filelen r' = int n \<and> gfc_get_bytesreceived r' = int n \<and>
    concat (map (\<lambda>(_, d, _). d) ws) = c @ net_data rest \<and>
    (\<forall>w\<in>set ws. fst w = f \<and> snd (snd w) = gr_write_arg r)"
proof -
  define m where "m = length (net_data rest)"
  have n: "length c + m = n" using assms(10) by (simp add: m_def)
  obtain st where p: "gfc_perform env r = gfc_loop (env_rx env) 100 True (r\<lparr>gr_status := st\<rparr>) []"
    using gfc_perform_connected [OF assms(1-3)] by blast
  let ?r = "r\<lparr>gr_status := GF_OK, gr_file_length := int n, gr_bytes_received := int (length c)\<rparr>"
  let ?out = "if c = [] then [] else [(f, c, gr_write_arg r)]"
  have "gfc_perform env r = gfc_loop rest (int m) False ?r ?out"
    using gfc_loop_ok [OF assms(7,11), of "r\<lparr>gr_status := st\<rparr>" f m rest] assms(4-6,8) n p by simp
  moreover obtain ws where
    "gfc_loop rest (int m) False ?r ?out = gfc_loop [] 0 False
       (?r\<lparr>gr_bytes_received := (if rest = [] then gr_bytes_received ?r
          else c_size (gr_bytes_received ?r + int m))\<rparr>) (?out @ ws)"
    "concat (map (\<lambda>(_, d, _). d) ws) = net_data rest"
    "\<forall>w\<in>set ws. fst w = f \<and> snd (snd w) = gr_write_arg r"
    using gfc_loop_stream [OF assms(9), of m 0 ?r f "[]" ?out] n assms(5,11) by (auto simp: m_def)
  moreover have "n < 2 ^ 64" using assms(11) by (rule order.strict_trans) simp
  then have "c_size (int (length c) + int m) = int n" "rest = [] \<Longrightarrow> length c = n"
    using n c_size_of_nat [of n] by (auto simp: m_def)
  ultimately show ?thesis
    by (auto simp: gfc_loop_done gfc_get_status_def gfc_get_filelen_def gfc_get_bytesreceived_def)
qed

section \<open>Properties\<close>

text \<open>
  C17. A transfer is complete and exact, however TCP cuts the stream: the server sends an OK
  header for \<open>n\<close> bytes and then exactly \<open>n\<close> bytes of content. The header and the part
  \<open>c\<close> of the content that arrives with it must fit the first receive, and \<open>c\<close> must be
  clean. Then gfc\_perform returns 0 with status OK, both lengths are \<open>n\<close>, and the data of
  the write callbacks, all with the registered function and argument, is the content.
\<close>

theorem gfc_perform_transfers:
  assumes "env_gai env = 0" and "connect_loop (env_addrs env) = Some fd"
    and "length (gr_path r) \<le> 83" and "gr_file_length r = 0" and "gr_write_func r = Some f"
    and "env_rx env = RData (ok_header n @ c) # rest" and "clean c"
    and "length (ok_header n @ c) < BUFSIZE" and "stream rest"
    and "length (c @ net_data rest) = n" and "n < 2 ^ 31"
  shows "\<exists>r' ws. gfc_perform env r = Ret (0, r', ws) \<and> gfc_get_status r' = GF_OK \<and>
    gfc_get_filelen r' = int n \<and> gfc_get_bytesreceived r' = int n \<and>
    concat (map (\<lambda>(_, d, _). d) ws) = c @ net_data rest \<and>
    (\<forall>w\<in>set ws. fst w = f \<and> snd (snd w) = gr_write_arg r)"
  using gfc_perform_ok_response [OF assms] .

text \<open>A connected client that asks for \<open>/f\<close>, used by the witnesses.\<close>

definition demo_env :: "net \<Rightarrow> client_env" where
  "demo_env net =
     \<lparr>env_gai = 0,
      env_addrs = [\<lparr>ai_socket = 3, ai_setsockopt = 0, ai_bind = 0, ai_connect = 0\<rparr>],
      env_send = 18, env_rx = net\<rparr>"

definition demo_request :: gfcrequest where
  "demo_request = gfc_set_writefunc (Some 1) (gfc_set_path ''/f'' (gfc_create
     \<lparr>gr_port = 0, gr_path = [], gr_server = [], gr_write_arg = Some 9, gr_write_func = None,
      gr_header_arg = None, gr_header_func = None, gr_status = GF_OK,
      gr_file_length = 4, gr_bytes_received = 4\<rparr>))"

lemma demo_env_facts [simp]:
  "env_gai (demo_env net) = 0" "connect_loop (env_addrs (demo_env net)) = Some 3"
  "env_rx (demo_env net) = net"
  by (simp_all add: demo_env_def)

lemma demo_request_facts [simp]:
  "gr_path demo_request = ''/f''" "gr_file_length demo_request = 0"
  "gr_write_func demo_request = Some 1" "gr_write_arg demo_request = Some 9"
  by (simp_all add: demo_request_def gfc_set_writefunc_def gfc_set_path_def gfc_create_def)

lemma show_nat_small [simp]: "n < 10 \<Longrightarrow> show_nat n = [digit n]"
  by (simp add: show_nat.simps)

theorem gfc_perform_transfers_witness:
  "\<exists>r' ws. gfc_perform (demo_env [RData (ok_header 5 @ ''ab''), RData ''cde'']) demo_request = Ret (0, r', ws) \<and>
     gfc_get_status r' = GF_OK \<and> concat (map (\<lambda>(_, d, _). d) ws) = ''abcde''"
proof -
  have "clean ''ab''" "length (ok_header 5 @ ''ab'') < BUFSIZE"
    by (simp_all add: clean_def BUFSIZE_def)
  from gfc_perform_transfers [of "demo_env [RData (ok_header 5 @ ''ab''), RData ''cde'']" 3
      demo_request 1 5 "''ab''" "[RData ''cde'']", OF _ _ _ _ _ _ this]
  show ?thesis by fastforce
qed

lemma strtok_content_line_end:
  assumes "a \<noteq> []" and "NUL \<notin> set a" and "CR \<notin> set a" and "LF \<notin> set a"
  shows "strtok (pre @ [LF, CR, LF] @ (a @ LF # b) @ z) (length pre) [LF, CR, LF] =
    Ret (pre @ [LF, CR, LF] @ (a @ NUL # b) @ z, Some (length pre + 3), length pre + 4 + length a)"
proof -
  have "\<forall>c\<in>set a. c \<notin> set [LF, CR, LF] \<and> c \<noteq> NUL" using assms by auto
  from strtok_token [OF assms(1) this, of LF "length (pre @ [LF, CR, LF])" "pre @ [LF, CR, LF]" "b @ z"]
  show ?thesis
    using strtok_skip [of "[LF, CR, LF]" "[LF, CR, LF]" "length pre" pre "(a @ LF # b) @ z"]
    by simp
qed

lemma gfc_ok_line_end:
  assumes a: "a \<noteq> []" "NUL \<notin> set a" "CR \<notin> set a" "LF \<notin> set a"
    and n: "n = length (a @ LF # b)" "n < 2 ^ 31" and fl: "gr_file_length r = 0"
  shows "gfc_ok r (int (length (ok_header n @ a @ LF # b)))
      (''GETFILE'' @ NUL # ''OK'' @ NUL # show_nat n @ CRLFCRLF @ (a @ LF # b) @ NUL # z) 0 8 11 =
    Ret (Go (r\<lparr>gr_status := GF_OK, gr_file_length := int n, gr_bytes_received := int n\<rparr>) 0
          (Some (a @ NUL # b)))"
proof -
  let ?pre = "''GETFILE'' @ NUL # ''OK'' @ NUL # show_nat n @ [NUL]"
  have pre: "length ?pre = 12 + length (show_nat n)" by simp
  obtain q where "strtok (cut_buffer n (a @ LF # b) z) (12 + length (show_nat n)) [LF, CR, LF] =
      Ret (cut_buffer n (a @ NUL # b) z,
           if a @ LF # b = [] then None else Some (15 + length (show_nat n)), q)"
    using strtok_content_line_end [OF a, of ?pre b "NUL # z"]
    unfolding cut_buffer_def [symmetric] pre by auto
  from gfc_ok_step [OF this _ n(2) fl] n show ?thesis by simp
qed

lemma gfc_loop_line_end:
  assumes a: "a \<noteq> []" "NUL \<notin> set a" "CR \<notin> set a" "LF \<notin> set a"
    and n: "n = length (a @ LF # b)" "n < 2 ^ 31"
    and fl: "gr_file_length r = 0" "gr_write_func r = Some f"
    and room: "length (ok_header n @ a @ LF # b) < BUFSIZE"
  shows "gfc_loop (RData (ok_header n @ a @ LF # b) # net) 100 True r [] =
    Ret (0, r\<lparr>gr_status := GF_OK, gr_file_length := int n, gr_bytes_received := int n\<rparr>,
         [(f, a @ NUL # b, gr_write_arg r)])"
proof -
  define d where "d = ok_header n @ a @ LF # b"
  have d: "length d \<le> BUFSIZE" "d \<noteq> []" using room by (simp_all add: d_def)
  obtain z where "rx_buffer d = d @ NUL # z" using rx_buffer_room room unfolding d_def by blast
  then have buf: "rx_buffer d = ''GETFILE '' @ ''OK'' @ SP # show_nat n @ CRLFCRLF @ (a @ LF # b) @ NUL # z"
    by (simp add: d_def)
  define A where "A = show_nat n @ CRLFCRLF @ (a @ LF # b) @ NUL # z"
  note ok = gfc_ok_line_end [OF a n fl(1), of z, folded A_def d_def]
  have "gfc_first r (int (length d)) d =
      gfc_ok r (int (length d)) (''GETFILE'' @ NUL # ''OK'' @ NUL # A) 0 8 11"
    using strtok_status_line [of "''OK''" A] unfolding gfc_first_def buf A_def [symmetric] by simp
  with ok gfc_loop_first [OF d, of net r] fl show ?thesis
    unfolding d_def [symmetric] by (simp add: write_call_of_def gfc_loop_done)
qed

text \<open>
  C40. A line end in the part of the content that arrives with the header is lost: the
  tokenizer overwrites it with NUL. The call still returns 0 with status OK and the full
  length, and the file it delivers differs from the one that was sent.
\<close>

theorem gfc_line_end_lost:
  assumes "env_gai env = 0" and "connect_loop (env_addrs env) = Some fd"
    and "length (gr_path r) \<le> 83" and "gr_file_length r = 0" and "gr_write_func r = Some f"
    and "env_rx env = RData (ok_header n @ a @ LF # b) # rest"
    and "a \<noteq> []" "NUL \<notin> set a" "CR \<notin> set a" "LF \<notin> set a"
    and "n = length (a @ LF # b)" and "length (ok_header n @ a @ LF # b) < BUFSIZE"
  shows "\<exists>r'. gfc_perform env r = Ret (0, r', [(f, a @ NUL # b, gr_write_arg r)]) \<and>
    gfc_get_status r' = GF_OK \<and> gfc_get_filelen r' = int n \<and> gfc_get_bytesreceived r' = int n"
proof -
  have n: "n < 2 ^ 31" using assms(11,12) by (simp add: BUFSIZE_def)
  obtain st where p: "gfc_perform env r = gfc_loop (env_rx env) 100 True (r\<lparr>gr_status := st\<rparr>) []"
    using gfc_perform_connected [OF assms(1-3)] by blast
  have "gfc_loop (env_rx env) 100 True (r\<lparr>gr_status := st\<rparr>) [] =
      Ret (0, r\<lparr>gr_status := GF_OK, gr_file_length := int n, gr_bytes_received := int n\<rparr>,
         [(f, a @ NUL # b, gr_write_arg r)])"
    using gfc_loop_line_end [OF assms(7-11) n, of "r\<lparr>gr_status := st\<rparr>" f rest] assms(4-6,12) by simp
  with p show ?thesis
    by (simp add: gfc_get_status_def gfc_get_filelen_def gfc_get_bytesreceived_def)
qed

theorem gfc_line_end_lost_witness:
  "\<exists>r'. gfc_perform (demo_env [RData (ok_header 3 @ ''a'' @ LF # ''b'')]) demo_request =
     Ret (0, r', [(1, ''a'' @ NUL # ''b'', Some 9)]) \<and> gfc_get_status r' = GF_OK"
proof -
  have "length (ok_header 3 @ ''a'' @ LF # ''b'') < BUFSIZE" by (simp add: BUFSIZE_def)
  from gfc_line_end_lost [of "demo_env [RData (ok_header 3 @ ''a'' @ LF # ''b'')]" 3
      demo_request 1 3 "''a''" "''b''" "[]", OF _ _ _ _ _ _ _ _ _ _ _ this]
  show ?thesis by auto
qed

text \<open>
  When the server closes the connection before the announced length has come, gfc\_perform
  returns -1 and the count of received bytes is 0, whatever was delivered: the data that did
  arrive has been handed to the write callback.
\<close>

theorem gfc_perform_premature_close:
  assumes "env_gai env = 0" and "connect_loop (env_addrs env) = Some fd"
    and "length (gr_path r) \<le> 83" and "gr_file_length r = 0" and "gr_write_func r = Some f"
    and "env_rx env = RData (ok_header n @ c) # rest @ [RData []]" and "clean c"
    and "length (ok_header n @ c) < BUFSIZE" and "stream rest"
    and "length (c @ net_data rest) < n" and "n < 2 ^ 31"
  shows "\<exists>r' ws. gfc_perform env r = Ret (-1, r', ws) \<and> gfc_get_status r' = GF_OK \<and>
    gfc_get_filelen r' = int n \<and> gfc_get_bytesreceived r' = 0 \<and>
    concat (map (\<lambda>(_, d, _). d) ws) = c @ net_data rest"
proof -
  define m where "m = length (net_data rest)"
  define k where "k = n - length c - m"
  have n: "length c + (m + k) = n" "k \<noteq> 0" "m + k < 2 ^ 31"
    using assms(10,11) by (auto simp: m_def k_def)
  obtain st where p: "gfc_perform env r = gfc_loop (env_rx env) 100 True (r\<lparr>gr_status := st\<rparr>) []"
    using gfc_perform_connected [OF assms(1-3)] by blast
  let ?r = "r\<lparr>gr_status := GF_OK, gr_file_length := int n, gr_bytes_received := int (length c)\<rparr>"
  let ?out = "if c = [] then [] else [(f, c, gr_write_arg r)]"
  have "gfc_perform env r = gfc_loop (rest @ [RData []]) (int (m + k)) False ?r ?out"
    using gfc_loop_ok [OF assms(7,11), of "r\<lparr>gr_status := st\<rparr>" f "m + k" "rest @ [RData []]"]
      assms(4-6,8) n p by simp
  moreover obtain ws rb where
    "gfc_loop (rest @ [RData []]) (int (m + k)) False ?r ?out =
       gfc_loop [RData []] (int k) False (?r\<lparr>gr_bytes_received := rb\<rparr>) (?out @ ws)"
    "concat (map (\<lambda>(_, d, _). d) ws) = net_data rest"
    using gfc_loop_stream [OF assms(9), of m k ?r f "[RData []]" ?out] n assms(5)
    by (auto simp: m_def)
  ultimately show ?thesis using n gfc_loop_closed [of "int k"]
    by (auto simp: gfc_get_status_def gfc_get_filelen_def gfc_get_bytesreceived_def)
qed

theorem gfc_perform_premature_close_witness:
  "\<exists>r' ws. gfc_perform (demo_env [RData (ok_header 5 @ ''ab''), RData ''c'', RData []]) demo_request =
       Ret (-1, r', ws) \<and>
     gfc_get_bytesreceived r' = 0 \<and> concat (map (\<lambda>(_, d, _). d) ws) = ''abc''"
proof -
  have "clean ''ab''" "length (ok_header 5 @ ''ab'') < BUFSIZE"
    by (simp_all add: clean_def BUFSIZE_def)
  from gfc_perform_premature_close
    [of "demo_env [RData (ok_header 5 @ ''ab''), RData ''c'', RData []]" 3
      demo_request 1 5 "''ab''" "[RData ''c'']", OF _ _ _ _ _ _ this]
  show ?thesis by fastforce
qed

end
