(* ===== verification/GFServer.thy ===== *)
theory GFServer
  imports GFClient
begin

text \<open>
  multithreading/gflib/gfserver.c: the Getfile server library. Its objects and setters, the
  header a handler sends, and gfserver\_serve: bind, listen, and the accept loop that receives
  a request, parses it and calls the handler.
\<close>

section \<open>Objects\<close>

text \<open>gfserver.h numbers the statuses.\<close>

definition GFS_OK :: int where "GFS_OK = 200"
definition GFS_FILE_NOT_FOUND :: int where "GFS_FILE_NOT_FOUND = 400"
definition GFS_ERROR :: int where "GFS_ERROR = 500"
definition GFS_INVALID :: int where "GFS_INVALID = 600"

lemmas gfs_status_defs = GFS_OK_def GFS_FILE_NOT_FOUND_def GFS_ERROR_def GFS_INVALID_def

text \<open>struct gfserver\_t; a handler or an argument pointer is a number.\<close>

record gfserver =
  gs_port :: int
  gs_max_npending :: int
  gs_arg :: "nat option"
  gs_handler :: "nat option"
  gs_status :: int

text \<open>struct gfcontext\_t.\<close>

record gfcontext =
  gc_clientfd :: int
  gc_status :: int
  gc_filepath :: string

text \<open>What the server does to the outside: data it sends, handler calls, connections it closes.\<close>

datatype server_event =
    Sent int "char list"
  | Handled nat int string "nat option"
  | Closed int

text \<open>gfs\_abort closes the connection, frees the context and clears the caller's pointer.\<close>

definition gfs_abort :: "gfcontext \<Rightarrow> server_event list \<Rightarrow> gfcontext option \<times> server_event list" where
  "gfs_abort ctx ev = (None, ev @ [Closed (gc_clientfd ctx)])"

text \<open>gfserver\_create returns what malloc returns.\<close>

definition gfserver_create :: "gfserver \<Rightarrow> gfserver" where
  "gfserver_create junk = junk"

text \<open>\<open>k\<close> is the result of send.\<close>

definition gfs_send ::
  "int \<Rightarrow> gfcontext \<Rightarrow> char list \<Rightarrow> nat \<Rightarrow> server_event list \<Rightarrow> int \<times> server_event list" where
  "gfs_send k ctx data len ev = (k, ev @ [Sent (gc_clientfd ctx) (take len data)])"

definition gfs_header :: "int \<Rightarrow> nat \<Rightarrow> string" where
  "gfs_header status file_len =
     (if status = GFS_INVALID then ''GETFILE INVALID'' @ CRLFCRLF
      else if status = GFS_ERROR then ''GETFILE ERROR'' @ CRLFCRLF
      else if status = GFS_FILE_NOT_FOUND then ''GETFILE FILE_NOT_FOUND'' @ CRLFCRLF
      else if status = GFS_OK then ''GETFILE OK '' @ show_nat file_len @ CRLFCRLF
      else [])"

definition gfs_sendheader ::
  "int \<Rightarrow> gfcontext \<Rightarrow> int \<Rightarrow> nat \<Rightarrow> server_event list \<Rightarrow> int \<times> server_event list" where
  "gfs_sendheader k ctx status file_len ev =
     (k, ev @ [Sent (gc_clientfd ctx) (gfs_header status file_len)])"

definition gfserver_set_handlerarg :: "nat option \<Rightarrow> gfserver \<Rightarrow> gfserver" where
  "gfserver_set_handlerarg a gfs = gfs\<lparr>gs_arg := a\<rparr>"

definition gfserver_set_handler :: "nat option \<Rightarrow> gfserver \<Rightarrow> gfserver" where
  "gfserver_set_handler h gfs = gfs\<lparr>gs_handler := h\<rparr>"

definition gfserver_set_port :: "int \<Rightarrow> gfserver \<Rightarrow> gfserver" where
  "gfserver_set_port port gfs = gfs\<lparr>gs_port := c_ushort port\<rparr>"

definition gfserver_set_maxpending :: "int \<Rightarrow> gfserver \<Rightarrow> gfserver" where
  "gfserver_set_maxpending n gfs = gfs\<lparr>gs_max_npending := n\<rparr>"

section \<open>gfserver\_serve\<close>

text \<open>
  The receive loop of one connection. \<open>header\<close> is the buffer in which the request is put
  together and \<open>all\<close> counts the bytes received; both live longer than the connection.
\<close>

function recv_header :: "net \<Rightarrow> char list \<Rightarrow> nat \<Rightarrow> (char list \<times> nat \<times> net) outcome" where
  "recv_header net header all =
     (if strstr (cstr header) CRLFCRLF then Ret (header, all, net)
      else (case recv (BUFSIZE - 1) net of
              Ret (n, d, net') \<Rightarrow>
                if n < 0 then Undef
                else (case strcpy_at header all (cstr d) of
                        Ret header' \<Rightarrow> recv_header net' header' (all + nat n)
                      | Exits k \<Rightarrow> Exits k | Undef \<Rightarrow> Undef | Blocks \<Rightarrow> Blocks)
            | Exits k \<Rightarrow> Exits k | Undef \<Rightarrow> Undef | Blocks \<Rightarrow> Blocks))"
  by pat_completeness auto
termination
  by (relation "measure (\<lambda>(net, _). net_size net)")
    (auto simp: BUFSIZE_def dest!: recv_decreases)

declare recv_header.simps [simp del]

text \<open>
  The parse of a request: the buffer with the tokens cut, whether the request is malformed,
  and the path. A missing token is a null pointer that strcmp or the path check reads.
\<close>

definition parse_request :: "char list \<Rightarrow> (char list \<times> bool \<times> string) outcome" where
  "parse_request header =
     bind_outcome (strtok header 0 [SP]) (\<lambda>(b1, scheme, p1).
       case scheme of None \<Rightarrow> Undef
       | Some sc \<Rightarrow>
           (let bad1 = (cstr (drop sc b1) \<noteq> ''GETFILE'')
            in bind_outcome (strtok b1 p1 [SP]) (\<lambda>(b2, meth, p2).
                 case meth of None \<Rightarrow> Undef
                 | Some m \<Rightarrow>
                     (let bad2 = (bad1 \<or> cstr (drop m b2) \<noteq> ''GET'')
                      in bind_outcome (strtok b2 p2 CRLFCRLF) (\<lambda>(b3, path, _).
                           case path of None \<Rightarrow> Undef
                           | Some pa \<Rightarrow>
                               Ret (b3, bad2 \<or> b3 ! pa \<noteq> CHR ''/'', cstr (drop pa b3)))))))"

text \<open>The answer to a parsed request: an INVALID header, or the call of the handler.\<close>

definition answer_request ::
  "gfserver \<Rightarrow> int \<Rightarrow> bool \<Rightarrow> string \<Rightarrow> server_event list \<Rightarrow> (gfserver \<times> server_event list) outcome" where
  "answer_request gfs fd bad path ev =
     (let ctx = \<lparr>gc_clientfd = fd, gc_status = 0, gc_filepath = path\<rparr>
      in if bad
         then Ret (gfs\<lparr>gs_status := GFS_INVALID\<rparr>, snd (gfs_sendheader 0 ctx GFS_INVALID 0 ev))
         else (case gs_handler gfs of None \<Rightarrow> Undef
               | Some h \<Rightarrow> Ret (gfs, ev @ [Handled h fd path (gs_arg gfs)])))"

text \<open>
  The accept loop over the connections that arrive: the descriptor that accept returns and
  what the connection delivers. It returns when no further connection comes, which is where
  the program waits in accept.
\<close>

fun accept_loop ::
  "(int \<times> net) list \<Rightarrow> gfserver \<Rightarrow> char list \<Rightarrow> nat \<Rightarrow> server_event list \<Rightarrow>
   (gfserver \<times> char list \<times> nat \<times> server_event list) outcome" where
  "accept_loop [] gfs header all ev = Ret (gfs, header, all, ev)"
| "accept_loop ((fd, net) # conns) gfs header all ev =
     (if fd = -1 then accept_loop conns gfs header all ev
      else bind_outcome (recv_header net header all) (\<lambda>(header1, all1, _).
           bind_outcome (parse_request header1) (\<lambda>(header2, bad, path).
           bind_outcome (answer_request gfs fd bad path ev) (\<lambda>(gfs', ev').
             accept_loop conns gfs' header2 all1 ev'))))"

text \<open>What the system calls of gfserver\_serve return.\<close>

record server_env =
  se_gai :: int
  se_addrs :: "addrinfo list"
  se_listen :: int
  se_conns :: "(int \<times> net) list"

definition gfserver_serve ::
  "server_env \<Rightarrow> gfserver \<Rightarrow> (gfserver \<times> char list \<times> nat \<times> server_event list) outcome" where
  "gfserver_serve env gfs =
     (if se_gai env \<noteq> 0 then Exits 1
      else bind_outcome (bind_loop (se_addrs env)) (\<lambda>sock.
        case sock of None \<Rightarrow> Exits 1
        | Some _ \<Rightarrow>
            if se_listen env = -1 then Exits 1
            else accept_loop (se_conns env) gfs (replicate BUFSIZE NUL) 0 []))"

section \<open>Receiving a request\<close>

abbreviation request :: "string \<Rightarrow> string \<Rightarrow> string \<Rightarrow> string" where
  "request scheme meth path \<equiv> scheme @ SP # meth @ SP # path @ CRLFCRLF"

text \<open>A request whose words contain no separator: the words are not empty, a path may hold spaces.\<close>

definition request_words :: "string \<Rightarrow> string \<Rightarrow> string \<Rightarrow> bool" where
  "request_words scheme meth path \<longleftrightarrow>
     (\<forall>w\<in>{scheme, meth, path}. w \<noteq> [] \<and> NUL \<notin> set w \<and> CR \<notin> set w \<and> LF \<notin> set w) \<and>
     SP \<notin> set scheme \<and> SP \<notin> set meth"

abbreviation header_buffer :: "string \<Rightarrow> char list" where
  "header_buffer s \<equiv> s @ replicate (BUFSIZE - length s) NUL"

lemma strict_prefix_no_end:
  assumes "LF \<notin> set body" and "body @ CRLFCRLF = got @ left" and "left \<noteq> []"
  shows "\<not> strstr got CRLFCRLF"
proof
  assume "strstr got CRLFCRLF"
  then obtain a b where got: "got = a @ CRLFCRLF @ b" using strstr_iff by blast
  have "body @ [CR, LF, CR] = butlast (body @ CRLFCRLF)" by (simp add: butlast_append)
  also have "\<dots> = got @ butlast left" using assms(2,3) by (metis butlast_append)
  finally have "filter (\<lambda>c. c = LF) (body @ [CR, LF, CR]) = filter (\<lambda>c. c = LF) (got @ butlast left)"
    by simp
  moreover have "filter (\<lambda>c. c = LF) body = []" using assms(1) by (auto simp: filter_empty_conv)
  ultimately have "[LF] = filter (\<lambda>c. c = LF) a @ [LF, LF] @ filter (\<lambda>c. c = LF) (b @ butlast left)"
    by (simp add: got)
  then have "length [LF] = length (filter (\<lambda>c. c = LF) a @ [LF, LF] @ filter (\<lambda>c. c = LF) (b @ butlast left))"
    by (rule arg_cong)
  then show False by simp
qed

lemma strcpy_at_header:
  assumes "length got + length d < BUFSIZE"
  shows "strcpy_at (header_buffer got) (length got) d = Ret (header_buffer (got @ d))"
proof -
  have "drop (length d + 1) (replicate (BUFSIZE - length got) NUL) =
      replicate (BUFSIZE - length got - length d - 1) NUL" by simp
  moreover have "NUL # replicate (BUFSIZE - length got - length d - 1) NUL =
      replicate (BUFSIZE - (length got + length d)) NUL"
    using assms by (simp flip: replicate_Suc add: Suc_diff_Suc)
  ultimately show ?thesis using assms by (simp add: strcpy_at_def add.commute add.left_commute)
qed

lemma recv_header_stream:
  assumes "stream net" and "got @ net_data net = req" and "req = body @ CRLFCRLF"
    and "NUL \<notin> set body" and "LF \<notin> set body" and "length req < BUFSIZE"
  shows "recv_header net (header_buffer got) (length got) = Ret (header_buffer req, length req, [])"
  using assms
proof (induction "net_size net" arbitrary: net got rule: less_induct)
  case less
  have nul: "NUL \<notin> set req" using less.prems by simp
  have got: "cstr (header_buffer got) = got"
    using less.prems(2) nul by (metis NUL_notin_cstr Un_iff cstr_NUL_free cstr_append_replicate_NUL set_append)
  show ?case
  proof (cases "net = []")
    case True
    then have "got = req" using less.prems(2) by simp
    moreover have "strstr req CRLFCRLF" using less.prems(3) strstr_iff by (metis append.right_neutral)
    ultimately show ?thesis using got True by (subst recv_header.simps) simp
  next
    case False
    have "0 < BUFSIZE - 1" by (simp add: BUFSIZE_def)
    then obtain d net' where rv: "recv (BUFSIZE - 1) net = Ret (int (length d), d, net')"
        and d: "d \<noteq> []" and st: "stream net'" and data: "net_data net = d @ net_data net'"
        and size: "net_size net' < net_size net"
      using recv_stream [OF less.prems(1) _ False] by blast
    have req: "(got @ d) @ net_data net' = req" using less.prems(2) data by simp
    have "\<not> strstr got CRLFCRLF"
      using strict_prefix_no_end [of body got "net_data net"] less.prems data d by simp
    moreover have "NUL \<notin> set d" using nul req by auto
    then have "cstr d = d" by simp
    moreover have "length got + length d < BUFSIZE" using less.prems(6) req by auto
    note strcpy_at_header [OF this]
    ultimately have "recv_header net (header_buffer got) (length got) =
        recv_header net' (header_buffer (got @ d)) (length (got @ d))"
      using rv got by (subst recv_header.simps) simp
    with less.hyps [OF size st req less.prems(3-6)] show ?thesis by simp
  qed
qed

lemma parse_request_words:
  assumes "request_words scheme meth path"
  shows "\<exists>b. parse_request (request scheme meth path @ z) =
    Ret (scheme @ NUL # b, scheme \<noteq> ''GETFILE'' \<or> meth \<noteq> ''GET'' \<or> hd path \<noteq> CHR ''/'', path)"
proof -
  have w: "scheme \<noteq> []" "meth \<noteq> []" "path \<noteq> []"
    "NUL \<notin> set scheme" "NUL \<notin> set meth" "NUL \<notin> set path"
    "\<forall>c\<in>set scheme. c \<notin> set [SP] \<and> c \<noteq> NUL" "\<forall>c\<in>set meth. c \<notin> set [SP] \<and> c \<noteq> NUL"
    "\<forall>c\<in>set path. c \<notin> set CRLFCRLF \<and> c \<noteq> NUL"
    using assms by (auto simp: request_words_def)
  have 1: "strtok (request scheme meth path @ z) 0 [SP] =
      Ret (scheme @ NUL # meth @ SP # path @ CRLFCRLF @ z, Some 0, length scheme + 1)"
    using strtok_token [OF w(1,7), of SP 0 "[]" "meth @ SP # path @ CRLFCRLF @ z"] by simp
  have 2: "strtok (scheme @ NUL # meth @ SP # path @ CRLFCRLF @ z) (length scheme + 1) [SP] =
      Ret (scheme @ NUL # meth @ NUL # path @ CRLFCRLF @ z, Some (length scheme + 1),
           length scheme + 1 + length meth + 1)"
    using strtok_token [OF w(2,8), of SP "length scheme + 1" "scheme @ [NUL]" "path @ CRLFCRLF @ z"]
    by simp
  have 3: "strtok (scheme @ NUL # meth @ NUL # path @ CRLFCRLF @ z)
        (length scheme + 1 + length meth + 1) CRLFCRLF =
      Ret (scheme @ NUL # meth @ NUL # path @ NUL # [LF, CR, LF] @ z,
           Some (length scheme + 1 + length meth + 1),
           length scheme + 1 + length meth + 1 + length path + 1)"
    using strtok_token [OF w(3,9), of CR "length scheme + 1 + length meth + 1"
        "scheme @ NUL # meth @ [NUL]" "[LF, CR, LF] @ z"]
    by simp
  have 4: "drop (length scheme + 1) (scheme @ NUL # b) = b" for b by simp
  have 5: "drop (length scheme + 1 + length meth + 1) (scheme @ NUL # meth @ NUL # b) = b" for b by simp
  have 6: "(scheme @ NUL # meth @ NUL # path @ b) ! (length scheme + 1 + length meth + 1) = hd path" for b
    using w(3) by (cases path) (simp_all add: nth_append)
  show ?thesis
    unfolding parse_request_def 1 bind_outcome.simps prod.case option.case Let_def 2 3 4 5 6
    using w by auto
qed

text \<open>A buffer that starts with a string without line end is never a complete header again.\<close>

lemma recv_header_stuck:
  assumes "\<not> strstr s CRLFCRLF" and "NUL \<notin> set s" and "header = s @ NUL # b" and "length s < all"
  shows "recv_header net header all = Blocks \<or> recv_header net header all = Undef"
  using assms(3,4)
proof (induction net header all arbitrary: b rule: recv_header.induct)
  case (1 net header all)
  have hdr: "\<not> strstr (cstr header) CRLFCRLF" using 1 assms(1,2) by simp
  show ?case
  proof (cases "recv (BUFSIZE - 1) net")
    case (Ret x)
    then obtain n d net' where rv: "recv (BUFSIZE - 1) net = Ret (n, d, net')" by (cases x) auto
    show ?thesis
    proof (cases "n < 0 \<or> \<not> returns (strcpy_at header all (cstr d))")
      case True
      with rv hdr show ?thesis
        by (subst (1 2) recv_header.simps) (auto simp: strcpy_at_def split: if_splits)
    next
      case False
      then obtain h' where h': "strcpy_at header all (cstr d) = Ret h'" and n: "\<not> n < 0" by blast
      obtain e where e: "all = length s + Suc e" using 1(3) less_imp_Suc_add by auto
      from h' have "\<exists>b'. h' = s @ NUL # b'" unfolding 1(2) e by (auto simp: strcpy_at_def split: if_splits)
      then obtain b' where b': "h' = s @ NUL # b'" by blast
      have "length s < all + nat n" using 1(3) by simp
      with 1(1) hdr Ret rv n h' b' have "recv_header net' h' (all + nat n) = Blocks \<or>
          recv_header net' h' (all + nat n) = Undef" by blast
      with hdr rv n h' show ?thesis by (subst (1 2) recv_header.simps) simp
    qed
  next
    case (Exits k)
    then show ?thesis by (cases "(BUFSIZE - 1, net)" rule: recv.cases) (auto split: if_splits)
  qed (use hdr in \<open>simp_all add: recv_header.simps\<close>)
qed

lemma accept_first:
  assumes "stream net" and "net_data net = request scheme meth path"
    and "request_words scheme meth path" and "length (request scheme meth path) < BUFSIZE" and "fd \<noteq> -1"
  obtains b where "accept_loop ((fd, net) # conns) gfs (replicate BUFSIZE NUL) 0 [] =
      bind_outcome (answer_request gfs fd
        (scheme \<noteq> ''GETFILE'' \<or> meth \<noteq> ''GET'' \<or> hd path \<noteq> CHR ''/'') path [])
        (\<lambda>(gfs', ev'). accept_loop conns gfs' (scheme @ NUL # b)
           (length (request scheme meth path)) ev')"
proof -
  have w: "NUL \<notin> set (scheme @ SP # meth @ SP # path)" "LF \<notin> set (scheme @ SP # meth @ SP # path)"
    using assms(3) by (auto simp: request_words_def)
  have h0: "header_buffer [] = replicate BUFSIZE NUL" by simp
  have "recv_header net (header_buffer []) (length ([]::string)) =
      Ret (header_buffer (request scheme meth path), length (request scheme meth path), [])"
    by (rule recv_header_stream [OF assms(1) _ _ w assms(4)]) (simp_all add: assms(2))
  moreover obtain b where "parse_request (header_buffer (request scheme meth path)) =
      Ret (scheme @ NUL # b, scheme \<noteq> ''GETFILE'' \<or> meth \<noteq> ''GET'' \<or> hd path \<noteq> CHR ''/'', path)"
    using parse_request_words [OF assms(3)] by blast
  ultimately show thesis using assms(5) by (intro that [of b]) (simp add: h0)
qed

section \<open>Properties\<close>

text \<open>
  C32. Whatever pieces TCP cuts it into, a first request of three words that fits the buffer
  is put together and answered once: with the handler, called with the path and the
  registered argument, when it reads GETFILE GET and a path that starts with a slash, and
  with the header GETFILE INVALID, without a call of the handler, otherwise.
\<close>

theorem gfserver_answers_first_request:
  assumes "se_gai env = 0" and "bind_loop (se_addrs env) = Ret (Some sock)" and "se_listen env \<noteq> -1"
    and "se_conns env = [(fd, net)]" and "fd \<noteq> -1" and "gs_handler gfs = Some h"
    and "stream net" and "net_data net = request scheme meth path"
    and "request_words scheme meth path" and "length (request scheme meth path) < BUFSIZE"
  shows "\<exists>gfs' header all. gfserver_serve env gfs = Ret (gfs', header, all,
    if scheme = ''GETFILE'' \<and> meth = ''GET'' \<and> hd path = CHR ''/''
    then [Handled h fd path (gs_arg gfs)] else [Sent fd (''GETFILE INVALID'' @ CRLFCRLF)])"
proof -
  obtain b where a: "accept_loop ((fd, net) # []) gfs (replicate BUFSIZE NUL) 0 [] =
      bind_outcome (answer_request gfs fd
        (scheme \<noteq> ''GETFILE'' \<or> meth \<noteq> ''GET'' \<or> hd path \<noteq> CHR ''/'') path [])
        (\<lambda>(gfs', ev'). accept_loop [] gfs' (scheme @ NUL # b)
           (length (request scheme meth path)) ev')"
    by (rule accept_first [OF assms(7-10,5)])
  from assms(1-4) have "gfserver_serve env gfs = accept_loop ((fd, net) # []) gfs (replicate BUFSIZE NUL) 0 []"
    by (simp add: gfserver_serve_def)
  with a assms(6) show ?thesis
    by (auto simp: answer_request_def gfs_sendheader_def gfs_header_def)
qed

text \<open>A server with handler 7 and one client, used by the witnesses.\<close>

definition demo_server :: gfserver where
  "demo_server = gfserver_set_handlerarg (Some 5) (gfserver_set_handler (Some 7)
     (gfserver_create \<lparr>gs_port = 8888, gs_max_npending = 10, gs_arg = None, gs_handler = None, gs_status = 0\<rparr>))"

definition demo_serve_env :: "(int \<times> net) list \<Rightarrow> server_env" where
  "demo_serve_env conns = \<lparr>se_gai = 0,
     se_addrs = [\<lparr>ai_socket = 3, ai_setsockopt = 0, ai_bind = 0, ai_connect = 0\<rparr>],
     se_listen = 0, se_conns = conns\<rparr>"

lemma demo_serve_env_facts [simp]:
  "se_gai (demo_serve_env conns) = 0" "bind_loop (se_addrs (demo_serve_env conns)) = Ret (Some 3)"
  "se_listen (demo_serve_env conns) = 0" "se_conns (demo_serve_env conns) = conns"
  "gs_handler demo_server = Some 7" "gs_arg demo_server = Some 5"
  by (simp_all add: demo_serve_env_def demo_server_def gfserver_set_handlerarg_def
      gfserver_set_handler_def gfserver_create_def)

theorem gfserver_answers_first_request_witness:
  "\<exists>gfs' header all. gfserver_serve (demo_serve_env
       [(4, [RData ''GETFI'', RData ''LE GET /a b'', RData CRLFCRLF])]) demo_server =
     Ret (gfs', header, all, [Handled 7 4 ''/a b'' (Some 5)])"
proof -
  have "request_words ''GETFILE'' ''GET'' ''/a b''"
    "length (request ''GETFILE'' ''GET'' ''/a b'') < BUFSIZE"
    by (auto simp: request_words_def BUFSIZE_def)
  from gfserver_answers_first_request [of "demo_serve_env
       [(4, [RData ''GETFI'', RData ''LE GET /a b'', RData CRLFCRLF])]" 3 4
       "[RData ''GETFI'', RData ''LE GET /a b'', RData CRLFCRLF]" demo_server 7,
       OF _ _ _ _ _ _ _ _ this]
  show ?thesis by simp
qed

text \<open>
  C39. The request buffer is never cleared: after a first well-formed request the receive loop
  of the second connection never completes a header. Whatever the second client sends, the
  server waits for ever or overruns the buffer, and no later connection is served.
\<close>

theorem gfserver_second_connection_starves:
  assumes "se_gai env = 0" and "bind_loop (se_addrs env) = Ret (Some sock)" and "se_listen env \<noteq> -1"
    and "se_conns env = (fd, net) # (fd2, net2) # conns" and "fd \<noteq> -1" and "fd2 \<noteq> -1"
    and "gs_handler gfs = Some h" and "stream net" and "net_data net = request scheme meth path"
    and "request_words scheme meth path" and "length (request scheme meth path) < BUFSIZE"
  shows "gfserver_serve env gfs = Blocks \<or> gfserver_serve env gfs = Undef"
proof -
  let ?conns = "(fd2, net2) # conns"
  obtain b where a: "accept_loop ((fd, net) # ?conns) gfs (replicate BUFSIZE NUL) 0 [] =
      bind_outcome (answer_request gfs fd
        (scheme \<noteq> ''GETFILE'' \<or> meth \<noteq> ''GET'' \<or> hd path \<noteq> CHR ''/'') path [])
        (\<lambda>(gfs', ev'). accept_loop ?conns gfs' (scheme @ NUL # b)
           (length (request scheme meth path)) ev')"
    by (rule accept_first [OF assms(8-11,5)])
  have w: "NUL \<notin> set scheme" "CR \<notin> set scheme" using assms(10) by (auto simp: request_words_def)
  then have "\<not> strstr scheme CRLFCRLF" by (auto simp: strstr_iff)
  note stuck = recv_header_stuck [OF this w(1) refl, of "length (request scheme meth path)" net2 b]
  have "accept_loop ?conns gfs' (scheme @ NUL # b) (length (request scheme meth path)) ev' = Blocks \<or>
      accept_loop ?conns gfs' (scheme @ NUL # b) (length (request scheme meth path)) ev' = Undef"
    for gfs' ev' using stuck assms(6) by auto
  moreover obtain gfs' ev' where "answer_request gfs fd
        (scheme \<noteq> ''GETFILE'' \<or> meth \<noteq> ''GET'' \<or> hd path \<noteq> CHR ''/'') path [] = Ret (gfs', ev')"
    using assms(7) by (cases "scheme \<noteq> ''GETFILE'' \<or> meth \<noteq> ''GET'' \<or> hd path \<noteq> CHR ''/''")
      (auto simp: answer_request_def)
  ultimately show ?thesis using a assms(1-4) by (simp add: gfserver_serve_def)
qed

theorem gfserver_second_connection_starves_witness:
  "gfserver_serve (demo_serve_env [(4, [RData (request ''GETFILE'' ''GET'' ''/a'')]),
       (5, [RData (request ''GETFILE'' ''GET'' ''/b'')])]) demo_server \<in> {Blocks, Undef}"
proof -
  have "request_words ''GETFILE'' ''GET'' ''/a''"
    "length (request ''GETFILE'' ''GET'' ''/a'') < BUFSIZE"
    by (auto simp: request_words_def BUFSIZE_def)
  from gfserver_second_connection_starves [of "demo_serve_env [(4, [RData (request ''GETFILE'' ''GET'' ''/a'')]),
       (5, [RData (request ''GETFILE'' ''GET'' ''/b'')])]" 3 4 _ 5 _ "[]" demo_server 7,
       OF _ _ _ _ _ _ _ _ _ this]
  show ?thesis by simp
qed

end
