(* ===== verification/MTServer.thy ===== *)
theory MTServer
  imports Steque Content GFServer Options
begin

text \<open>
  multithreading/mtgf/handler.c and gfserver\_main.c: the handler that the Getfile server calls
  queues the request, the worker threads pop requests and answer them. The calls of the server
  library (gfs\_sendheader, gfs\_send) are recorded with their arguments.
\<close>

section \<open>Answering one request\<close>

text \<open>steque\_item\_info; the context is named by its connection.\<close>

record item_info =
  ii_context :: int
  ii_filepath :: string

datatype reply = SendHeader int int | SendData "char list"

text \<open>
  What fstat and pread return: the size, None for -1; the bytes read at an offset, None for
  -1. The loop counts in an int: an overflow is undefined. pread returning no bytes before
  the end keeps the loop going for ever.
\<close>

record file_env =
  fe_fstat :: "int \<Rightarrow> int option"
  fe_pread :: "int \<Rightarrow> nat \<Rightarrow> int \<Rightarrow> char list option"

function serve_loop ::
  "(int \<Rightarrow> nat \<Rightarrow> int \<Rightarrow> char list option) \<Rightarrow> int \<Rightarrow> int \<Rightarrow> int \<Rightarrow> reply list \<Rightarrow> reply list outcome" where
  "serve_loop pread fd file_length bytes_sent out =
     (if bytes_sent < file_length
      then (case pread fd BUFSIZE bytes_sent of
              None \<Rightarrow> Undef
            | Some d \<Rightarrow>
                if d = [] then Blocks
                else if INT_MAX < bytes_sent + int (length d) then Undef
                else serve_loop pread fd file_length (bytes_sent + int (length d)) (out @ [SendData d]))
      else Ret out)"
  by pat_completeness auto
termination
  by (relation "measure (\<lambda>(_, _, len, sent, _). nat (len - sent))") auto

declare serve_loop.simps [simp del]

text \<open>The body of the worker's loop after the unlock; a null item is skipped.\<close>

definition worker_serve :: "content \<Rightarrow> file_env \<Rightarrow> item_info option \<Rightarrow> reply list outcome" where
  "worker_serve st env item =
     (case item of
        None \<Rightarrow> Ret []
      | Some it \<Rightarrow>
          bind_outcome (mt_content_get (ii_filepath it) st) (\<lambda>(fd, _).
            if fd = -1 then Ret [SendHeader GFS_FILE_NOT_FOUND 0]
            else (case fe_fstat env fd of
                    None \<Rightarrow> Ret []
                  | Some file_length \<Rightarrow>
                      serve_loop (fe_pread env) fd file_length 0 [SendHeader GFS_OK file_length])))"

section \<open>The threads\<close>

datatype spc =
    SLock | SCheck | SWait | SWoken | SPop
  | SUnlock "item_info option" | SSignal "item_info option" | SServe "item_info option" | SStuck

datatype hpc = HIdle | HPut item_info | HUnlock | HSignal

datatype stid = Handler | SWorker nat

datatype sstatus = SRunning | SEnded int | SCrashed

definition gfh_success :: int where "gfh_success = 5"

text \<open>
  The shared state. \<open>sv\_todo\<close> are the requests for which the server library will call the
  handler, \<open>sv\_handled\<close> the results of the calls that returned: the caller's context pointer
  and the value. \<open>sv\_put\<close>, \<open>sv\_popped\<close> and \<open>sv\_log\<close> record what was queued, popped and
  answered.
\<close>

record server =
  sv_owner :: "stid option"
  sv_queue :: "item_info option steque_state"
  sv_handler :: hpc
  sv_workers :: "spc list"
  sv_todo :: "item_info list"
  sv_handled :: "(int option \<times> int) list"
  sv_put :: "item_info option list"
  sv_popped :: "item_info option list"
  sv_log :: "(nat \<times> item_info option \<times> reply list) list"
  sv_status :: sstatus

definition server_start :: "nat \<Rightarrow> item_info list \<Rightarrow> server" where
  "server_start nthreads todo =
     \<lparr>sv_owner = None, sv_queue = steque_init Map.empty, sv_handler = HIdle,
      sv_workers = replicate nthreads SLock, sv_todo = todo, sv_handled = [],
      sv_put = [], sv_popped = [], sv_log = [], sv_status = SRunning\<rparr>"

datatype saction = SStep stid nat | SSpurious nat

definition server_signal :: "nat \<Rightarrow> server \<Rightarrow> server option" where
  "server_signal c s =
     (if SWait \<notin> set (sv_workers s) then Some s
      else if c < length (sv_workers s) \<and> sv_workers s ! c = SWait
      then Some (s\<lparr>sv_workers := (sv_workers s)[c := SWoken]\<rparr>) else None)"

text \<open>gfs\_handler, called for the first request of \<open>sv\_todo\<close>, step by step.\<close>

definition gfs_handler :: "nat \<Rightarrow> server \<Rightarrow> server option" where
  "gfs_handler c s =
     (case sv_handler s of
        HIdle \<Rightarrow>
          (case sv_todo s of
             [] \<Rightarrow> None
           | it # rest \<Rightarrow>
               if sv_owner s = None
               then Some (s\<lparr>sv_owner := Some Handler, sv_todo := rest, sv_handler := HPut it\<rparr>)
               else None)
      | HPut it \<Rightarrow>
          if fst (sv_queue s) c \<noteq> None then None
          else (case steque_enqueue (Some c) (Some it) (sv_queue s) of
                  Ret q \<Rightarrow> Some (s\<lparr>sv_queue := q, sv_put := sv_put s @ [Some it], sv_handler := HUnlock\<rparr>)
                | _ \<Rightarrow> Some (s\<lparr>sv_status := SCrashed\<rparr>))
      | HUnlock \<Rightarrow> Some (s\<lparr>sv_owner := None, sv_handler := HSignal\<rparr>)
      | HSignal \<Rightarrow>
          server_signal c (s\<lparr>sv_handler := HIdle, sv_handled := sv_handled s @ [(None, gfh_success)]\<rparr>))"

abbreviation set_spc :: "nat \<Rightarrow> spc \<Rightarrow> server \<Rightarrow> server" where
  "set_spc w pc s \<equiv> s\<lparr>sv_workers := (sv_workers s)[w := pc]\<rparr>"

definition server_worker ::
  "(item_info option \<Rightarrow> reply list outcome) \<Rightarrow> nat \<Rightarrow> nat \<Rightarrow> server \<Rightarrow> server option" where
  "server_worker serve w c s =
     (case sv_workers s ! w of
        SLock \<Rightarrow>
          if sv_owner s = None then Some (set_spc w SCheck (s\<lparr>sv_owner := Some (SWorker w)\<rparr>)) else None
      | SWoken \<Rightarrow>
          if sv_owner s = None then Some (set_spc w SCheck (s\<lparr>sv_owner := Some (SWorker w)\<rparr>)) else None
      | SCheck \<Rightarrow>
          if steque_isempty (sv_queue s) \<noteq> 0 then Some (set_spc w SWait (s\<lparr>sv_owner := None\<rparr>))
          else Some (set_spc w SPop s)
      | SWait \<Rightarrow> None
      | SPop \<Rightarrow>
          (case steque_pop EXIT_FAILURE (sv_queue s) of
             Ret (it, q) \<Rightarrow>
               Some (set_spc w (SUnlock it) (s\<lparr>sv_queue := q, sv_popped := sv_popped s @ [it]\<rparr>))
           | Exits k \<Rightarrow> Some (s\<lparr>sv_status := SEnded k\<rparr>)
           | _ \<Rightarrow> Some (s\<lparr>sv_status := SCrashed\<rparr>))
      | SUnlock it \<Rightarrow> Some (set_spc w (SSignal it) (s\<lparr>sv_owner := None\<rparr>))
      | SSignal it \<Rightarrow> server_signal c (set_spc w (SServe it) s)
      | SServe it \<Rightarrow>
          (case serve it of
             Ret out \<Rightarrow> Some (set_spc w SLock (s\<lparr>sv_log := sv_log s @ [(w, it, out)]\<rparr>))
           | Exits k \<Rightarrow> Some (s\<lparr>sv_status := SEnded k\<rparr>)
           | Undef \<Rightarrow> Some (s\<lparr>sv_status := SCrashed\<rparr>)
           | Blocks \<Rightarrow> Some (set_spc w SStuck s))
      | SStuck \<Rightarrow> None)"

fun server_step ::
  "(item_info option \<Rightarrow> reply list outcome) \<Rightarrow> saction \<Rightarrow> server \<Rightarrow> server option" where
  "server_step serve (SStep t c) s =
     (if sv_status s \<noteq> SRunning then None
      else (case t of
              Handler \<Rightarrow> gfs_handler c s
            | SWorker w \<Rightarrow> if w < length (sv_workers s) then server_worker serve w c s else None))"
| "server_step serve (SSpurious w) s =
     (if sv_status s = SRunning \<and> w < length (sv_workers s) \<and> sv_workers s ! w = SWait
      then Some (set_spc w SWoken s) else None)"

inductive server_reach ::
  "(item_info option \<Rightarrow> reply list outcome) \<Rightarrow> server \<Rightarrow> server \<Rightarrow> bool" for serve s0 where
  sreach_start: "server_reach serve s0 s0"
| sreach_step: "server_reach serve s0 s \<Longrightarrow> server_step serve a s = Some s' \<Longrightarrow> server_reach serve s0 s'"

section \<open>The main program\<close>

record mt_server_config =
  ms_nthreads :: int
  ms_port :: int
  ms_content_map :: "string option"
  ms_delay :: int

definition mt_server_default :: mt_server_config where
  "mt_server_default =
     \<lparr>ms_nthreads = 20, ms_port = 10880, ms_content_map = Some ''content.txt'', ms_delay = 0\<rparr>"

text \<open>The delay is an unsigned long: a negative argument becomes a huge number.\<close>

definition mt_server_switch :: "char \<Rightarrow> string option \<Rightarrow> mt_server_config \<Rightarrow> mt_server_config outcome" where
  "mt_server_switch ch arg c =
     (if ch = CHR ''h'' then Exits 0
      else if ch = CHR ''p'' then atoi_arg arg (\<lambda>v. c\<lparr>ms_port := c_ushort v\<rparr>)
      else if ch = CHR ''t'' then atoi_arg arg (\<lambda>v. c\<lparr>ms_nthreads := v\<rparr>)
      else if ch = CHR ''m'' then Ret (c\<lparr>ms_content_map := arg\<rparr>)
      else if ch = CHR ''d'' then atoi_arg arg (\<lambda>v. c\<lparr>ms_delay := c_size v\<rparr>)
      else Exits 1)"

text \<open>The signal handler, and cleanup\_threads, which main calls if the library ever returned.\<close>

definition mt_sig_handler :: "int \<Rightarrow> unit outcome" where
  "mt_sig_handler signo = (if signo = 2 \<or> signo = 15 then Exits signo else Ret ())"

definition cleanup_threads ::
  "content \<Rightarrow> item_info option steque_state \<Rightarrow>
   (int list \<times> content \<times> item_info option steque_state) outcome option" where
  "cleanup_threads st q =
     (case steque_destroy EXIT_FAILURE q of
        None \<Rightarrow> None
      | Some r \<Rightarrow>
          Some (bind_outcome (content_destroy st) (\<lambda>(fds, st'). bind_outcome r (\<lambda>q'. Ret (fds, st', q')))))"

text \<open>init\_threads: each of the threads starts at the top of worker\_thread.\<close>

definition init_threads :: "nat \<Rightarrow> item_info list \<Rightarrow> server" where
  "init_threads numthreads todo = server_start numthreads todo"

text \<open>
  main: the signal handlers (\<open>sigs\<close> says whether the two calls of signal succeed), the options,
  content\_init, the thread pool, and the calls that set up the server library and hand over to
  it. \<open>todo\<close> are the requests for which the library will call the handler. exit(\_\_LINE\_\_) of
  the delay check is on line 157.
\<close>

datatype library_call = SetPort int | SetMaxPending int | SetHandler | SetHandlerArg "nat option" | Serve

definition mt_server_main ::
  "bool \<times> bool \<Rightarrow> opts \<Rightarrow> (nat \<Rightarrow> string \<Rightarrow> int) \<Rightarrow> string option \<Rightarrow> item_info list \<Rightarrow>
   (content \<times> server \<times> library_call list) outcome" where
  "mt_server_main sigs os opn file todo =
     (if \<not> fst sigs \<or> \<not> snd sigs then Exits EXIT_FAILURE
      else bind_outcome (option_loop mt_server_switch os mt_server_default) (\<lambda>c.
       (let nthreads = (if ms_nthreads c < 1 then 1 else ms_nthreads c)
        in if 5000000 < ms_delay c then Exits 157
           else bind_outcome (mt_content_init opn file) (\<lambda>st.
             Ret (st, init_threads (nat nthreads) todo,
                  [SetPort (ms_port c), SetMaxPending 21, SetHandler, SetHandlerArg None, Serve])))))"

section \<open>The answer to a request\<close>

text \<open>pread of a file: some of the bytes at the offset, at least one before the end.\<close>

definition pread_of :: "(int \<Rightarrow> nat \<Rightarrow> int \<Rightarrow> char list option) \<Rightarrow> int \<Rightarrow> char list \<Rightarrow> bool" where
  "pread_of pread fd data \<longleftrightarrow>
     (\<forall>off < length data. \<exists>k > 0. k \<le> BUFSIZE \<and>
        pread fd BUFSIZE (int off) = Some (take k (drop off data)))"

lemma serve_loop_file:
  assumes "pread_of pread fd data" and "int (length data) \<le> INT_MAX" and "off \<le> length data"
  shows "\<exists>ds. serve_loop pread fd (int (length data)) (int off) out = Ret (out @ map SendData ds) \<and>
    concat ds = drop off data \<and> (\<forall>d\<in>set ds. d \<noteq> [] \<and> length d \<le> BUFSIZE)"
  using assms(3)
proof (induction "length data - off" arbitrary: off out rule: less_induct)
  case less
  show ?case
  proof (cases "off = length data")
    case True
    then show ?thesis by (subst serve_loop.simps) (auto intro: exI [of _ "[]"])
  next
    case False
    then have off: "off < length data" using less.prems by simp
    then obtain k where k: "0 < k" "k \<le> BUFSIZE" "pread fd BUFSIZE (int off) = Some (take k (drop off data))"
      using assms(1) unfolding pread_of_def by blast
    let ?d = "take k (drop off data)"
    have d: "?d \<noteq> []" "length ?d \<le> BUFSIZE" "off + length ?d \<le> length data" using k off by auto
    have "serve_loop pread fd (int (length data)) (int off) out =
        serve_loop pread fd (int (length data)) (int (off + length ?d)) (out @ [SendData ?d])"
      using off k(3) d assms(2) by (subst serve_loop.simps) simp
    moreover have "length data - (off + length ?d) < length data - off" using off d(1) by auto
    from less.hyps [OF this d(3), of "out @ [SendData ?d]"] obtain ds where
      "serve_loop pread fd (int (length data)) (int (off + length ?d)) (out @ [SendData ?d]) =
        Ret ((out @ [SendData ?d]) @ map SendData ds)"
      "concat ds = drop (off + length ?d) data" "\<forall>d\<in>set ds. d \<noteq> [] \<and> length d \<le> BUFSIZE" by blast
    moreover have "?d @ drop (off + length ?d) data = drop off data"
      by (metis append_take_drop_id drop_drop add.commute length_take append_eq_conv_conj)
    ultimately show ?thesis using d by (intro exI [of _ "?d # ds"]) auto
  qed
qed

section \<open>The invariant\<close>

fun s_cs :: "spc \<Rightarrow> bool" where
  "s_cs SCheck = True" | "s_cs SPop = True" | "s_cs (SUnlock it) = True" | "s_cs _ = False"

fun h_cs :: "hpc \<Rightarrow> bool" where
  "h_cs (HPut it) = True" | "h_cs HUnlock = True" | "h_cs _ = False"

fun h_pending :: "hpc \<Rightarrow> item_info list" where
  "h_pending (HPut it) = [it]" | "h_pending _ = []"

definition s_active :: "spc \<Rightarrow> bool" where
  "s_active pc \<longleftrightarrow> pc \<noteq> SWait \<and> pc \<noteq> SStuck"

fun s_carry :: "spc \<Rightarrow> item_info option list" where
  "s_carry (SUnlock it) = [it]" | "s_carry (SSignal it) = [it]" | "s_carry (SServe it) = [it]" | "s_carry _ = []"

definition s_mutex :: "server \<Rightarrow> bool" where
  "s_mutex s \<longleftrightarrow>
     (\<forall>w < length (sv_workers s). s_cs (sv_workers s ! w) = (sv_owner s = Some (SWorker w))) \<and>
     h_cs (sv_handler s) = (sv_owner s = Some Handler) \<and>
     (\<forall>w. sv_owner s = Some (SWorker w) \<longrightarrow> w < length (sv_workers s))"

definition s_queue :: "item_info list \<Rightarrow> server \<Rightarrow> bool" where
  "s_queue reqs s \<longleftrightarrow>
     steque_wf (sv_queue s) \<and> sv_put s = sv_popped s @ steque_items (sv_queue s) \<and>
     map Some reqs = sv_put s @ map Some (h_pending (sv_handler s) @ sv_todo s)"

definition s_wake :: "server \<Rightarrow> bool" where
  "s_wake s \<longleftrightarrow>
     (SPop \<in> set (sv_workers s) \<longrightarrow> steque_items (sv_queue s) \<noteq> []) \<and>
     (steque_items (sv_queue s) \<noteq> [] \<longrightarrow>
        sv_handler s = HUnlock \<or> sv_handler s = HSignal \<or>
        (\<exists>pc \<in> set (sv_workers s). s_active pc)) \<and>
     SStuck \<notin> set (sv_workers s)"

definition s_log :: "(item_info option \<Rightarrow> reply list outcome) \<Rightarrow> server \<Rightarrow> bool" where
  "s_log serve s \<longleftrightarrow>
     mset (sv_popped s) = mset (map (\<lambda>(_, it, _). it) (sv_log s)) + mset (concat (map s_carry (sv_workers s))) \<and>
     (\<forall>(w, it, out) \<in> set (sv_log s). serve it = Ret out)"

definition server_inv ::
  "(item_info option \<Rightarrow> reply list outcome) \<Rightarrow> item_info list \<Rightarrow> nat \<Rightarrow> server \<Rightarrow> bool" where
  "server_inv serve reqs n s \<longleftrightarrow>
     s_mutex s \<and> s_queue reqs s \<and> s_wake s \<and> s_log serve s \<and>
     length (sv_workers s) = n \<and> sv_status s = SRunning"

lemmas server_inv_defs = server_inv_def s_mutex_def s_queue_def s_wake_def s_log_def

lemma server_start_inv: "server_inv serve reqs n (server_start n reqs)"
  by (auto simp: server_inv_defs server_start_def)

text \<open>A worker moves to \<open>pc\<close>; with a popped item when there is one.\<close>

lemma s_mutex_worker:
  assumes "s_mutex s" and "w < length (sv_workers s)"
    and "ow = (if s_cs pc then Some (SWorker w) else if s_cs (sv_workers s ! w) then None else sv_owner s)"
    and "s_cs pc \<Longrightarrow> \<not> s_cs (sv_workers s ! w) \<Longrightarrow> sv_owner s = None"
  shows "s_mutex (set_spc w pc (s\<lparr>sv_owner := ow\<rparr>))"
  using assms by (auto simp: s_mutex_def nth_list_update split: if_splits)

lemma s_active_update:
  "w < length xs \<Longrightarrow> s_active x \<Longrightarrow> \<exists>pc \<in> set (xs[w := x]). s_active pc"
  using set_update_memI by fast

lemma server_move_inv:
  assumes inv: "server_inv serve reqs n s" and w: "w < n"
    and pc: "s_active pc" "s_carry pc = s_carry (sv_workers s ! w)"
      "pc = SPop \<Longrightarrow> steque_items (sv_queue s) \<noteq> []"
    and ow: "ow = (if s_cs pc then Some (SWorker w) else if s_cs (sv_workers s ! w) then None else sv_owner s)"
    and free: "s_cs pc \<Longrightarrow> \<not> s_cs (sv_workers s ! w) \<Longrightarrow> sv_owner s = None"
  shows "server_inv serve reqs n (set_spc w pc (s\<lparr>sv_owner := ow\<rparr>))"
proof -
  have l: "w < length (sv_workers s)" using inv w by (simp add: server_inv_def)
  let ?s = "set_spc w pc (s\<lparr>sv_owner := ow\<rparr>)"
  have m: "s_mutex ?s" using inv ow free l by (intro s_mutex_worker) (auto simp: server_inv_def)
  have q: "s_queue reqs ?s" using inv by (simp add: server_inv_def s_queue_def)
  have "SStuck \<notin> set ((sv_workers s)[w := pc])"
    using inv pc(1) by (auto simp: server_inv_def s_wake_def s_active_def dest!: in_set_update)
  moreover have "SPop \<in> set ((sv_workers s)[w := pc]) \<Longrightarrow> steque_items (sv_queue s) \<noteq> []"
    using inv pc(3) in_set_update [of SPop "sv_workers s" w pc] by (auto simp: server_inv_def s_wake_def)
  ultimately have k: "s_wake ?s" using s_active_update [OF l pc(1)] by (simp add: s_wake_def)
  have g: "s_log serve ?s" using inv mset_concat_map_same [OF l, of s_carry, OF pc(2)] by (simp add: server_inv_def s_log_def)
  show ?thesis using inv m q k g by (simp add: server_inv_def)
qed

lemma server_signal_inv:
  assumes inv: "server_inv serve reqs n s" and step: "server_signal c s = Some s'"
  shows "server_inv serve reqs n s'"
proof (cases "SWait \<in> set (sv_workers s)")
  case True
  then have w: "c < length (sv_workers s)" "sv_workers s ! c = SWait" "s' = set_spc c SWoken s"
    using step by (auto simp: server_signal_def split: if_splits)
  have "s\<lparr>sv_owner := sv_owner s\<rparr> = s" by simp
  with server_move_inv [OF inv, of c SWoken "sv_owner s"] w inv show ?thesis
    by (simp add: s_active_def server_inv_def)
qed (use step inv in \<open>simp add: server_signal_def\<close>)

lemma same_owner: "s\<lparr>sv_owner := sv_owner s\<rparr> = (s::server)"
  by simp

lemma server_owner:
  "server_inv serve reqs n s \<Longrightarrow> w < n \<Longrightarrow> s_cs (sv_workers s ! w) \<Longrightarrow> sv_owner s = Some (SWorker w)"
  by (auto simp: server_inv_def s_mutex_def)

lemma server_check_inv:
  assumes inv: "server_inv serve reqs n s" and w: "w < n" and pc: "sv_workers s ! w = SCheck"
    and step: "server_worker serve w c s = Some s'"
  shows "server_inv serve reqs n s'"
proof (cases "steque_items (sv_queue s) = []")
  case True
  have l: "w < length (sv_workers s)" using inv w by (simp add: server_inv_def)
  have "steque_isempty (sv_queue s) = 1" using inv True by (simp add: server_inv_def s_queue_def steque_isempty_law)
  then have s': "s' = set_spc w SWait (s\<lparr>sv_owner := None\<rparr>)" using step pc by (simp add: server_worker_def)
  have "s_mutex s'" unfolding s' using inv l pc by (intro s_mutex_worker) (auto simp: server_inv_def)
  moreover have "s_wake s'" using inv True unfolding s'
    by (auto simp: server_inv_def s_wake_def dest!: in_set_update)
  moreover have "s_log serve s'" using inv mset_concat_map_same [OF l, of s_carry SWait] pc unfolding s'
    by (simp add: server_inv_def s_log_def)
  moreover have "s_queue reqs s'" using inv unfolding s' by (simp add: server_inv_def s_queue_def)
  ultimately show ?thesis using inv s' by (simp add: server_inv_def)
next
  case False
  then have "steque_isempty (sv_queue s) = 0" using inv by (simp add: server_inv_def s_queue_def steque_isempty_law)
  then have s': "s' = set_spc w SPop s" using step pc by (simp add: server_worker_def)
  have "sv_owner s = Some (SWorker w)" using server_owner [OF inv w] pc by simp
  with server_move_inv [OF inv w, of SPop "sv_owner s", unfolded same_owner] pc False s' show ?thesis
    by (simp add: s_active_def)
qed

lemma server_pop_inv:
  assumes inv: "server_inv serve reqs n s" and w: "w < n" and pc: "sv_workers s ! w = SPop"
    and step: "server_worker serve w c s = Some s'"
  shows "server_inv serve reqs n s'"
proof -
  have l: "w < length (sv_workers s)" using inv w by (simp add: server_inv_def)
  then have "SPop \<in> set (sv_workers s)" using pc nth_mem by metis
  then have ne: "steque_items (sv_queue s) \<noteq> []" using inv by (simp add: server_inv_def s_wake_def)
  have wf: "steque_wf (sv_queue s)" using inv by (simp add: server_inv_def s_queue_def)
  obtain it xs where x: "steque_items (sv_queue s) = it # xs" using ne by (cases "steque_items (sv_queue s)") auto
  obtain q where q: "steque_pop EXIT_FAILURE (sv_queue s) = Ret (it, q)" "steque_wf q" "steque_items q = xs"
    using sq.pop_law [OF wf x] by blast
  then have s': "s' = set_spc w (SUnlock it) (s\<lparr>sv_queue := q, sv_popped := sv_popped s @ [it]\<rparr>)"
    using step pc by (simp add: server_worker_def)
  have o: "sv_owner s = Some (SWorker w)" using server_owner [OF inv w] pc by simp
  have "s_mutex (set_spc w (SUnlock it) (s\<lparr>sv_owner := sv_owner s\<rparr>))"
    using inv l pc o by (intro s_mutex_worker) (auto simp: server_inv_def)
  then have "s_mutex s'" unfolding s' by (simp add: s_mutex_def)
  moreover have "s_queue reqs s'" using inv x q unfolding s' by (simp add: server_inv_def s_queue_def)
  moreover have "SPop \<notin> set ((sv_workers s)[w := SUnlock it])"
  proof
    assume "SPop \<in> set ((sv_workers s)[w := SUnlock it])"
    then obtain v where v: "v < length (sv_workers s)" "v \<noteq> w" "sv_workers s ! v = SPop"
      using l by (auto simp: in_set_conv_nth nth_list_update split: if_splits)
    have "length (sv_workers s) = n" using inv by (simp add: server_inv_def)
    with v server_owner [OF inv, of v] o show False by simp
  qed
  then have "s_wake s'" using inv s_active_update [OF l, of "SUnlock it"] unfolding s'
    by (auto simp: server_inv_def s_wake_def s_active_def dest: in_set_update)
  moreover have "mset (concat (map s_carry ((sv_workers s)[w := SUnlock it]))) =
      mset (concat (map s_carry (sv_workers s))) + {#it#}"
    using mset_concat_update [OF l, of s_carry "SUnlock it"] pc by simp
  ultimately show ?thesis using inv unfolding s' by (simp add: server_inv_def s_log_def)
qed

lemma server_worker_inv:
  assumes inv: "server_inv serve reqs n s" and w: "w < n" and total: "\<And>it. returns (serve it)"
    and step: "server_worker serve w c s = Some s'"
  shows "server_inv serve reqs n s'"
proof (cases "sv_workers s ! w")
  case SLock
  with step have "sv_owner s = None" "s' = set_spc w SCheck (s\<lparr>sv_owner := Some (SWorker w)\<rparr>)"
    by (auto simp: server_worker_def split: if_splits)
  with server_move_inv [OF inv w, of SCheck "Some (SWorker w)"] SLock show ?thesis by (simp add: s_active_def)
next
  case SWoken
  with step have "sv_owner s = None" "s' = set_spc w SCheck (s\<lparr>sv_owner := Some (SWorker w)\<rparr>)"
    by (auto simp: server_worker_def split: if_splits)
  with server_move_inv [OF inv w, of SCheck "Some (SWorker w)"] SWoken show ?thesis by (simp add: s_active_def)
next
  case SCheck
  with server_check_inv [OF inv w] step show ?thesis by blast
next
  case SPop
  with server_pop_inv [OF inv w] step show ?thesis by blast
next
  case (SUnlock it)
  with step have "s' = set_spc w (SSignal it) (s\<lparr>sv_owner := None\<rparr>)" by (simp add: server_worker_def)
  with server_move_inv [OF inv w, of "SSignal it" None] SUnlock show ?thesis by (simp add: s_active_def)
next
  case (SSignal it)
  with step have "server_signal c (set_spc w (SServe it) s) = Some s'" by (simp add: server_worker_def)
  moreover have "server_inv serve reqs n (set_spc w (SServe it) s)"
    using server_move_inv [OF inv w, of "SServe it" "sv_owner s", unfolded same_owner] SSignal
    by (simp add: s_active_def)
  ultimately show ?thesis by (rule server_signal_inv [rotated])
next
  case (SServe it)
  have l: "w < length (sv_workers s)" using inv w by (simp add: server_inv_def)
  obtain out where out: "serve it = Ret out" using total [of it] by blast
  then have s': "s' = set_spc w SLock (s\<lparr>sv_log := sv_log s @ [(w, it, out)]\<rparr>)"
    using step SServe by (simp add: server_worker_def)
  have "s_mutex (set_spc w SLock (s\<lparr>sv_owner := sv_owner s\<rparr>))"
    using inv l SServe by (intro s_mutex_worker) (auto simp: server_inv_def)
  then have "s_mutex s'" unfolding s' by (simp add: s_mutex_def)
  moreover have "s_queue reqs s'" using inv unfolding s' by (simp add: server_inv_def s_queue_def)
  moreover have "s_wake s'" using inv s_active_update [OF l, of SLock] unfolding s'
    by (auto simp: server_inv_def s_wake_def s_active_def dest: in_set_update)
  moreover have "mset (concat (map s_carry ((sv_workers s)[w := SLock]))) + {#it#} =
      mset (concat (map s_carry (sv_workers s)))"
    using mset_concat_update [OF l, of s_carry SLock] SServe by simp
  then have "s_log serve s'" using inv out unfolding s' by (auto simp: server_inv_def s_log_def)
  ultimately show ?thesis using inv unfolding s' by (simp add: server_inv_def)
qed (use step in \<open>simp_all add: server_worker_def\<close>)

lemma gfs_handler_inv:
  assumes inv: "server_inv serve reqs n s" and room: "int (length reqs) \<le> INT_MAX" and n: "0 < n"
    and step: "gfs_handler c s = Some s'"
  shows "server_inv serve reqs n s'"
proof (cases "sv_handler s")
  case HIdle
  then obtain it rest where "sv_todo s = it # rest" "sv_owner s = None"
      "s' = s\<lparr>sv_owner := Some Handler, sv_todo := rest, sv_handler := HPut it\<rparr>"
    using step by (auto simp: gfs_handler_def split: list.splits if_splits)
  with inv HIdle show ?thesis by (auto simp: server_inv_defs)
next
  case (HPut it)
  have wf: "steque_wf (sv_queue s)" using inv by (simp add: server_inv_def s_queue_def)
  have "length (map Some reqs) = length (sv_put s @ map Some (h_pending (sv_handler s) @ sv_todo s))"
    using inv by (simp add: server_inv_def s_queue_def)
  then have "length (steque_items (sv_queue s)) < length reqs" using inv HPut
    by (simp add: server_inv_def s_queue_def)
  then have less: "int (length (steque_items (sv_queue s))) < INT_MAX" using room by linarith
  have "c \<notin> steque_nodes (sv_queue s)" using step HPut
    by (auto simp: gfs_handler_def steque_nodes_def split: if_splits)
  then obtain q where q: "steque_enqueue (Some c) (Some it) (sv_queue s) = Ret q" "steque_wf q"
      "steque_items q = steque_items (sv_queue s) @ [Some it]"
    using sq.enq_law [OF wf _ less, of c "Some it"] by blast
  then have "s' = s\<lparr>sv_queue := q, sv_put := sv_put s @ [Some it], sv_handler := HUnlock\<rparr>"
    using step HPut by (auto simp: gfs_handler_def split: if_splits)
  with inv HPut q show ?thesis by (auto simp: server_inv_defs)
next
  case HUnlock
  then have "s' = s\<lparr>sv_owner := None, sv_handler := HSignal\<rparr>" using step by (simp add: gfs_handler_def)
  with inv HUnlock show ?thesis by (auto simp: server_inv_defs)
next
  case HSignal
  let ?t = "s\<lparr>sv_handler := HIdle, sv_handled := sv_handled s @ [(None, gfh_success)]\<rparr>"
  have sg: "server_signal c ?t = Some s'" using step HSignal by (simp add: gfs_handler_def)
  have q: "s_queue reqs ?t" "s_mutex ?t" "s_log serve ?t"
    using inv HSignal by (auto simp: server_inv_defs)
  show ?thesis
  proof (cases "SWait \<in> set (sv_workers s)")
    case True
    then have w: "c < length (sv_workers s)" "sv_workers s ! c = SWait" "s' = set_spc c SWoken ?t"
      using sg by (auto simp: server_signal_def split: if_splits)
    have "s_mutex (set_spc c SWoken (?t\<lparr>sv_owner := sv_owner ?t\<rparr>))"
      using q(2) w by (intro s_mutex_worker) auto
    then have "s_mutex s'" using w by simp
    moreover have "s_log serve s'" using q(3) w mset_concat_map_same [OF w(1), of s_carry SWoken]
      by (simp add: s_log_def)
    moreover have "s_wake s'" using inv s_active_update [OF w(1), of SWoken] w
      by (auto simp: server_inv_def s_wake_def s_active_def dest: in_set_update)
    moreover have "s_queue reqs s'" using q(1) w by (simp add: s_queue_def)
    ultimately show ?thesis using inv w by (simp add: server_inv_def)
  next
    case False
    then have s': "s' = ?t" using sg by (simp add: server_signal_def)
    have "sv_workers s ! 0 \<in> set (sv_workers s)" using inv n by (simp add: server_inv_def)
    moreover from this False inv have "s_active (sv_workers s ! 0)"
      by (auto simp: server_inv_def s_wake_def s_active_def)
    ultimately have "s_wake s'" using inv s' by (auto simp: server_inv_def s_wake_def)
    with q inv s' show ?thesis by (simp add: server_inv_def)
  qed
qed

lemma server_reach_inv:
  assumes "server_reach serve (server_start n reqs) s" and "\<And>it. returns (serve it)"
    and "int (length reqs) \<le> INT_MAX" and "0 < n"
  shows "server_inv serve reqs n s"
  using assms(1)
proof (induction rule: server_reach.induct)
  case sreach_start
  show ?case by (rule server_start_inv)
next
  case (sreach_step s a s')
  note inv = sreach_step.IH
  have n: "length (sv_workers s) = n" "sv_status s = SRunning" using inv by (simp_all add: server_inv_def)
  show ?case
  proof (cases a)
    case (SStep t c)
    show ?thesis
    proof (cases t)
      case Handler
      with sreach_step.hyps(2) SStep n have "gfs_handler c s = Some s'" by simp
      with gfs_handler_inv [OF inv assms(3,4)] show ?thesis by blast
    next
      case (SWorker w)
      with sreach_step.hyps(2) SStep n have "w < n" "server_worker serve w c s = Some s'"
        by (auto split: if_splits)
      with server_worker_inv [OF inv _ assms(2)] show ?thesis by blast
    qed
  next
    case (SSpurious w)
    with sreach_step.hyps(2) n have w: "w < n" "sv_workers s ! w = SWait" "s' = set_spc w SWoken s"
      by (auto split: if_splits)
    with server_move_inv [OF inv w(1), of SWoken "sv_owner s", unfolded same_owner] show ?thesis
      by (simp add: s_active_def)
  qed
qed

section \<open>No deadlock\<close>

lemma server_signal_some: "\<exists>c s'. server_signal c s = Some s'"
proof (cases "SWait \<in> set (sv_workers s)")
  case True
  then obtain c where "c < length (sv_workers s)" "sv_workers s ! c = SWait" by (auto simp: in_set_conv_nth)
  then show ?thesis by (intro exI [of _ c]) (simp add: server_signal_def)
qed (simp add: server_signal_def)

lemma server_signal_set_spc:
  assumes "sv_workers s ! w = SSignal it"
  shows "\<exists>c s'. server_signal c (set_spc w (SServe it) s) = Some s'"
  by (rule server_signal_some)

lemma server_worker_live:
  assumes inv: "server_inv serve reqs n s" and w: "w < n" and act: "s_active (sv_workers s ! w)"
    and o: "s_cs (sv_workers s ! w) \<or> sv_owner s = None"
  shows "\<exists>c s'. server_worker serve w c s = Some s'"
proof (cases "sv_workers s ! w")
  case (SSignal it)
  with server_signal_set_spc [OF this] show ?thesis by (simp add: server_worker_def)
qed (use act o in \<open>auto simp: server_worker_def s_active_def split: outcome.splits\<close>)

lemma gfs_handler_live:
  assumes inv: "server_inv serve reqs n s" and o: "h_cs (sv_handler s) \<or> sv_owner s = None"
    and todo: "sv_handler s \<noteq> HIdle \<or> sv_todo s \<noteq> []"
  shows "\<exists>c s'. gfs_handler c s = Some s'"
proof (cases "sv_handler s")
  case HIdle
  with o todo show ?thesis by (cases "sv_todo s") (auto simp: gfs_handler_def)
next
  case (HPut it)
  have wf: "steque_wf (sv_queue s)" using inv by (simp add: server_inv_def s_queue_def)
  obtain a where "fst (sv_queue s) a = None" using sq.fresh_node [OF wf] by (auto simp: steque_nodes_def dom_def)
  with HPut show ?thesis by (intro exI [of _ a]) (auto simp: gfs_handler_def split: outcome.splits)
next
  case HUnlock
  then show ?thesis by (simp add: gfs_handler_def)
next
  case HSignal
  then show ?thesis using server_signal_some by (simp add: gfs_handler_def)
qed

text \<open>Nothing left to do: every worker waits, every request has been answered once.\<close>

definition server_idle ::
  "(item_info option \<Rightarrow> reply list outcome) \<Rightarrow> item_info list \<Rightarrow> server \<Rightarrow> bool" where
  "server_idle serve reqs s \<longleftrightarrow>
     sv_status s = SRunning \<and> sv_todo s = [] \<and> sv_handler s = HIdle \<and> sv_owner s = None \<and>
     (\<forall>pc \<in> set (sv_workers s). pc = SWait) \<and> steque_items (sv_queue s) = [] \<and>
     sv_popped s = map Some reqs \<and>
     mset (map (\<lambda>(_, it, _). it) (sv_log s)) = mset (map Some reqs) \<and>
     (\<forall>(w, it, out) \<in> set (sv_log s). serve it = Ret out)"

lemma server_stuck_idle:
  assumes inv: "server_inv serve reqs n s" and n: "0 < n"
    and stuck: "\<forall>t c. server_step serve (SStep t c) s = None"
  shows "server_idle serve reqs s"
proof -
  have l: "length (sv_workers s) = n" "sv_status s = SRunning" using inv by (simp_all add: server_inv_def)
  have h: "gfs_handler c s = None" for c using stuck [rule_format, of Handler c] l by simp
  have wk: "server_worker serve w c s = None" if "w < n" for w c
    using stuck [rule_format, of "SWorker w" c] l that by simp
  have o: "sv_owner s = None"
  proof (cases "sv_owner s")
    case (Some t)
    show ?thesis
    proof (cases t)
      case Handler
      with Some inv have "h_cs (sv_handler s)" by (simp add: server_inv_def s_mutex_def)
      moreover from this have "sv_handler s \<noteq> HIdle" by auto
      ultimately show ?thesis using gfs_handler_live [OF inv] h by (metis option.distinct(1))
    next
      case (SWorker w)
      with Some inv have w: "w < n" "s_cs (sv_workers s ! w)" by (auto simp: server_inv_def s_mutex_def)
      then have "s_active (sv_workers s ! w)" by (cases "sv_workers s ! w") (auto simp: s_active_def)
      with server_worker_live [OF inv w(1)] w wk show ?thesis by (metis option.distinct(1))
    qed
  qed simp
  have idle: "sv_handler s = HIdle" "sv_todo s = []"
    using gfs_handler_live [OF inv] o h by (metis option.distinct(1))+
  have wait: "sv_workers s ! w = SWait" if "w < n" for w
  proof -
    have "\<not> s_active (sv_workers s ! w)" using server_worker_live [OF inv that] o wk [OF that]
      by (metis option.distinct(1))
    moreover have "sv_workers s ! w \<in> set (sv_workers s)" using that l by simp
    ultimately show ?thesis using inv by (auto simp: server_inv_def s_wake_def s_active_def)
  qed
  then have all: "\<forall>pc \<in> set (sv_workers s). pc = SWait" using l by (auto simp: in_set_conv_nth)
  then have items: "steque_items (sv_queue s) = []"
    using inv idle by (auto simp: server_inv_def s_wake_def s_active_def)
  then have p: "sv_popped s = map Some reqs" using inv idle by (simp add: server_inv_def s_queue_def)
  have "sv_workers s = replicate n SWait" using wait l by (simp add: list_eq_iff_nth_eq)
  then have "concat (map s_carry (sv_workers s)) = []" by simp
  then have "mset (map (\<lambda>(_, it, _). it) (sv_log s)) = mset (map Some reqs)"
    using inv p by (simp add: server_inv_def s_log_def)
  then show ?thesis using inv l o idle all items p by (simp add: server_idle_def server_inv_def s_log_def)
qed

fun server_exec ::
  "(item_info option \<Rightarrow> reply list outcome) \<Rightarrow> saction list \<Rightarrow> server \<Rightarrow> server option" where
  "server_exec serve [] s = Some s"
| "server_exec serve (a # as) s =
     (case server_step serve a s of None \<Rightarrow> None | Some s' \<Rightarrow> server_exec serve as s')"

lemma server_exec_reach:
  "server_exec serve as s = Some s' \<Longrightarrow> server_reach serve s0 s \<Longrightarrow> server_reach serve s0 s'"
proof (induction serve as s rule: server_exec.induct)
  case (2 serve a as s)
  then show ?case by (auto split: option.splits intro: server_reach.intros)
qed auto

section \<open>Every answer returns\<close>

text \<open>Each descriptor has a size and contents, or fstat fails.\<close>

definition files_ok :: "file_env \<Rightarrow> bool" where
  "files_ok env \<longleftrightarrow>
     (\<forall>fd len. fe_fstat env fd = Some len \<longrightarrow>
        (\<exists>data. len = int (length data) \<and> len \<le> INT_MAX \<and> pread_of (fe_pread env) fd data))"

lemma mt_content_get_returns:
  assumes "NUL \<notin> set f" and "mt_content_init opn (Some f) = Ret st"
  shows "returns (mt_content_get k st)"
proof -
  obtain its where "load_loop opn 256 EXIT_FAILURE f [] 16 = Ret its"
      "st = \<lparr>nitems = int (length (qsort itemcmp its)), items = Some (qsort itemcmp its)\<rparr>"
    using assms(2) by (auto simp: mt_content_init_def content_init_with_def mt_content_def)
  with content_get_table [OF qsort_sorted, of mt_content k its] show ?thesis
    unfolding mt_content_get_def by metis
qed

lemma worker_serve_returns:
  assumes "NUL \<notin> set f" and "mt_content_init opn (Some f) = Ret st" and "files_ok env"
  shows "returns (worker_serve st env item)"
proof (cases item)
  case (Some it)
  obtain fd rw where get: "mt_content_get (ii_filepath it) st = Ret (fd, rw)"
    using mt_content_get_returns [OF assms(1,2)] by (metis surj_pair)
  show ?thesis
  proof (cases "fe_fstat env fd")
    case None
    with get Some show ?thesis by (simp add: worker_serve_def)
  next
    case (Some len)
    with assms(3) obtain data where data: "len = int (length data)" "len \<le> INT_MAX"
        "pread_of (fe_pread env) fd data"
      unfolding files_ok_def by blast
    with serve_loop_file [OF data(3), of 0 "[SendHeader GFS_OK len]"] get Some \<open>item = Some it\<close>
    show ?thesis by (cases "fd = -1") (auto simp: worker_serve_def)
  qed
qed (simp add: worker_serve_def)

section \<open>Properties\<close>

lemma worker_serve_row:
  assumes "\<forall>r\<in>set rows. row_ok 256 r" and "opens_all opn 0 rows" and "distinct (map fst rows)"
    and "mt_content_init opn (Some (listing rows)) = Ret st" and "i < length rows"
    and "fd = opn i (snd (rows ! i))" and "0 \<le> fd" and "fe_fstat env fd = Some (int (length data))"
    and "int (length data) \<le> INT_MAX" and "pread_of (fe_pread env) fd data" and "k \<notin> fst ` set rows"
  shows "(\<exists>ds. worker_serve st env (Some \<lparr>ii_context = ctx, ii_filepath = fst (rows ! i)\<rparr>) =
        Ret (SendHeader GFS_OK (int (length data)) # map SendData ds) \<and>
      concat ds = data \<and> (\<forall>d\<in>set ds. d \<noteq> [] \<and> length d \<le> BUFSIZE)) \<and>
    worker_serve st env (Some \<lparr>ii_context = ctx, ii_filepath = k\<rparr>) =
      Ret [SendHeader GFS_FILE_NOT_FOUND 0]"
proof -
  obtain rw where 1: "mt_content_get (fst (rows ! i)) st = Ret (fd, rw)"
    using mtc.get_row [OF assms(1-5)] assms(6) by blast
  obtain rw' where 2: "mt_content_get k st = Ret (-1, rw')"
    using mtc.get_unknown [OF assms(1-4,11)] by blast
  from serve_loop_file [OF assms(10,9), of 0 "[SendHeader GFS_OK (int (length data))]"]
  obtain ds where "serve_loop (fe_pread env) fd (int (length data)) 0 [SendHeader GFS_OK (int (length data))] =
      Ret ([SendHeader GFS_OK (int (length data))] @ map SendData ds)"
    "concat ds = data" "\<forall>d\<in>set ds. d \<noteq> [] \<and> length d \<le> BUFSIZE" by auto
  with 1 2 assms(7,8) show ?thesis by (auto simp: worker_serve_def)
qed

text \<open>
  C16. A worker answers a request for a key of the content file with the OK header with the
  file's size and then the whole file, in order, in pieces of at most BUFSIZE that are not
  empty, however short the reads are; for every other path it sends FILE\_NOT\_FOUND with
  length 0 and nothing else.
\<close>

theorem worker_serves_file:
  assumes "\<forall>r\<in>set rows. row_ok 256 r" and "opens_all opn 0 rows" and "distinct (map fst rows)"
    and "mt_content_init opn (Some (listing rows)) = Ret st" and "i < length rows"
    and "fd = opn i (snd (rows ! i))" and "0 \<le> fd" and "fe_fstat env fd = Some (int (length data))"
    and "int (length data) \<le> INT_MAX" and "pread_of (fe_pread env) fd data" and "k \<notin> fst ` set rows"
  shows "(\<exists>ds. worker_serve st env (Some \<lparr>ii_context = ctx, ii_filepath = fst (rows ! i)\<rparr>) =
        Ret (SendHeader GFS_OK (int (length data)) # map SendData ds) \<and>
      concat ds = data \<and> (\<forall>d\<in>set ds. d \<noteq> [] \<and> length d \<le> BUFSIZE)) \<and>
    worker_serve st env (Some \<lparr>ii_context = ctx, ii_filepath = k\<rparr>) =
      Ret [SendHeader GFS_FILE_NOT_FOUND 0]"
  using worker_serve_row [OF assms] .

definition demo_files :: file_env where
  "demo_files = \<lparr>fe_fstat = (\<lambda>fd. Some 3),
     fe_pread = (\<lambda>fd n off. Some (take 2 (drop (nat off) ''abc'')))\<rparr>"

lemma demo_files_pread: "pread_of (fe_pread demo_files) fd ''abc''"
  unfolding pread_of_def by (auto simp: demo_files_def BUFSIZE_def intro!: exI [of _ "2::nat"])

theorem worker_serves_file_witness:
  "\<exists>st ds. mt_content_init (\<lambda>i p. 3) (Some (listing [(''/a'', ''x'')])) = Ret st \<and>
     worker_serve st demo_files (Some \<lparr>ii_context = 4, ii_filepath = ''/a''\<rparr>) =
       Ret (SendHeader GFS_OK 3 # map SendData ds) \<and> concat ds = ''abc''"
proof -
  obtain st where st: "mt_content_init (\<lambda>i p. 3) (Some (listing [(''/a'', ''x'')])) = Ret st"
    using mtc.init_law [of "[(''/a'', ''x'')]" "\<lambda>i p. 3"] by (auto simp: row_ok_def)
  from worker_serves_file [OF _ _ _ st, of 0 3 demo_files "''abc''" "''/b''" 4] st demo_files_pread
  show ?thesis by (auto simp: row_ok_def demo_files_def INT_MAX_def)
qed

text \<open>
  C3. However the handler and the workers are interleaved, with spurious wakeups too, no
  request is lost, none is answered twice and the threads cannot deadlock: in a state that an
  execution reaches and in which no thread can make a step, all requests have been queued
  and popped in the order of the calls of the handler, each has been answered exactly once
  with the answer that worker\_serve gives, the queue is empty and every worker waits.
\<close>

theorem mt_server_answers_all:
  assumes "mt_server_main sigs os opn (Some f) reqs = Ret (st, s0, calls)" and "NUL \<notin> set f"
    and "files_ok env" and "int (length reqs) \<le> INT_MAX"
    and "server_exec (worker_serve st env) as s0 = Some s"
    and "\<forall>t c. server_step (worker_serve st env) (SStep t c) s = None"
  shows "server_idle (worker_serve st env) reqs s"
proof -
  obtain c where c: "option_loop mt_server_switch os mt_server_default = Ret c"
    using assms(1) by (auto simp: mt_server_main_def split: if_splits)
  define n where "n = nat (if ms_nthreads c < 1 then 1 else ms_nthreads c)"
  have n: "0 < n" "s0 = server_start n reqs" "mt_content_init opn (Some f) = Ret st"
    using assms(1) c by (auto simp: mt_server_main_def init_threads_def Let_def n_def split: if_splits)
  have "server_reach (worker_serve st env) (server_start n reqs) s"
    using server_exec_reach assms(5) n(2) sreach_start by blast
  from server_reach_inv [OF this worker_serve_returns [OF assms(2) n(3) assms(3)] assms(4) n(1)]
  show ?thesis using server_stuck_idle n(1) assms(6) by blast
qed

definition demo_schedule_s :: "saction list" where
  "demo_schedule_s = map (SStep Handler) [0, 0, 0, 0] @ map (SStep (SWorker 0)) [0, 0, 0, 0, 0, 0, 0, 0]"

definition demo_reqs :: "item_info list" where
  "demo_reqs = [\<lparr>ii_context = 4, ii_filepath = ''/a''\<rparr>]"

definition demo_env_s :: file_env where
  "demo_env_s = \<lparr>fe_fstat = (\<lambda>fd. None), fe_pread = (\<lambda>fd n off. None)\<rparr>"

definition demo_content :: content where
  "demo_content = \<lparr>nitems = 0, items = Some []\<rparr>"

lemma demo_server_run:
  "\<exists>s. server_exec (worker_serve demo_content demo_env_s) demo_schedule_s (server_start 1 demo_reqs) = Some s \<and>
     sv_todo s = [] \<and> sv_handler s = HIdle \<and> sv_workers s = [SWait]"
proof -
  have "map_option (\<lambda>s. (sv_todo s, sv_handler s, sv_workers s))
      (server_exec (worker_serve demo_content demo_env_s) demo_schedule_s (server_start 1 demo_reqs)) =
    Some ([], HIdle, [SWait])" by code_simp
  then show ?thesis by auto
qed

lemma demo_server_main:
  "mt_server_main (True, True) [(CHR ''t'', Some ''0'')] (\<lambda>i p. 3) (Some []) demo_reqs =
     Ret (demo_content, server_start 1 demo_reqs,
          [SetPort 10880, SetMaxPending 21, SetHandler, SetHandlerArg None, Serve])"
proof -
  have "option_loop mt_server_switch [(CHR ''t'', Some ''0'')] mt_server_default =
      Ret (mt_server_default\<lparr>ms_nthreads := 0\<rparr>)" by code_simp
  moreover have "mt_content_init (\<lambda>i p. 3) (Some []) = Ret demo_content" by code_simp
  ultimately show ?thesis by (simp add: mt_server_main_def mt_server_default_def init_threads_def)
qed

theorem mt_server_answers_all_witness:
  "\<exists>s. server_exec (worker_serve demo_content demo_env_s) demo_schedule_s (server_start 1 demo_reqs) = Some s \<and>
     server_idle (worker_serve demo_content demo_env_s) demo_reqs s"
proof -
  obtain s where s: "server_exec (worker_serve demo_content demo_env_s) demo_schedule_s
        (server_start 1 demo_reqs) = Some s"
      "sv_todo s = []" "sv_handler s = HIdle" "sv_workers s = [SWait]"
    using demo_server_run by blast
  have "server_step (worker_serve demo_content demo_env_s) (SStep t c) s = None" for t c
    using s(2-4) by (cases t) (auto simp: gfs_handler_def server_worker_def)
  moreover have "files_ok demo_env_s" by (simp add: files_ok_def demo_env_s_def)
  ultimately show ?thesis
    using mt_server_answers_all [OF demo_server_main _ _ _ s(1)] s(1)
    by (auto simp: demo_reqs_def INT_MAX_def)
qed

end
