(* ===== verification/GFProtocol.thy ===== *)
theory GFProtocol
  imports GFServer
begin

text \<open>
  The two ends of the Getfile protocol together: what the client makes of the headers the
  server sends, what the server makes of the request the client sends, and where the client
  goes wrong.
\<close>

section \<open>Headers without content\<close>

lemma gfc_not_ok_word:
  assumes "w \<noteq> []" and "\<forall>c\<in>set w. c \<noteq> CR \<and> c \<noteq> LF \<and> c \<noteq> NUL"
  shows "gfc_not_ok r (pre @ w @ CRLFCRLF @ NUL # z) (length pre) =
    Ret (if w = ''FILE_NOT_FOUND'' then (0, r\<lparr>gr_status := GF_FILE_NOT_FOUND\<rparr>)
         else if w = ''ERROR'' then (0, r\<lparr>gr_status := GF_ERROR\<rparr>)
         else if w = ''INVALID'' then (-1, r\<lparr>gr_status := GF_INVALID\<rparr>)
         else if gr_status r = GF_INVALID then (-1, r) else (0, r))"
proof -
  have "\<forall>c\<in>set w. c \<notin> set CRLFCRLF \<and> c \<noteq> NUL" using assms by auto
  from strtok_token [OF assms(1) this, of CR "length pre" pre "[LF, CR, LF] @ NUL # z"]
  have "strtok (pre @ w @ CRLFCRLF @ NUL # z) (length pre) CRLFCRLF =
      Ret (pre @ w @ NUL # [LF, CR, LF] @ NUL # z, Some (length pre), length pre + length w + 1)"
    by simp
  moreover have "NUL \<notin> set w" using assms by auto
  ultimately show ?thesis by (auto simp: gfc_not_ok_def Let_def)
qed

lemma gfc_first_word:
  assumes "w \<noteq> []" and "\<forall>c\<in>set w. c \<noteq> CR \<and> c \<noteq> LF \<and> c \<noteq> NUL \<and> c \<noteq> SP" and "w \<noteq> ''OK''"
    and "length (''GETFILE '' @ w @ CRLFCRLF) < BUFSIZE"
  shows "gfc_first r n (''GETFILE '' @ w @ CRLFCRLF) =
    Ret (if w = ''FILE_NOT_FOUND'' then Stop 0 (r\<lparr>gr_status := GF_FILE_NOT_FOUND\<rparr>)
         else if w = ''ERROR'' then Stop 0 (r\<lparr>gr_status := GF_ERROR\<rparr>)
         else if w = ''INVALID'' then Stop (-1) (r\<lparr>gr_status := GF_INVALID\<rparr>)
         else if gr_status r = GF_INVALID then Stop (-1) r else Stop 0 r)"
proof -
  obtain z where "rx_buffer (''GETFILE '' @ w @ CRLFCRLF) = (''GETFILE '' @ w @ CRLFCRLF) @ NUL # z"
    using rx_buffer_room [OF assms(4)] by blast
  then have buf: "rx_buffer (''GETFILE '' @ w @ CRLFCRLF) = ''GETFILE '' @ (w @ CRLFCRLF) @ NUL # z"
    by simp
  have tok: "\<forall>c\<in>set (w @ CRLFCRLF). c \<notin> set [SP] \<and> c \<noteq> NUL" using assms(2) by auto
  have 1: "strtok (''GETFILE '' @ (w @ CRLFCRLF) @ NUL # z) 0 [SP] =
      Ret (''GETFILE'' @ NUL # (w @ CRLFCRLF) @ NUL # z, Some 0, 8)"
    using strtok_token [of "''GETFILE''" "[SP]" SP 0 "[]" "(w @ CRLFCRLF) @ NUL # z"] by simp
  have 2: "strtok (''GETFILE'' @ NUL # (w @ CRLFCRLF) @ NUL # z) 8 [SP] =
      Ret ((''GETFILE'' @ [NUL]) @ w @ CRLFCRLF @ NUL # z, Some 8, 8 + length (w @ CRLFCRLF))"
    using strtok_last_token [OF _ tok, of 8 "''GETFILE'' @ [NUL]" z] by simp
  define b where "b = (''GETFILE'' @ [NUL]) @ w @ CRLFCRLF @ NUL # z"
  have "NUL \<notin> set (w @ CRLFCRLF)" using tok by blast
  then have "cstr ((w @ CRLFCRLF) @ NUL # z) = w @ CRLFCRLF" by (rule cstr_append_NUL)
  moreover have "drop 8 b = (w @ CRLFCRLF) @ NUL # z" by (simp add: b_def)
  ultimately have "cstr (drop 8 b) = w @ CRLFCRLF" "cstr (drop 0 b) = ''GETFILE''"
    by (simp_all only:) (simp add: b_def)
  moreover have "length (w @ CRLFCRLF) \<noteq> length ''OK''" by simp
  then have "w @ CRLFCRLF \<noteq> ''OK''" by metis
  moreover have "gfc_not_ok r b 8 =
    Ret (if w = ''FILE_NOT_FOUND'' then (0, r\<lparr>gr_status := GF_FILE_NOT_FOUND\<rparr>)
         else if w = ''ERROR'' then (0, r\<lparr>gr_status := GF_ERROR\<rparr>)
         else if w = ''INVALID'' then (-1, r\<lparr>gr_status := GF_INVALID\<rparr>)
         else if gr_status r = GF_INVALID then (-1, r) else (0, r))"
  proof -
    have "length (''GETFILE'' @ [NUL]) = 8" by simp
    moreover have "\<forall>c\<in>set w. c \<noteq> CR \<and> c \<noteq> LF \<and> c \<noteq> NUL" using assms(2) by blast
    note gfc_not_ok_word [OF assms(1) this, of r "''GETFILE'' @ [NUL]" z, folded b_def]
    ultimately show ?thesis by (simp only:)
  qed
  ultimately show ?thesis
    unfolding gfc_first_def buf 1 bind_outcome.simps prod.case 2 b_def [symmetric] by simp
qed

section \<open>Properties\<close>





text \<open>
  The client formats its request into 100 bytes: a path of 84 characters or more, which
  the server's MAX\_REQUEST\_LEN and the download program allow, overruns the buffer.
\<close>

theorem gfc_perform_path_overrun:
  assumes "env_gai env = 0" and "connect_loop (env_addrs env) = Some fd" and "84 \<le> length (gr_path r)"
  shows "gfc_perform env r = Undef"
proof -
  obtain st where "gfc_connect (env_addrs env) r = (Some fd, r\<lparr>gr_status := st\<rparr>)"
    using gfc_connectE [OF assms(2)] by blast
  with assms(1,3) show ?thesis by (simp add: gfc_perform_def gfc_request_def MSGSIZE_def)
qed

theorem gfc_perform_path_overrun_witness:
  "gfc_perform (demo_env []) (gfc_set_path (replicate 84 CHR ''a'') demo_request) = Undef"
  using gfc_perform_path_overrun
    [of "demo_env []" 3 "gfc_set_path (replicate 84 CHR ''a'') demo_request"]
  by (simp add: gfc_set_path_def)

section \<open>A header that arrives in two pieces\<close>

lemma c_size_neg4: "c_size (c_int (- 4)) = 2 ^ 64 - 4"
  by (simp add: c_size_def c_int_def)

lemma gfc_ok_split:
  assumes "n < 2 ^ 30" and "gr_file_length r = 0"
  shows "gfc_ok r (int (length (''GETFILE OK '' @ show_nat n)))
      (''GETFILE'' @ NUL # ''OK'' @ NUL # show_nat n @ NUL # z) 0 8 11 =
    Ret (Go (r\<lparr>gr_status := GF_OK, gr_file_length := int n, gr_bytes_received := 2 ^ 64 - 4\<rparr>)
          (int n + 4) None)"
proof -
  define b where "b = ''GETFILE'' @ NUL # ''OK'' @ NUL # show_nat n @ NUL # z"
  define k where "k = length (show_nat n)"
  have "\<forall>c\<in>set (show_nat n). c \<notin> set CRLFCRLF \<and> c \<noteq> NUL"
    by (auto dest: show_nat_digits isdigit_not_special)
  from strtok_last_token [OF show_nat_nonempty this, of 11 "''GETFILE'' @ NUL # ''OK'' @ [NUL]" z]
  have 1: "strtok b 11 CRLFCRLF = Ret (b, Some 11, 11 + k)" by (simp add: b_def k_def)
  have 2: "strtok b (11 + k) [LF, CR, LF] = Ret (b, None, 11 + k)"
    using strtok_none [of "[LF, CR, LF]" "11 + k" "''GETFILE'' @ NUL # ''OK'' @ NUL # show_nat n" z]
    by (simp add: b_def k_def)
  have 3: "cstr b = ''GETFILE''" "cstr (drop 8 b) = ''OK''" "cstr (drop 11 b) = show_nat n"
    by (simp_all add: b_def)
  have len: "int (length (''GETFILE OK '' @ show_nat n)) = int k + 11" by (simp add: k_def)
  have n: "scan_zu (show_nat n) = Some (int n)"
    by (rule scan_zu_show_nat) (use assms(1) in \<open>rule order.strict_trans\<close>, simp)
  have "c_int (- 4) = -4" by (simp add: c_int_def)
  moreover have "c_int (int n + 4) = int n + 4" using assms(1) by (intro c_int_id) auto
  ultimately show ?thesis
    unfolding b_def [symmetric] len using 1 2 3 n assms(2) c_size_neg4
    by (simp add: gfc_ok_def k_def [symmetric])
qed

lemma gfc_first_split:
  assumes "n < 2 ^ 30" and "gr_file_length r = 0" and "length (''GETFILE OK '' @ show_nat n) < BUFSIZE"
  shows "gfc_first r (int (length (''GETFILE OK '' @ show_nat n))) (''GETFILE OK '' @ show_nat n) =
    Ret (Go (r\<lparr>gr_status := GF_OK, gr_file_length := int n, gr_bytes_received := 2 ^ 64 - 4\<rparr>)
          (int n + 4) None)"
proof -
  define d where "d = ''GETFILE OK '' @ show_nat n"
  obtain z where "rx_buffer d = d @ NUL # z"
    using rx_buffer_room [OF assms(3)] by (auto simp: d_def)
  then have buf: "rx_buffer d = ''GETFILE '' @ ''OK'' @ SP # show_nat n @ NUL # z" by (simp add: d_def)
  define A where "A = show_nat n @ NUL # z"
  note ok = gfc_ok_split [OF assms(1,2), of z, folded A_def d_def]
  have "gfc_first r (int (length d)) d =
      gfc_ok r (int (length d)) (''GETFILE'' @ NUL # ''OK'' @ NUL # A) 0 8 11"
    using strtok_status_line [of "''OK''" A] unfolding gfc_first_def buf A_def [symmetric] by simp
  with ok show ?thesis by (simp add: d_def)
qed

text \<open>
  The client takes the first piece for the whole header. When the line end of an OK
  header and the content come in a later receive, the call still returns 0 with status OK and
  the announced length, but the delivered file has the four bytes of the line end in front.
\<close>

theorem gfc_perform_split_header:
  assumes "env_gai env = 0" and "connect_loop (env_addrs env) = Some fd"
    and "length (gr_path r) \<le> 83" and "gr_file_length r = 0" and "gr_write_func r = Some f"
    and "env_rx env = RData (''GETFILE OK '' @ show_nat n) # rest" and "n < 2 ^ 30"
    and "length (''GETFILE OK '' @ show_nat n) < BUFSIZE"
    and "stream rest" and "net_data rest = CRLFCRLF @ content" and "length content = n"
  shows "\<exists>r' ws. gfc_perform env r = Ret (0, r', ws) \<and> gfc_get_status r' = GF_OK \<and>
    gfc_get_filelen r' = int n \<and> gfc_get_bytesreceived r' = int n \<and>
    concat (map (\<lambda>(_, d, _). d) ws) = CRLFCRLF @ content"
proof -
  define d where "d = ''GETFILE OK '' @ show_nat n"
  have d: "length d \<le> BUFSIZE" "d \<noteq> []" using assms(8) by (simp_all add: d_def)
  obtain st where p: "gfc_perform env r = gfc_loop (env_rx env) 100 True (r\<lparr>gr_status := st\<rparr>) []"
    using gfc_perform_connected [OF assms(1-3)] by blast
  let ?r = "r\<lparr>gr_status := GF_OK, gr_file_length := int n, gr_bytes_received := 2 ^ 64 - 4\<rparr>"
  have "gfc_perform env r = gfc_loop rest (int n + 4) False ?r []"
    using p assms(6) gfc_loop_first [OF d, of rest "r\<lparr>gr_status := st\<rparr>"]
      gfc_first_split [OF assms(7), of "r\<lparr>gr_status := st\<rparr>"] assms(4,8)
    unfolding d_def [symmetric] by simp
  moreover have m: "length (net_data rest) = n + 4" using assms(10,11) by simp
  have "rest \<noteq> []" using assms(10) by auto
  moreover obtain ws where
    "gfc_loop rest (int (n + 4)) False ?r [] = gfc_loop [] 0 False
       (?r\<lparr>gr_bytes_received := (if rest = [] then gr_bytes_received ?r
          else c_size (gr_bytes_received ?r + int (n + 4)))\<rparr>) ([] @ ws)"
    "concat (map (\<lambda>(_, d, _). d) ws) = net_data rest"
    using gfc_loop_stream [OF assms(9) m, of 0 ?r f "[]" "[]"] assms(5,7) by auto
  moreover have "n < 2 ^ 64" using assms(7) by (rule order.strict_trans) simp
  then have "c_size (2 ^ 64 - 4 + int (n + 4)) = int n" by (simp add: c_size_def)
  ultimately show ?thesis using assms(10)
    by (auto simp: gfc_loop_done gfc_get_status_def gfc_get_filelen_def gfc_get_bytesreceived_def)
qed

theorem gfc_perform_split_header_witness:
  "\<exists>r' ws. gfc_perform (demo_env [RData (''GETFILE OK '' @ show_nat 2), RData (CRLFCRLF @ ''hi'')])
       demo_request = Ret (0, r', ws) \<and> concat (map (\<lambda>(_, d, _). d) ws) = CRLFCRLF @ ''hi''"
proof -
  have "length (''GETFILE OK '' @ show_nat 2) < BUFSIZE" by (simp add: BUFSIZE_def)
  from gfc_perform_split_header [of "demo_env [RData (''GETFILE OK '' @ show_nat 2), RData (CRLFCRLF @ ''hi'')]"
      3 demo_request 1 2 "[RData (CRLFCRLF @ ''hi'')]" "''hi''", OF _ _ _ _ _ _ _ this]
  show ?thesis by fastforce
qed

end
