(* ===== verification/GetfileSystem.thy ===== *)
theory GetfileSystem
  imports MTServer GFProtocol
begin

text \<open>
  One Getfile request through all parts: the table of files and the worker of the multithreaded
  server, the functions of gflib/gfserver.c that it calls, the network, and gfc\_perform of
  gflib/gfclient.c. (mtgf links the two libraries as object files with the interface of gflib.)
\<close>

section \<open>From the worker's calls to the client's socket\<close>

text \<open>A call of the worker, done by the server library; send takes all it is given.\<close>

definition send_reply :: "gfcontext \<Rightarrow> reply \<Rightarrow> server_event list \<Rightarrow> server_event list" where
  "send_reply ctx rp ev =
     (case rp of
        SendHeader st n \<Rightarrow> snd (gfs_sendheader (int (length (gfs_header st (nat n)))) ctx st (nat n) ev)
      | SendData d \<Rightarrow> snd (gfs_send (int (length d)) ctx d (length d) ev))"

fun sent_bytes :: "int \<Rightarrow> server_event list \<Rightarrow> char list" where
  "sent_bytes fd [] = []"
| "sent_bytes fd (Sent f d # ev) = (if f = fd then d @ sent_bytes fd ev else sent_bytes fd ev)"
| "sent_bytes fd (e # ev) = sent_bytes fd ev"

definition reply_bytes :: "gfcontext \<Rightarrow> reply list \<Rightarrow> char list" where
  "reply_bytes ctx calls = sent_bytes (gc_clientfd ctx) (fold (send_reply ctx) calls [])"

lemma sent_bytes_append: "sent_bytes fd (a @ b) = sent_bytes fd a @ sent_bytes fd b"
  by (induction fd a rule: sent_bytes.induct) auto

lemma send_reply_append: "send_reply ctx c ev = ev @ send_reply ctx c []"
  by (cases c) (simp_all add: send_reply_def gfs_sendheader_def gfs_send_def)

lemma send_replies_append: "fold (send_reply ctx) calls ev = ev @ fold (send_reply ctx) calls []"
proof (induction calls arbitrary: ev)
  case (Cons c calls)
  have "fold (send_reply ctx) (c # calls) ev = send_reply ctx c ev @ fold (send_reply ctx) calls []"
    using Cons.IH [of "send_reply ctx c ev"] by (simp only: fold_Cons comp_def)
  also have "\<dots> = ev @ send_reply ctx c [] @ fold (send_reply ctx) calls []"
    by (subst send_reply_append) (simp only: append_assoc)
  also have "send_reply ctx c [] @ fold (send_reply ctx) calls [] = fold (send_reply ctx) (c # calls) []"
    using Cons.IH [of "send_reply ctx c []"] by (simp only: fold_Cons comp_def)
  finally show ?case .
qed simp

lemma sent_bytes_replies:
  "sent_bytes (gc_clientfd ctx) (fold (send_reply ctx) calls ev) =
     sent_bytes (gc_clientfd ctx) ev @ reply_bytes ctx calls"
  unfolding reply_bytes_def by (subst send_replies_append) (rule sent_bytes_append)

lemma reply_bytes_Cons:
  "reply_bytes ctx (c # calls) = sent_bytes (gc_clientfd ctx) (send_reply ctx c []) @ reply_bytes ctx calls"
  by (simp only: reply_bytes_def [of ctx "c # calls"] fold_Cons comp_def sent_bytes_replies)

lemma sent_reply:
  "sent_bytes (gc_clientfd ctx) (send_reply ctx (SendHeader st n) []) = gfs_header st (nat n)"
  "sent_bytes (gc_clientfd ctx) (send_reply ctx (SendData d) []) = d"
  by (simp_all add: send_reply_def gfs_sendheader_def gfs_send_def)

lemma reply_bytes_data: "reply_bytes ctx (map SendData ds) = concat ds"
proof (induction ds)
  case Nil
  show ?case by (simp add: reply_bytes_def)
qed (simp add: reply_bytes_Cons sent_reply)

section \<open>A request and its answer\<close>

text \<open>The table built from the rows has a readable file with these bytes in row \<open>i\<close>.\<close>

definition serves_row ::
  "(nat \<Rightarrow> string \<Rightarrow> int) \<Rightarrow> (string \<times> string) list \<Rightarrow> file_env \<Rightarrow> content \<Rightarrow> nat \<Rightarrow> char list \<Rightarrow> bool" where
  "serves_row opn rows fenv st i data \<longleftrightarrow>
     (\<forall>r\<in>set rows. row_ok 256 r) \<and> opens_all opn 0 rows \<and> distinct (map fst rows) \<and>
     mt_content_init opn (Some (listing rows)) = Ret st \<and> i < length rows \<and> 0 \<le> opn i (snd (rows ! i)) \<and>
     fe_fstat fenv (opn i (snd (rows ! i))) = Some (int (length data)) \<and> int (length data) \<le> INT_MAX \<and>
     pread_of (fe_pread fenv) (opn i (snd (rows ! i))) data"

text \<open>A client that can connect, with a write callback, for a path that its buffer holds.\<close>

definition asks_for :: "client_env \<Rightarrow> gfcrequest \<Rightarrow> string \<Rightarrow> bool" where
  "asks_for cenv r path \<longleftrightarrow>
     env_gai cenv = 0 \<and> connect_loop (env_addrs cenv) \<noteq> None \<and> gr_path r = path \<and> length path \<le> 83 \<and>
     gr_file_length r = 0 \<and> gr_write_func r \<noteq> None"

text \<open>
  What the network delivers: the bytes that were sent, in any pieces, except that the first piece
  holds the whole header and what comes with it is left alone by the tokenizer of the client.
\<close>

definition delivers :: "net \<Rightarrow> string \<Rightarrow> char list \<Rightarrow> bool" where
  "delivers net header bytes \<longleftrightarrow>
     (\<exists>c rest. net = RData (header @ c) # rest \<and> stream rest \<and> clean c \<and> length (header @ c) < BUFSIZE \<and>
        header @ c @ net_data rest = bytes)"

section \<open>Properties\<close>



text \<open>A table with one file of three bytes; the answer arrives in two pieces.\<close>

definition demo_ctx :: gfcontext where
  "demo_ctx = \<lparr>gc_clientfd = 4, gc_status = 0, gc_filepath = ''/f''\<rparr>"

definition demo_net :: net where
  "demo_net = [RData (gfs_header GFS_OK 3 @ ''a''), RData ''bc'']"

lemma system_demo_serves:
  obtains st where "serves_row (\<lambda>i p. 3) [(''/f'', ''x'')] demo_files st 0 ''abc''"
proof -
  obtain st where "mt_content_init (\<lambda>i p. 3) (Some (listing [(''/f'', ''x'')])) = Ret st"
    using mtc.init_law [of "[(''/f'', ''x'')]" "\<lambda>i p. 3"] by (auto simp: row_ok_def)
  then have "serves_row (\<lambda>i p. 3) [(''/f'', ''x'')] demo_files st 0 ''abc''"
    using demo_files_pread by (auto simp: serves_row_def row_ok_def demo_files_def INT_MAX_def)
  then show thesis by (rule that)
qed


end
