(* ===== verification/GFServerMain.thy ===== *)
theory GFServerMain
  imports GFServer Content Options
begin

text \<open>
  multithreading/gflib/gfserver\_main.c: the main program of the single-threaded Getfile server.
  The handler is in handler.o, which is not part of the sources: it is function 1.
\<close>

record server_config =
  sc_content_map :: "string option"
  sc_port :: int

definition gf_server_default :: server_config where
  "gf_server_default = \<lparr>sc_content_map = Some ''content.txt'', sc_port = 10880\<rparr>"

definition gf_server_switch :: "char \<Rightarrow> string option \<Rightarrow> server_config \<Rightarrow> server_config outcome" where
  "gf_server_switch ch arg c =
     (if ch = CHR ''p'' then atoi_arg arg (\<lambda>v. c\<lparr>sc_port := c_ushort v\<rparr>)
      else if ch = CHR ''m'' then Ret (c\<lparr>sc_content_map := arg\<rparr>)
      else if ch = CHR ''h'' then Exits 0
      else Exits 1)"

text \<open>
  main: \<open>junk\<close> is what malloc returns for the server object, \<open>env\<close> the network. The content map
  is read before the port is checked.
\<close>

definition gf_server_main ::
  "opts \<Rightarrow> (nat \<Rightarrow> string \<Rightarrow> int) \<Rightarrow> (string \<Rightarrow> string option) \<Rightarrow> gfserver \<Rightarrow> server_env \<Rightarrow>
   (content \<times> gfserver \<times> char list \<times> nat \<times> server_event list) outcome" where
  "gf_server_main os opn files junk env =
     bind_outcome (option_loop gf_server_switch os gf_server_default) (\<lambda>c.
       case sc_content_map c of
         None \<Rightarrow> Undef
       | Some m \<Rightarrow>
           bind_outcome (content_init opn (files m)) (\<lambda>st.
             if 65331 < sc_port c then Exits EXIT_FAILURE
             else (let gfs = gfserver_set_handlerarg None (gfserver_set_maxpending 35
                         (gfserver_set_port (sc_port c) (gfserver_set_handler (Some 1)
                           (gfserver_create junk))))
                   in bind_outcome (gfserver_serve env gfs) (\<lambda>r. Ret (st, r)))))"

text \<open>The server that main hands to the library, whatever malloc returned.\<close>

lemma gf_server_main_configured:
  assumes "gf_server_main os opn files junk env = Ret (st, gfs, rest)"
  shows "\<exists>g. gfserver_serve env g = Ret (gfs, rest) \<and> gs_handler g = Some 1 \<and> gs_arg g = None \<and>
    gs_max_npending g = 35 \<and> 0 \<le> gs_port g \<and> gs_port g \<le> 65331"
proof -
  obtain c m where c: "option_loop gf_server_switch os gf_server_default = Ret c" "sc_content_map c = Some m"
    using assms by (cases "option_loop gf_server_switch os gf_server_default")
      (auto simp: gf_server_main_def split: option.splits)
  have range: "0 \<le> sc_port c \<and> sc_port c < 2 ^ 16"
    by (rule option_loop_inv [OF c(1)])
      (auto simp: gf_server_default_def gf_server_switch_def atoi_arg_def c_ushort_def split: option.splits if_splits)
  then have "c_ushort (sc_port c) = sc_port c" by (intro c_ushort_id) auto
  with assms c range show ?thesis
    by (auto simp: gf_server_main_def Let_def gfserver_set_handlerarg_def gfserver_set_maxpending_def
        gfserver_set_port_def gfserver_set_handler_def split: if_splits)
qed

end
