(* ===== verification/Workload.thy ===== *)
theory Workload
  imports CStrings
begin

text \<open>
  multithreading/gflib/workload.c and multithreading/mtgf/workload.c: the list of paths that
  the clients request, handed out in turn. The two files are the same but for
  workload\_destroy, which only the first has.
\<close>

section \<open>State and operations\<close>

definition WORKLOAD_SEQ :: int where "WORKLOAD_SEQ = 0"
definition WORKLOAD_RND :: int where "WORKLOAD_RND = 1"

text \<open>The static variables: the array of 100 paths (None is NULL), the count, counter and mode.\<close>

record workload =
  wl_paths :: "string option list"
  wl_unique :: int
  wl_counter :: int
  wl_mode :: int

definition workload_start :: workload where
  "workload_start =
     \<lparr>wl_paths = replicate 100 None, wl_unique = 0, wl_counter = 0, wl_mode = WORKLOAD_SEQ\<rparr>"

text \<open>fscanf of a word: None at the end of the file.\<close>

definition fscanf_word :: "string \<Rightarrow> (string \<times> string) option" where
  "fscanf_word f =
     (let g = dropWhile isspace f
      in if g = [] then None
         else Some (takeWhile (\<lambda>c. \<not> isspace c) g, dropWhile (\<lambda>c. \<not> isspace c) g))"

lemma fscanf_word_decreases: "fscanf_word f = Some (w, f') \<Longrightarrow> length f' < length f"
proof -
  assume s: "fscanf_word f = Some (w, f')"
  obtain c cs where g: "dropWhile isspace f = c # cs"
    using s by (cases "dropWhile isspace f") (auto simp: fscanf_word_def)
  then have "\<not> isspace c" using hd_dropWhile [of isspace f] by simp
  then have "f' = dropWhile (\<lambda>c. \<not> isspace c) cs" using s g by (simp add: fscanf_word_def)
  then have "length f' \<le> length cs" by (simp add: length_dropWhile_le)
  also have "\<dots> < length (dropWhile isspace f)" using g by simp
  also have "\<dots> \<le> length f" by (rule length_dropWhile_le)
  finally show "length f' < length f" .
qed

text \<open>The loop of workload\_init: temp\_buf has 256 bytes, the array 100 places.\<close>

function workload_read :: "string \<Rightarrow> string option list \<Rightarrow> int \<Rightarrow> (string option list \<times> int) outcome" where
  "workload_read f paths i =
     (case fscanf_word f of
        None \<Rightarrow> Ret (paths, i)
      | Some (w, f') \<Rightarrow>
          if 256 \<le> length w then Undef
          else if 100 \<le> i then Undef
          else workload_read f' (paths[nat i := Some (cstr w)]) (c_int (i + 1)))"
  by pat_completeness auto
termination
  by (relation "measure (\<lambda>(f, _, _). length f)") (auto dest: fscanf_word_decreases)

declare workload_read.simps [simp del]

definition workload_init :: "string option \<Rightarrow> workload \<Rightarrow> (int \<times> workload) outcome" where
  "workload_init file w =
     (case file of
        None \<Rightarrow> Ret (EXIT_FAILURE, w)
      | Some f \<Rightarrow>
          bind_outcome (workload_read f (wl_paths w) 0) (\<lambda>(paths, i).
            Ret (EXIT_SUCCESS, w\<lparr>wl_paths := paths, wl_unique := c_ushort i\<rparr>)))"

definition workload_num_unique_paths :: "workload \<Rightarrow> int" where
  "workload_num_unique_paths w = wl_unique w"

text \<open>
  An array access and C's remainder, which takes the sign of the dividend. \<open>rnd\<close> is the
  result of rand(), with RAND\_MAX = 2 ^ 31 - 1; the quotient is exact in double arithmetic
  for these sizes.
\<close>

definition path_at :: "workload \<Rightarrow> int \<Rightarrow> string option outcome" where
  "path_at w i = (if i < 0 \<or> 100 \<le> i then Undef else Ret (wl_paths w ! nat i))"

definition c_rem :: "int \<Rightarrow> int \<Rightarrow> int" where
  "c_rem a b = (if a < 0 then - ((- a) mod b) else a mod b)"

definition workload_get_path :: "int \<Rightarrow> workload \<Rightarrow> (string option \<times> workload) outcome" where
  "workload_get_path rnd w =
     (if wl_mode w = WORKLOAD_RND
      then bind_outcome (path_at w (wl_unique w * rnd div 2 ^ 31)) (\<lambda>p. Ret (p, w))
      else (let entry = wl_counter w; w' = w\<lparr>wl_counter := c_int (wl_counter w + 1)\<rparr>
            in if wl_unique w = 0 then Undef
               else bind_outcome (path_at w' (c_rem entry (wl_unique w))) (\<lambda>p. Ret (p, w'))))"

text \<open>Free every entry and clear it; the counter stays.\<close>

fun destroy_loop :: "nat \<Rightarrow> string option list \<Rightarrow> string option list" where
  "destroy_loop 0 ps = ps"
| "destroy_loop (Suc n) ps = (destroy_loop n ps)[n := None]"

definition workload_destroy :: "workload \<Rightarrow> workload" where
  "workload_destroy w = w\<lparr>wl_paths := destroy_loop (nat (wl_unique w)) (wl_paths w), wl_unique := 0\<rparr>"

text \<open>The calls that the boss threads make: \<open>m\<close> paths one after the other.\<close>

fun get_paths :: "nat \<Rightarrow> workload \<Rightarrow> (string option list \<times> workload) outcome" where
  "get_paths 0 w = Ret ([], w)"
| "get_paths (Suc m) w =
     bind_outcome (workload_get_path 0 w) (\<lambda>(p, w1).
       bind_outcome (get_paths m w1) (\<lambda>(ps, w2). Ret (p # ps, w2)))"

text \<open>The copy of mtgf.\<close>

definition mt_workload_init :: "string option \<Rightarrow> workload \<Rightarrow> (int \<times> workload) outcome" where
  "mt_workload_init = workload_init"

definition mt_workload_num_unique_paths :: "workload \<Rightarrow> int" where
  "mt_workload_num_unique_paths = workload_num_unique_paths"

definition mt_workload_get_path :: "int \<Rightarrow> workload \<Rightarrow> (string option \<times> workload) outcome" where
  "mt_workload_get_path = workload_get_path"

section \<open>Reading the file\<close>

text \<open>A file of words, one on each line.\<close>

abbreviation words :: "string list \<Rightarrow> string" where
  "words ws \<equiv> concat (map (\<lambda>w. w @ [LF]) ws)"

definition word_ok :: "string \<Rightarrow> bool" where
  "word_ok w \<longleftrightarrow> w \<noteq> [] \<and> length w < 256 \<and> (\<forall>c\<in>set w. \<not> isspace c \<and> c \<noteq> NUL)"

lemma isspace_LF [simp]: "isspace LF" by (simp add: isspace_def)

lemma fscanf_word_word:
  assumes "word_ok w"
  shows "fscanf_word (w @ LF # f) = Some (w, LF # f)"
    and "fscanf_word (LF # w @ LF # f) = Some (w, LF # f)"
proof -
  have d: "dropWhile isspace (w @ LF # f) = w @ LF # f"
    using assms by (cases w) (auto simp: word_ok_def)
  have t: "takeWhile (\<lambda>c. \<not> isspace c) (w @ LF # f) = w"
      "dropWhile (\<lambda>c. \<not> isspace c) (w @ LF # f) = LF # f"
    using assms by (auto intro!: takeWhile_append_stop dropWhile_append_stop simp: word_ok_def)
  show "fscanf_word (w @ LF # f) = Some (w, LF # f)" "fscanf_word (LF # w @ LF # f) = Some (w, LF # f)"
    using d t by (auto simp: fscanf_word_def Let_def)
qed

lemma workload_read_words:
  assumes "\<forall>w\<in>set ws. word_ok w" and "length paths = 100" and "i + length ws \<le> 100"
    and "pre = [] \<or> pre = [LF]"
  shows "workload_read (pre @ words ws) paths (int i) =
    Ret (take i paths @ map Some ws @ drop (i + length ws) paths, int (i + length ws))"
  using assms
proof (induction ws arbitrary: i paths pre)
  case Nil
  have "fscanf_word (pre @ words []) = None" using Nil(4) by (elim disjE) (simp_all add: fscanf_word_def)
  then show ?case by (subst workload_read.simps) simp
next
  case (Cons w ws)
  have w: "word_ok w" using Cons.prems(1) by simp
  define g where "g = [LF] @ words ws"
  have g: "pre @ words (w # ws) = pre @ w @ g" by (simp add: g_def)
  have f: "fscanf_word (pre @ w @ g) = Some (w, g)"
    using fscanf_word_word [OF w, of "words ws"] Cons.prems(4) by (auto simp: g_def)
  have "NUL \<notin> set w" and len: "length w < 256" using w unfolding word_ok_def by blast+
  then have "cstr w = w" by simp
  note this len
  moreover have "c_int (int i + 1) = int (Suc i)" using Cons.prems(3) by (subst c_int_id) auto
  ultimately have "workload_read (pre @ w @ g) paths (int i) =
      workload_read g (paths[i := Some w]) (int (Suc i))"
    using Cons.prems(3) f by (subst workload_read.simps) simp
  moreover have "workload_read g (paths[i := Some w]) (int (Suc i)) =
      Ret (take (Suc i) (paths[i := Some w]) @ map Some ws @
        drop (Suc i + length ws) (paths[i := Some w]), int (Suc i + length ws))"
    unfolding g_def by (rule Cons.IH) (use Cons.prems in simp_all)
  moreover have "take (Suc i) (paths[i := Some w]) = take i paths @ [Some w]"
    using Cons.prems(2,3) by (simp add: take_Suc_conv_app_nth)
  moreover have "drop (Suc i + length ws) (paths[i := Some w]) = drop (i + length (w # ws)) paths"
    by simp
  ultimately show ?case unfolding g by simp
qed

text \<open>The state after a list of words has been read.\<close>

definition holds_words :: "string list \<Rightarrow> workload \<Rightarrow> bool" where
  "holds_words ws w \<longleftrightarrow>
     ws \<noteq> [] \<and> length ws \<le> 100 \<and> length (wl_paths w) = 100 \<and> wl_unique w = int (length ws) \<and>
     wl_mode w = WORKLOAD_SEQ \<and> (\<forall>i < length ws. wl_paths w ! i = Some (ws ! i))"

lemma workload_init_words:
  assumes "\<forall>w\<in>set ws. word_ok w" and "ws \<noteq> []" and "length ws \<le> 100"
  obtains w where "workload_init (Some (words ws)) workload_start = Ret (EXIT_SUCCESS, w)"
    and "holds_words ws w" and "wl_counter w = 0"
proof -
  have "workload_read (words ws) (replicate 100 None) 0 =
      Ret (map Some ws @ drop (length ws) (replicate 100 None), int (length ws))"
    using workload_read_words [OF assms(1), of "replicate 100 None" 0 "[]"] assms(3) by simp
  moreover have "c_ushort (int (length ws)) = int (length ws)" using assms(3) by (intro c_ushort_id) auto
  ultimately show thesis using assms(2,3)
    by (intro that [of "workload_start\<lparr>wl_paths := map Some ws @ drop (length ws) (replicate 100 None),
          wl_unique := int (length ws)\<rparr>"])
      (auto simp: workload_init_def workload_start_def holds_words_def nth_append)
qed

lemma workload_get_path_step:
  assumes "holds_words ws w" and "wl_counter w = int i"
  shows "workload_get_path rnd w =
    Ret (Some (ws ! (i mod length ws)), w\<lparr>wl_counter := c_int (int i + 1)\<rparr>)"
proof -
  have n: "0 < length ws" using assms(1) by (simp add: holds_words_def)
  then have "i mod length ws < length ws" by simp
  moreover from this have "i mod length ws < 100" 
    by (rule less_le_trans) (use assms(1) in \<open>simp add: holds_words_def\<close>)
  moreover have "c_rem (int i) (int (length ws)) = int (i mod length ws)" by (simp add: c_rem_def zmod_int)
  ultimately show ?thesis using assms
    by (simp add: workload_get_path_def path_at_def holds_words_def WORKLOAD_RND_def WORKLOAD_SEQ_def Let_def)
qed

lemma get_paths_run:
  assumes "holds_words ws w" and "wl_counter w = int i" and "i + m < 2 ^ 31"
  shows "get_paths m w =
    Ret (map (\<lambda>j. Some (ws ! (j mod length ws))) [i..<i + m], w\<lparr>wl_counter := int (i + m)\<rparr>)"
  using assms
proof (induction m arbitrary: i w)
  case 0
  then show ?case by simp
next
  case (Suc m)
  let ?w = "w\<lparr>wl_counter := c_int (int i + 1)\<rparr>"
  have c: "c_int (int i + 1) = int (Suc i)" using Suc.prems(3) by (subst c_int_id) auto
  have "get_paths m ?w = Ret (map (\<lambda>j. Some (ws ! (j mod length ws))) [Suc i..<Suc i + m],
      ?w\<lparr>wl_counter := int (Suc i + m)\<rparr>)"
    using Suc.prems by (intro Suc.IH) (auto simp: holds_words_def c)
  moreover have "[i..<i + Suc m] = i # [Suc i..<Suc i + m]" by (simp add: upt_conv_Cons)
  ultimately show ?case using workload_get_path_step [OF Suc.prems(1,2)] by simp
qed

section \<open>Properties\<close>

text \<open>
  The paths are handed out in turn, again and again: after a workload of 1 to 100 words
  has been read, the \<open>j\<close>-th call of workload\_get\_path returns the word at \<open>j\<close> modulo their
  number, for up to 2 ^ 31 - 1 calls.
\<close>

theorem workload_round_robin:
  assumes "\<forall>w\<in>set ws. word_ok w" and "ws \<noteq> []" and "length ws \<le> 100" and "m < 2 ^ 31"
  shows "\<exists>w w'. workload_init (Some (words ws)) workload_start = Ret (EXIT_SUCCESS, w) \<and>
    workload_num_unique_paths w = int (length ws) \<and>
    get_paths m w = Ret (map (\<lambda>j. Some (ws ! (j mod length ws))) [0..<m], w')"
proof -
  obtain w where w: "workload_init (Some (words ws)) workload_start = Ret (EXIT_SUCCESS, w)"
      "holds_words ws w" "wl_counter w = 0"
    using workload_init_words [OF assms(1-3)] by blast
  with get_paths_run [OF w(2), of 0 m] assms(4) show ?thesis
    by (simp add: holds_words_def workload_num_unique_paths_def)
qed

theorem workload_round_robin_witness:
  "\<exists>w w'. workload_init (Some (words [''/a'', ''/b''])) workload_start = Ret (EXIT_SUCCESS, w) \<and>
     get_paths 3 w = Ret ([Some ''/a'', Some ''/b'', Some ''/a''], w')"
  using workload_round_robin [of "[''/a'', ''/b'']" 3]
  by (auto simp: word_ok_def isspace_def upt_rec)

text \<open>
  The counter is a signed int and wraps: the call after 2 ^ 31 - 1 others still works, and
  the one after it takes a negative remainder and reads outside of the array, unless the
  number of paths divides 2 ^ 31.
\<close>

theorem workload_counter_wraps:
  assumes "holds_words ws w" and "wl_counter w = INT_MAX" and "\<not> length ws dvd 2 ^ 31"
  shows "\<exists>w'. workload_get_path rnd w = Ret (Some (ws ! ((2 ^ 31 - 1) mod length ws)), w') \<and>
    workload_get_path rnd w' = Undef"
proof -
  have 1: "workload_get_path rnd w =
      Ret (Some (ws ! ((2 ^ 31 - 1) mod length ws)), w\<lparr>wl_counter := c_int (2 ^ 31)\<rparr>)"
    using workload_get_path_step [OF assms(1), of "2 ^ 31 - 1" rnd] assms(2) by (simp add: INT_MAX_def)
  let ?w = "w\<lparr>wl_counter := c_int (2 ^ 31)\<rparr>"
  have "c_int (2 ^ 31) = - (2 ^ 31)" by (simp add: c_int_def)
  moreover have "\<not> int (length ws) dvd 2 ^ 31" using assms(3) by (metis of_nat_dvd_iff of_nat_numeral of_nat_power)
  then have "(2 ^ 31) mod int (length ws) \<noteq> 0" by (simp add: dvd_eq_mod_eq_0)
  moreover have n: "0 < int (length ws)" using assms(1) by (simp add: holds_words_def)
  then have "0 \<le> (2 ^ 31) mod int (length ws)" by simp
  ultimately have "c_rem (wl_counter ?w) (int (length ws)) < 0" by (simp add: c_rem_def)
  then have "workload_get_path rnd ?w = Undef" using assms(1) n
    by (simp add: workload_get_path_def path_at_def holds_words_def WORKLOAD_RND_def WORKLOAD_SEQ_def Let_def)
  with 1 show ?thesis by blast
qed

theorem workload_counter_wraps_witness:
  "\<exists>w'. workload_get_path 0 \<lparr>wl_paths = map Some [''/a'', ''/b'', ''/c''] @ replicate 97 None,
       wl_unique = 3, wl_counter = INT_MAX, wl_mode = WORKLOAD_SEQ\<rparr> = Ret (Some ''/b'', w') \<and>
     workload_get_path 0 w' = Undef"
proof -
  have "\<not> (3::nat) dvd 2 ^ 31" by simp
  moreover have "length [''/a'', ''/b'', ''/c''] = 3" by simp
  ultimately have "\<not> length [''/a'', ''/b'', ''/c''] dvd 2 ^ 31" by (simp only: not_False_eq_True)
  from workload_counter_wraps [OF _ _ this, of "\<lparr>wl_paths = map Some [''/a'', ''/b'', ''/c''] @ replicate 97 None,
       wl_unique = 3, wl_counter = INT_MAX, wl_mode = WORKLOAD_SEQ\<rparr>" 0]
  show ?thesis by (simp add: holds_words_def less_Suc_eq all_conj_distrib)
qed

end
