(* ===== verification/MTClient.thy ===== *)
theory MTClient
  imports Steque Workload Options
begin

text \<open>
  multithreading/mtgf/gfclient\_download.c: the boss that queues the requests and the worker
  threads that pop and perform them, over one mutex, one condition variable and the steque.
  The threads are interleaved step by step; a step is what a thread does between two calls of
  the thread library.
\<close>

section \<open>The threads\<close>

definition MAX_THREADS :: int where "MAX_THREADS = 1572"
definition PATH_BUFFER_SIZE :: nat where "PATH_BUFFER_SIZE = 1536"

text \<open>localPath of a request path and the static counter.\<close>

definition localPath :: "string \<Rightarrow> int \<Rightarrow> string" where
  "localPath req_path counter = tl req_path @ CHR ''-'' # show_06d counter"

text \<open>
  Where a worker is: before the lock; at the test of the while; in the wait; woken, before it
  has the lock again; before the pop; before the unlock and before the broadcast, with the
  path and the flag \<open>done\<close>; in the two halves of \<open>counter++\<close>; in the request, with the
  path and the local path; returned.
\<close>

datatype wpc =
    WLock | WCheck | WWait | WWoken | WPop
  | WUnlock string bool | WBcast string bool
  | WName string | WName2 string int | WWork string string | WExit

text \<open>
  Where the boss is in iteration \<open>i\<close> of its loop; iteration nrequests is the block after the
  loop, which queues \<open>Done\<close> in the same four steps. Then it joins the workers.
\<close>

datatype bpc = BLock nat | BPut nat | BUnlock nat | BSignal nat | BJoin nat | BExit

datatype tid = Boss | Worker nat

datatype status = Running | Ended int | Crashed

text \<open>
  The shared state. \<open>cl\_put\<close> and \<open>cl\_popped\<close> record the requests that were queued and
  popped, \<open>cl\_log\<close> the requests performed: worker, path and local path.
\<close>

record client =
  cl_owner :: "tid option"
  cl_queue :: "string steque_state"
  cl_boss :: bpc
  cl_workers :: "wpc list"
  cl_wl :: workload
  cl_counter :: int
  cl_put :: "string list"
  cl_popped :: "string list"
  cl_log :: "(nat \<times> string \<times> string) list"
  cl_status :: status

definition client_start :: "nat \<Rightarrow> workload \<Rightarrow> client" where
  "client_start nthreads wl =
     \<lparr>cl_owner = None, cl_queue = steque_init Map.empty, cl_boss = BLock 0,
      cl_workers = replicate nthreads WLock, cl_wl = wl, cl_counter = 0,
      cl_put = [], cl_popped = [], cl_log = [], cl_status = Running\<rparr>"

section \<open>The steps\<close>

text \<open>
  A step is done by a thread, with a number for what the environment chooses: the address
  that malloc returns, or the waiter that a signal wakes. A waiter may also wake up spuriously.
\<close>

datatype action = Step tid nat | Spurious nat

text \<open>steque\_enqueue with a fresh node.\<close>

definition client_enqueue :: "nat \<Rightarrow> string \<Rightarrow> client \<Rightarrow> client option" where
  "client_enqueue a item s =
     (if fst (cl_queue s) a \<noteq> None then None
      else (case steque_enqueue (Some a) item (cl_queue s) of
              Ret q \<Rightarrow> Some (s\<lparr>cl_queue := q\<rparr>)
            | _ \<Rightarrow> Some (s\<lparr>cl_status := Crashed\<rparr>)))"

definition wake :: "wpc \<Rightarrow> wpc" where
  "wake pc = (if pc = WWait then WWoken else pc)"

text \<open>pthread\_cond\_signal: one waiter, chosen by the environment, when there is any.\<close>

definition client_signal :: "nat \<Rightarrow> client \<Rightarrow> client option" where
  "client_signal c s =
     (if WWait \<notin> set (cl_workers s) then Some s
      else if c < length (cl_workers s) \<and> cl_workers s ! c = WWait
      then Some (s\<lparr>cl_workers := (cl_workers s)[c := WWoken]\<rparr>) else None)"

definition boss_step :: "nat \<Rightarrow> nat \<Rightarrow> client \<Rightarrow> client option" where
  "boss_step nrequests c s =
     (case cl_boss s of
        BLock i \<Rightarrow>
          if cl_owner s = None then Some (s\<lparr>cl_owner := Some Boss, cl_boss := BPut i\<rparr>) else None
      | BPut i \<Rightarrow>
          if i < nrequests
          then (case workload_get_path 0 (cl_wl s) of
                  Ret (Some p, wl) \<Rightarrow>
                    if PATH_BUFFER_SIZE < length p then Some (s\<lparr>cl_status := Ended EXIT_FAILURE\<rparr>)
                    else client_enqueue c p
                           (s\<lparr>cl_wl := wl, cl_put := cl_put s @ [p], cl_boss := BUnlock i\<rparr>)
                | _ \<Rightarrow> Some (s\<lparr>cl_status := Crashed\<rparr>))
          else client_enqueue c ''Done'' (s\<lparr>cl_boss := BUnlock i\<rparr>)
      | BUnlock i \<Rightarrow> Some (s\<lparr>cl_owner := None, cl_boss := BSignal i\<rparr>)
      | BSignal i \<Rightarrow>
          client_signal c (s\<lparr>cl_boss := (if i < nrequests then BLock (Suc i) else BJoin 0)\<rparr>)
      | BJoin k \<Rightarrow>
          if k < length (cl_workers s)
          then (if cl_workers s ! k = WExit then Some (s\<lparr>cl_boss := BJoin (Suc k)\<rparr>) else None)
          else (case steque_destroy EXIT_FAILURE (cl_queue s) of
                  Some (Ret q) \<Rightarrow> Some (s\<lparr>cl_queue := q, cl_boss := BExit, cl_status := Ended 0\<rparr>)
                | _ \<Rightarrow> Some (s\<lparr>cl_status := Crashed\<rparr>))
      | BExit \<Rightarrow> None)"

abbreviation set_pc :: "nat \<Rightarrow> wpc \<Rightarrow> client \<Rightarrow> client" where
  "set_pc w pc s \<equiv> s\<lparr>cl_workers := (cl_workers s)[w := pc]\<rparr>"

text \<open>
  The pop with the strcpy into the buffer of PATH\_BUFFER\_SIZE bytes, the comparison and the
  return of \<open>Done\<close> to the queue, all under the lock.
\<close>

definition worker_pop :: "nat \<Rightarrow> nat \<Rightarrow> client \<Rightarrow> client option" where
  "worker_pop w c s =
     (case steque_pop EXIT_FAILURE (cl_queue s) of
        Ret (p, q) \<Rightarrow>
          if PATH_BUFFER_SIZE \<le> length p then Some (s\<lparr>cl_status := Crashed\<rparr>)
          else if strcmp p ''Done'' = 0
          then client_enqueue c ''Done'' (set_pc w (WUnlock p True) (s\<lparr>cl_queue := q\<rparr>))
          else Some (set_pc w (WUnlock p False) (s\<lparr>cl_queue := q, cl_popped := cl_popped s @ [p]\<rparr>))
      | Exits k \<Rightarrow> Some (s\<lparr>cl_status := Ended k\<rparr>)
      | _ \<Rightarrow> Some (s\<lparr>cl_status := Crashed\<rparr>))"

definition worker_step :: "nat \<Rightarrow> nat \<Rightarrow> client \<Rightarrow> client option" where
  "worker_step w c s =
     (case cl_workers s ! w of
        WLock \<Rightarrow>
          if cl_owner s = None then Some (set_pc w WCheck (s\<lparr>cl_owner := Some (Worker w)\<rparr>)) else None
      | WWoken \<Rightarrow>
          if cl_owner s = None then Some (set_pc w WCheck (s\<lparr>cl_owner := Some (Worker w)\<rparr>)) else None
      | WCheck \<Rightarrow>
          if steque_isempty (cl_queue s) \<noteq> 0 then Some (set_pc w WWait (s\<lparr>cl_owner := None\<rparr>))
          else Some (set_pc w WPop s)
      | WWait \<Rightarrow> None
      | WPop \<Rightarrow> worker_pop w c s
      | WUnlock p d \<Rightarrow> Some (set_pc w (WBcast p d) (s\<lparr>cl_owner := None\<rparr>))
      | WBcast p d \<Rightarrow>
          Some (set_pc w (if d then WExit else WName p)
                 (s\<lparr>cl_workers := map wake (cl_workers s)\<rparr>))
      | WName p \<Rightarrow> Some (set_pc w (WName2 p (cl_counter s)) s)
      | WName2 p k \<Rightarrow> Some (set_pc w (WWork p (localPath p k)) (s\<lparr>cl_counter := c_int (k + 1)\<rparr>))
      | WWork p l \<Rightarrow> Some (set_pc w WLock (s\<lparr>cl_log := cl_log s @ [(w, p, l)]\<rparr>))
      | WExit \<Rightarrow> None)"

fun client_step :: "nat \<Rightarrow> action \<Rightarrow> client \<Rightarrow> client option" where
  "client_step nrequests (Step t c) s =
     (if cl_status s \<noteq> Running then None
      else (case t of
              Boss \<Rightarrow> boss_step nrequests c s
            | Worker w \<Rightarrow> if w < length (cl_workers s) then worker_step w c s else None))"
| "client_step nrequests (Spurious w) s =
     (if cl_status s = Running \<and> w < length (cl_workers s) \<and> cl_workers s ! w = WWait
      then Some (set_pc w WWoken s) else None)"

inductive client_reach :: "nat \<Rightarrow> client \<Rightarrow> client \<Rightarrow> bool" for nrequests s0 where
  reach_start: "client_reach nrequests s0 s0"
| reach_step: "client_reach nrequests s0 s \<Longrightarrow> client_step nrequests a s = Some s' \<Longrightarrow>
     client_reach nrequests s0 s'"

section \<open>The invariant\<close>

text \<open>The \<open>j\<close>-th request, how many the boss has taken, and whether it has queued \<open>Done\<close>.\<close>

definition req :: "string list \<Rightarrow> nat \<Rightarrow> string" where
  "req ws j = ws ! (j mod length ws)"

fun progress :: "nat \<Rightarrow> bpc \<Rightarrow> nat" where
  "progress m (BLock i) = i"
| "progress m (BPut i) = i"
| "progress m (BUnlock i) = min (Suc i) m"
| "progress m (BSignal i) = min (Suc i) m"
| "progress m (BJoin k) = m"
| "progress m BExit = m"

fun done_put :: "nat \<Rightarrow> bpc \<Rightarrow> bool" where
  "done_put m (BUnlock i) = (m \<le> i)"
| "done_put m (BSignal i) = (m \<le> i)"
| "done_put m (BJoin k) = True"
| "done_put m BExit = True"
| "done_put m _ = False"

fun boss_ok :: "nat \<Rightarrow> wpc list \<Rightarrow> bpc \<Rightarrow> bool" where
  "boss_ok m ws (BLock i) = (i \<le> m)"
| "boss_ok m ws (BPut i) = (i \<le> m)"
| "boss_ok m ws (BUnlock i) = (i \<le> m)"
| "boss_ok m ws (BSignal i) = (i \<le> m)"
| "boss_ok m ws (BJoin k) = (k \<le> length ws \<and> (\<forall>j < k. ws ! j = WExit))"
| "boss_ok m ws BExit = False"

text \<open>Who is inside the critical section, who has seen \<open>Done\<close>, who can still signal.\<close>

fun in_cs :: "wpc \<Rightarrow> bool" where
  "in_cs WCheck = True" | "in_cs WPop = True" | "in_cs (WUnlock p d) = True" | "in_cs _ = False"

fun boss_cs :: "bpc \<Rightarrow> bool" where
  "boss_cs (BPut i) = True" | "boss_cs (BUnlock i) = True" | "boss_cs _ = False"

fun done_pc :: "wpc \<Rightarrow> bool" where
  "done_pc (WUnlock p d) = d" | "done_pc (WBcast p d) = d" | "done_pc WExit = True" | "done_pc _ = False"

definition active :: "wpc \<Rightarrow> bool" where
  "active pc \<longleftrightarrow> pc \<noteq> WWait \<and> pc \<noteq> WExit"

fun signal_pending :: "bpc \<Rightarrow> bool" where
  "signal_pending (BUnlock i) = True" | "signal_pending (BSignal i) = True" | "signal_pending _ = False"

text \<open>The request that a worker has popped and not yet performed.\<close>

fun carry :: "wpc \<Rightarrow> string list" where
  "carry (WUnlock p d) = (if d then [] else [p])"
| "carry (WBcast p d) = (if d then [] else [p])"
| "carry (WName p) = [p]"
| "carry (WName2 p k) = [p]"
| "carry (WWork p l) = [p]"
| "carry _ = []"

definition mutex_inv :: "client \<Rightarrow> bool" where
  "mutex_inv s \<longleftrightarrow>
     (\<forall>w < length (cl_workers s). in_cs (cl_workers s ! w) = (cl_owner s = Some (Worker w))) \<and>
     boss_cs (cl_boss s) = (cl_owner s = Some Boss) \<and>
     (\<forall>w. cl_owner s = Some (Worker w) \<longrightarrow> w < length (cl_workers s))"

definition queue_inv :: "nat \<Rightarrow> string list \<Rightarrow> client \<Rightarrow> bool" where
  "queue_inv m ws s \<longleftrightarrow>
     steque_wf (cl_queue s) \<and>
     cl_put s = map (req ws) [0..<progress m (cl_boss s)] \<and>
     holds_words ws (cl_wl s) \<and> wl_counter (cl_wl s) = int (progress m (cl_boss s)) \<and>
     (\<exists>rest. cl_put s = cl_popped s @ rest \<and>
        steque_items (cl_queue s) = rest @ (if done_put m (cl_boss s) then [''Done''] else []))"

definition exit_inv :: "nat \<Rightarrow> client \<Rightarrow> bool" where
  "exit_inv m s \<longleftrightarrow>
     boss_ok m (cl_workers s) (cl_boss s) \<and>
     ((\<exists>pc \<in> set (cl_workers s). done_pc pc) \<longrightarrow>
        done_put m (cl_boss s) \<and> cl_popped s = cl_put s)"

definition wake_inv :: "client \<Rightarrow> bool" where
  "wake_inv s \<longleftrightarrow>
     (WPop \<in> set (cl_workers s) \<longrightarrow> steque_items (cl_queue s) \<noteq> []) \<and>
     (steque_items (cl_queue s) \<noteq> [] \<longrightarrow>
        signal_pending (cl_boss s) \<or> (\<exists>pc \<in> set (cl_workers s). active pc) \<or>
        WWait \<notin> set (cl_workers s))"

definition carry_inv :: "client \<Rightarrow> bool" where
  "carry_inv s \<longleftrightarrow>
     mset (cl_popped s) = mset (map (\<lambda>(_, p, _). p) (cl_log s)) + mset (concat (map carry (cl_workers s)))"

definition client_inv :: "nat \<Rightarrow> string list \<Rightarrow> nat \<Rightarrow> client \<Rightarrow> bool" where
  "client_inv m ws n s \<longleftrightarrow>
     mutex_inv s \<and> queue_inv m ws s \<and> exit_inv m s \<and> wake_inv s \<and> carry_inv s \<and>
     length (cl_workers s) = n"

text \<open>What the programs are run on: words of a workload file, none of them \<open>Done\<close>.\<close>

definition client_input :: "nat \<Rightarrow> string list \<Rightarrow> bool" where
  "client_input m ws \<longleftrightarrow> (\<forall>w \<in> set ws. word_ok w) \<and> ''Done'' \<notin> set ws \<and> int m < INT_MAX"

text \<open>The end: every request has been performed exactly once and nothing is allocated.\<close>

definition client_finished :: "nat \<Rightarrow> string list \<Rightarrow> nat \<Rightarrow> client \<Rightarrow> bool" where
  "client_finished m ws n s \<longleftrightarrow>
     cl_status s = Ended 0 \<and> cl_popped s = map (req ws) [0..<m] \<and>
     mset (map (\<lambda>(_, p, _). p) (cl_log s)) = mset (map (req ws) [0..<m]) \<and>
     cl_workers s = replicate n WExit \<and> steque_nodes (cl_queue s) = {}"

lemma req_in: "holds_words ws wl \<Longrightarrow> req ws j \<in> set ws"
  unfolding req_def holds_words_def by (intro nth_mem) simp

lemma client_start_inv:
  assumes "holds_words ws wl" and "wl_counter wl = 0"
  shows "client_inv m ws n (client_start n wl)"
  using assms by (auto simp: client_inv_def client_start_def mutex_inv_def queue_inv_def exit_inv_def
      wake_inv_def carry_inv_def)

section \<open>Every step keeps the invariant\<close>

text \<open>Steps of a worker that leave the queue and the boss alone.\<close>

lemma mutex_inv_acquire:
  assumes "mutex_inv s" and "w < length (cl_workers s)" and "cl_owner s = None" and "in_cs pc"
  shows "mutex_inv (set_pc w pc (s\<lparr>cl_owner := Some (Worker w)\<rparr>))"
  using assms by (auto simp: mutex_inv_def nth_list_update)

lemma mutex_inv_release:
  assumes "mutex_inv s" and "w < length (cl_workers s)" and "in_cs (cl_workers s ! w)" and "\<not> in_cs pc"
  shows "mutex_inv (set_pc w pc (s\<lparr>cl_owner := None\<rparr>))"
  using assms by (auto simp: mutex_inv_def nth_list_update)

lemma mutex_inv_same:
  assumes "mutex_inv s" and "w < length (cl_workers s)" and "in_cs (cl_workers s ! w) = in_cs pc"
  shows "mutex_inv (set_pc w pc s)"
  using assms by (auto simp: mutex_inv_def nth_list_update)

lemma exit_inv_worker:
  assumes "exit_inv m s" and "w < length (cl_workers s)" and "cl_workers s ! w \<noteq> WExit"
    and "done_pc pc \<Longrightarrow> done_put m (cl_boss s) \<and> cl_popped s = cl_put s"
  shows "exit_inv m (set_pc w pc s)"
proof -
  have "boss_ok m ((cl_workers s)[w := pc]) (cl_boss s)"
    using assms(1-3) by (cases "cl_boss s") (auto simp: exit_inv_def nth_list_update)
  then show ?thesis using assms by (auto simp: exit_inv_def dest!: in_set_update)
qed

lemma wake_inv_worker:
  assumes "wake_inv s" and "w < length (cl_workers s)" and "active pc"
    and "pc = WPop \<Longrightarrow> steque_items (cl_queue s) \<noteq> []"
  shows "wake_inv (set_pc w pc s)"
proof -
  have "pc \<in> set ((cl_workers s)[w := pc])" using assms(2) by (rule set_update_memI)
  with assms(3) have "\<exists>x\<in>set ((cl_workers s)[w := pc]). active x" by blast
  moreover have "WPop \<in> set ((cl_workers s)[w := pc]) \<Longrightarrow> steque_items (cl_queue s) \<noteq> []"
    using assms(1,4) in_set_update [of WPop "cl_workers s" w pc] by (auto simp: wake_inv_def)
  ultimately show ?thesis by (simp add: wake_inv_def)
qed

lemma carry_inv_worker:
  assumes "carry_inv s" and "w < length (cl_workers s)" and "carry pc = carry (cl_workers s ! w)"
  shows "carry_inv (set_pc w pc s)"
  using assms by (simp add: carry_inv_def mset_concat_map_same)

text \<open>The simple updates that the invariants do not see.\<close>

lemma client_inv_frame:
  "queue_inv m ws (s\<lparr>cl_workers := x\<rparr>) = queue_inv m ws s"
  "queue_inv m ws (s\<lparr>cl_owner := y\<rparr>) = queue_inv m ws s"
  "queue_inv m ws (s\<lparr>cl_log := l\<rparr>) = queue_inv m ws s"
  "queue_inv m ws (s\<lparr>cl_counter := k\<rparr>) = queue_inv m ws s"
  "exit_inv m (s\<lparr>cl_owner := y\<rparr>) = exit_inv m s"
  "exit_inv m (s\<lparr>cl_log := l\<rparr>) = exit_inv m s"
  "exit_inv m (s\<lparr>cl_counter := k\<rparr>) = exit_inv m s"
  "wake_inv (s\<lparr>cl_owner := y\<rparr>) = wake_inv s"
  "wake_inv (s\<lparr>cl_log := l\<rparr>) = wake_inv s"
  "wake_inv (s\<lparr>cl_counter := k\<rparr>) = wake_inv s"
  "carry_inv (s\<lparr>cl_owner := y\<rparr>) = carry_inv s"
  "carry_inv (s\<lparr>cl_counter := k\<rparr>) = carry_inv s"
  "exit_inv m (s\<lparr>cl_owner := y, cl_workers := x\<rparr>) = exit_inv m (s\<lparr>cl_workers := x\<rparr>)"
  "wake_inv (s\<lparr>cl_owner := y, cl_workers := x\<rparr>) = wake_inv (s\<lparr>cl_workers := x\<rparr>)"
  "carry_inv (s\<lparr>cl_owner := y, cl_workers := x\<rparr>) = carry_inv (s\<lparr>cl_workers := x\<rparr>)"
  "mutex_inv (s\<lparr>cl_log := l\<rparr>) = mutex_inv s"
  "mutex_inv (s\<lparr>cl_counter := k\<rparr>) = mutex_inv s"
  by (simp_all add: queue_inv_def exit_inv_def wake_inv_def carry_inv_def mutex_inv_def)

lemma worker_simple_inv:
  assumes inv: "client_inv m ws n s" and w: "w < n"
    and pc: "cl_workers s ! w \<noteq> WExit" "active pc" "carry pc = carry (cl_workers s ! w)" "pc \<noteq> WPop"
      "done_pc pc = done_pc (cl_workers s ! w)"
    and s': "s' = set_pc w pc s \<and> in_cs pc = in_cs (cl_workers s ! w) \<or>
      s' = set_pc w pc (s\<lparr>cl_owner := Some (Worker w)\<rparr>) \<and> in_cs pc \<and> cl_owner s = None \<or>
      s' = set_pc w pc (s\<lparr>cl_owner := None\<rparr>) \<and> \<not> in_cs pc \<and> in_cs (cl_workers s ! w)"
  shows "client_inv m ws n s'"
proof -
  have l: "w < length (cl_workers s)" and i: "mutex_inv s" "queue_inv m ws s" "exit_inv m s"
    "wake_inv s" "carry_inv s" "length (cl_workers s) = n"
    using inv w by (simp_all add: client_inv_def)
  have e: "exit_inv m (set_pc w pc s)"
  proof (rule exit_inv_worker [OF i(3) l pc(1)])
    assume "done_pc pc"
    then have "\<exists>p\<in>set (cl_workers s). done_pc p" using pc(5) l nth_mem by metis
    then show "done_put m (cl_boss s) \<and> cl_popped s = cl_put s" using i(3) by (simp add: exit_inv_def)
  qed
  have v: "wake_inv (set_pc w pc s)" using i(4) l pc(2,4) by (intro wake_inv_worker) auto
  have c: "carry_inv (set_pc w pc s)" using i(5) l pc(3) by (rule carry_inv_worker)
  from s' show ?thesis
  proof (elim disjE conjE)
    assume "s' = set_pc w pc s" "in_cs pc = in_cs (cl_workers s ! w)"
    then show ?thesis using i e v c mutex_inv_same [OF i(1) l, of pc]
      by (simp add: client_inv_def client_inv_frame)
  next
    assume "s' = set_pc w pc (s\<lparr>cl_owner := Some (Worker w)\<rparr>)" "in_cs pc" "cl_owner s = None"
    then show ?thesis using i e v c mutex_inv_acquire [OF i(1) l, of pc]
      by (simp add: client_inv_def client_inv_frame)
  next
    assume "s' = set_pc w pc (s\<lparr>cl_owner := None\<rparr>)" "\<not> in_cs pc" "in_cs (cl_workers s ! w)"
    then show ?thesis using i e v c mutex_inv_release [OF i(1) l, of pc]
      by (simp add: client_inv_def client_inv_frame)
  qed
qed

lemma client_invD:
  assumes "client_inv m ws n s"
  shows "mutex_inv s" "queue_inv m ws s" "exit_inv m s" "wake_inv s" "carry_inv s"
    "length (cl_workers s) = n"
  using assms by (simp_all add: client_inv_def)

lemma queue_invD:
  assumes "queue_inv m ws s"
  obtains rest where "cl_put s = cl_popped s @ rest"
    and "steque_items (cl_queue s) = rest @ (if done_put m (cl_boss s) then [''Done''] else [])"
    and "cl_put s = map (req ws) [0..<progress m (cl_boss s)]" and "holds_words ws (cl_wl s)"
    and "steque_wf (cl_queue s)"
  using assms unfolding queue_inv_def by blast

lemma check_inv:
  assumes inv: "client_inv m ws n s" and w: "w < n" and pc: "cl_workers s ! w = WCheck"
    and step: "worker_step w c s = Some s'"
  shows "client_inv m ws n s'"
proof -
  note i = client_invD [OF inv]
  have l: "w < length (cl_workers s)" using w i(6) by simp
  have empty: "steque_isempty (cl_queue s) \<noteq> 0 \<longleftrightarrow> steque_items (cl_queue s) = []"
    using i(2) by (simp add: queue_inv_def steque_isempty_law)
  show ?thesis
  proof (cases "steque_items (cl_queue s) = []")
    case True
    then have s': "s' = set_pc w WWait (s\<lparr>cl_owner := None\<rparr>)"
      using step pc empty by (simp add: worker_step_def)
    have "mutex_inv s'" unfolding s' using i(1) l pc by (intro mutex_inv_release) auto
    moreover have "exit_inv m (set_pc w WWait s)" using i(3) l pc by (intro exit_inv_worker) auto
    moreover have "WPop \<notin> set (cl_workers s)" using i(4) True by (auto simp: wake_inv_def)
    then have "wake_inv (set_pc w WWait s)" using True by (auto simp: wake_inv_def dest!: in_set_update)
    moreover have "carry_inv (set_pc w WWait s)" using i(5) l pc by (intro carry_inv_worker) auto
    ultimately show ?thesis using i s' by (simp add: client_inv_def client_inv_frame)
  next
    case False
    then have s': "s' = set_pc w WPop s" using step pc empty by (simp add: worker_step_def)
    have "mutex_inv s'" unfolding s' using i(1) l pc by (intro mutex_inv_same) auto
    moreover have "exit_inv m s'" unfolding s' using i(3) l pc by (intro exit_inv_worker) auto
    moreover have "wake_inv s'" unfolding s' using i(4) l False
      by (intro wake_inv_worker) (auto simp: active_def)
    moreover have "carry_inv s'" unfolding s' using i(5) l pc by (intro carry_inv_worker) auto
    ultimately show ?thesis using i s' by (simp add: client_inv_def client_inv_frame)
  qed
qed

lemma bcast_inv:
  assumes inv: "client_inv m ws n s" and w: "w < n" and pc: "cl_workers s ! w = WBcast p d"
    and step: "worker_step w c s = Some s'"
  shows "client_inv m ws n s'"
proof -
  note i = client_invD [OF inv]
  have l: "w < length (cl_workers s)" using w i(6) by simp
  let ?ws = "map wake (cl_workers s)"
  let ?pc = "if d then WExit else WName p"
  have s': "s' = set_pc w ?pc (s\<lparr>cl_workers := ?ws\<rparr>)" using step pc by (simp add: worker_step_def)
  have cs: "in_cs (wake x) = in_cs x" "done_pc (wake x) = done_pc x" "carry (wake x) = carry x"
    "wake x = WExit \<longleftrightarrow> x = WExit" "wake x \<noteq> WWait" "wake x = WPop \<longleftrightarrow> x = WPop" for x
    by (auto simp: wake_def)
  have m: "mutex_inv (s\<lparr>cl_workers := ?ws\<rparr>)" using i(1) by (simp add: mutex_inv_def cs)
  have mu: "mutex_inv s'" unfolding s' using m l pc by (intro mutex_inv_same) (auto simp: cs)
  have "boss_ok m ?ws (cl_boss s)" using i(3)
    by (cases "cl_boss s") (auto simp: exit_inv_def cs)
  then have e: "exit_inv m (s\<lparr>cl_workers := ?ws\<rparr>)" using i(3) by (simp add: exit_inv_def cs)
  have "d \<Longrightarrow> \<exists>x\<in>set (cl_workers s). done_pc x" using pc l nth_mem by (metis done_pc.simps(2))
  then have ex: "exit_inv m s'" unfolding s' using e l pc i(3)
    by (intro exit_inv_worker) (auto simp: cs exit_inv_def split: if_splits)
  have "WPop \<in> set (cl_workers s) \<Longrightarrow> steque_items (cl_queue s) \<noteq> []"
    using i(4) by (simp add: wake_inv_def)
  moreover have "WWait \<noteq> wake x" "WPop = wake x \<longleftrightarrow> x = WPop" for x by (auto simp: wake_def)
  then have "WWait \<notin> set (?ws[w := ?pc])" "WPop \<in> set (?ws[w := ?pc]) \<Longrightarrow> WPop \<in> set (cl_workers s)"
    by (auto dest!: in_set_update split: if_splits)
  ultimately have "wake_inv s'" unfolding s' by (auto simp: wake_inv_def)
  moreover
  have "carry_inv (s\<lparr>cl_workers := ?ws\<rparr>)" using i(5) by (simp add: carry_inv_def comp_def cs)
  then have "carry_inv s'" unfolding s' using l pc by (intro carry_inv_worker) (auto simp: cs)
  ultimately show ?thesis using i s' mu ex by (simp add: client_inv_def client_inv_frame)
qed

lemma work_inv:
  assumes inv: "client_inv m ws n s" and w: "w < n" and pc: "cl_workers s ! w = WWork p l"
    and step: "worker_step w c s = Some s'"
  shows "client_inv m ws n s'"
proof -
  note i = client_invD [OF inv]
  have len: "w < length (cl_workers s)" using w i(6) by simp
  have s': "s' = set_pc w WLock (s\<lparr>cl_log := cl_log s @ [(w, p, l)]\<rparr>)"
    using step pc by (simp add: worker_step_def)
  have "mutex_inv (set_pc w WLock s)" using i(1) len pc by (intro mutex_inv_same) auto
  moreover have "exit_inv m (set_pc w WLock s)" using i(3) len pc by (intro exit_inv_worker) auto
  moreover have "wake_inv (set_pc w WLock s)" using i(4) len
    by (intro wake_inv_worker) (auto simp: active_def)
  moreover have "mset (concat (map carry ((cl_workers s)[w := WLock]))) + {#p#} =
      mset (concat (map carry (cl_workers s)))"
    using mset_concat_update [OF len, of carry WLock] pc by simp
  then have "carry_inv s'" unfolding s' using i(5) by (simp add: carry_inv_def)
  ultimately show ?thesis using i s'
    by (simp add: client_inv_def client_inv_frame mutex_inv_def exit_inv_def wake_inv_def)
qed

text \<open>The queue under the lock: what a pop and an enqueue do, through the work-queue contract.\<close>

lemma client_enqueue_some:
  assumes "client_enqueue a x s = Some s'" and "steque_wf (cl_queue s)"
    and "int (length (steque_items (cl_queue s))) < INT_MAX"
  shows "\<exists>q. s' = s\<lparr>cl_queue := q\<rparr> \<and> steque_wf q \<and> steque_items q = steque_items (cl_queue s) @ [x]"
proof -
  have "a \<notin> steque_nodes (cl_queue s)" using assms(1)
    by (auto simp: client_enqueue_def steque_nodes_def split: if_splits)
  from sq.enq_law [OF assms(2) this assms(3), of x] assms(1) show ?thesis
    by (auto simp: client_enqueue_def split: if_splits)
qed

lemma queue_room:
  assumes "client_input m ws" and "queue_inv m ws s" and "boss_ok m xs (cl_boss s)"
  shows "int (length (steque_items (cl_queue s))) < INT_MAX \<or>
    (done_put m (cl_boss s) \<and> int (length (steque_items (cl_queue s))) \<le> INT_MAX)"
    and "\<not> done_put m (cl_boss s) \<Longrightarrow> int (length (steque_items (cl_queue s))) < INT_MAX"
proof -
  obtain rest where r: "cl_put s = cl_popped s @ rest"
    "steque_items (cl_queue s) = rest @ (if done_put m (cl_boss s) then [''Done''] else [])"
    "length (cl_put s) = progress m (cl_boss s)"
    using queue_invD [OF assms(2)] by (metis length_map length_upt minus_nat.diff_0)
  have "progress m (cl_boss s) \<le> m" using assms(3) by (cases "cl_boss s") auto
  then have "length rest \<le> m" using r(1,3) by simp
  then show "int (length (steque_items (cl_queue s))) < INT_MAX \<or>
      (done_put m (cl_boss s) \<and> int (length (steque_items (cl_queue s))) \<le> INT_MAX)"
    "\<not> done_put m (cl_boss s) \<Longrightarrow> int (length (steque_items (cl_queue s))) < INT_MAX"
    using assms(1) r(2) by (auto simp: client_input_def)
qed

lemma worker_pop_cases:
  assumes inv: "client_inv m ws n s" and input: "client_input m ws" and w: "w < n"
    and pc: "cl_workers s ! w = WPop" and step: "worker_pop w c s = Some s'"
  shows "(\<exists>p q. s' = set_pc w (WUnlock p False) (s\<lparr>cl_queue := q, cl_popped := cl_popped s @ [p]\<rparr>) \<and>
      steque_wf q \<and> steque_items (cl_queue s) = p # steque_items q \<and> p \<noteq> ''Done'') \<or>
    (\<exists>q. s' = set_pc w (WUnlock ''Done'' True) (s\<lparr>cl_queue := q\<rparr>) \<and> steque_wf q \<and>
      steque_items q = [''Done''] \<and> steque_items (cl_queue s) = [''Done''] \<and>
      done_put m (cl_boss s) \<and> cl_popped s = cl_put s)"
proof -
  note i = client_invD [OF inv]
  have "cl_workers s ! w \<in> set (cl_workers s)" using w i(6) by simp
  then have ne: "steque_items (cl_queue s) \<noteq> []" using i(4) pc by (auto simp: wake_inv_def)
  have wf: "steque_wf (cl_queue s)" using i(2) by (simp add: queue_inv_def)
  obtain rest where r: "cl_put s = cl_popped s @ rest"
    "steque_items (cl_queue s) = rest @ (if done_put m (cl_boss s) then [''Done''] else [])"
    "cl_put s = map (req ws) [0..<progress m (cl_boss s)]" "holds_words ws (cl_wl s)"
    using queue_invD [OF i(2)] by blast
  have rest: "set rest \<subseteq> set ws" using r(1,3,4) req_in by (metis Un_upper2 imageE set_append set_map subset_eq)
  obtain p xs where px: "steque_items (cl_queue s) = p # xs" using ne by (cases "steque_items (cl_queue s)") auto
  obtain q where q: "steque_pop EXIT_FAILURE (cl_queue s) = Ret (p, q)" "steque_wf q" "steque_items q = xs"
    using sq.pop_law [OF wf px] by blast
  show ?thesis
  proof (cases rest)
    case Nil
    then have d: "p = ''Done''" "xs = []" "done_put m (cl_boss s)" using r(2) px by (auto split: if_splits)
    let ?s = "set_pc w (WUnlock p True) (s\<lparr>cl_queue := q\<rparr>)"
    have "client_enqueue c ''Done'' ?s = Some s'"
      using step q(1) d by (simp add: worker_pop_def PATH_BUFFER_SIZE_def)
    from client_enqueue_some [OF this] q d
    obtain q' where "s' = ?s\<lparr>cl_queue := q'\<rparr>" "steque_wf q'" "steque_items q' = [''Done'']"
      by (auto simp: INT_MAX_def)
    moreover have "cl_popped s = cl_put s" using r(1) Nil by simp
    ultimately show ?thesis using d px by (intro disjI2 exI [of _ q']) simp
  next
    case (Cons a as)
    then have p: "p \<in> set ws" using r(2) px rest by auto
    then have "p \<noteq> ''Done''" "length p < 256" using input by (auto simp: client_input_def word_ok_def)
    then have "s' = set_pc w (WUnlock p False) (s\<lparr>cl_queue := q, cl_popped := cl_popped s @ [p]\<rparr>)"
      using step q(1) by (simp add: worker_pop_def PATH_BUFFER_SIZE_def)
    with q px \<open>p \<noteq> ''Done''\<close> show ?thesis by blast
  qed
qed

lemma pop_inv:
  assumes inv: "client_inv m ws n s" and input: "client_input m ws" and w: "w < n"
    and pc: "cl_workers s ! w = WPop" and step: "worker_pop w c s = Some s'"
  shows "client_inv m ws n s'"
proof -
  note i = client_invD [OF inv]
  have l: "w < length (cl_workers s)" using w i(6) by simp
  have mu: "mutex_inv (set_pc w (WUnlock p d) s)" for p d
    using i(1) l pc by (intro mutex_inv_same) auto
  have only: "WPop \<notin> set ((cl_workers s)[w := WUnlock p d])" for p d
  proof
    assume "WPop \<in> set ((cl_workers s)[w := WUnlock p d])"
    then obtain v where v: "v < length (cl_workers s)" "(cl_workers s)[w := WUnlock p d] ! v = WPop"
      by (auto simp: in_set_conv_nth)
    then have "v \<noteq> w" "cl_workers s ! v = WPop" using l by (auto simp: nth_list_update split: if_splits)
    with v i(1) l pc show False by (auto simp: mutex_inv_def) (metis in_cs.simps(2) option.inject tid.inject)
  qed
  have act: "\<exists>x\<in>set ((cl_workers s)[w := WUnlock p d]). active x" for p d
    using set_update_memI [OF l] by (force simp: active_def)
  from worker_pop_cases [OF inv input w pc step] show ?thesis
  proof (elim disjE exE conjE)
    fix p q
    assume s': "s' = set_pc w (WUnlock p False) (s\<lparr>cl_queue := q, cl_popped := cl_popped s @ [p]\<rparr>)"
      and q: "steque_wf q" "steque_items (cl_queue s) = p # steque_items q" "p \<noteq> ''Done''"
    obtain rest where r: "cl_put s = cl_popped s @ rest"
      "steque_items (cl_queue s) = rest @ (if done_put m (cl_boss s) then [''Done''] else [])"
      using queue_invD [OF i(2)] by blast
    with q obtain rest' where r': "rest = p # rest'" by (cases rest) (auto split: if_splits)
    have "queue_inv m ws s'" using i(2) q r r' unfolding s' by (auto simp: queue_inv_def)
    moreover have "exit_inv m (set_pc w (WUnlock p False) s)" using i(3) l pc by (intro exit_inv_worker) auto
    then have "exit_inv m s'" unfolding s' using r r' i(3) l pc
      by (auto simp: exit_inv_def)
    moreover have "wake_inv s'" unfolding s' using only act by (auto simp: wake_inv_def)
    moreover have "carry_inv s'" unfolding s' using i(5) mset_concat_update [OF l, of carry "WUnlock p False"] pc
      by (simp add: carry_inv_def)
    ultimately show ?thesis using mu i s' by (simp add: client_inv_def mutex_inv_def)
  next
    fix q
    assume s': "s' = set_pc w (WUnlock ''Done'' True) (s\<lparr>cl_queue := q\<rparr>)"
      and q: "steque_wf q" "steque_items q = [''Done'']" "steque_items (cl_queue s) = [''Done'']"
      and d: "done_put m (cl_boss s)" "cl_popped s = cl_put s"
    have "queue_inv m ws s'" using i(2) q d unfolding s' by (auto simp: queue_inv_def)
    moreover have "exit_inv m (set_pc w (WUnlock ''Done'' True) s)"
      using i(3) l pc d by (intro exit_inv_worker) auto
    then have "exit_inv m s'" unfolding s' by (simp add: exit_inv_def)
    moreover have "wake_inv s'" unfolding s' using only act by (auto simp: wake_inv_def)
    moreover have "carry_inv (set_pc w (WUnlock ''Done'' True) s)"
      using i(5) l pc by (intro carry_inv_worker) auto
    then have "carry_inv s'" unfolding s' by (simp add: carry_inv_def)
    ultimately show ?thesis using mu i s' by (simp add: client_inv_def mutex_inv_def)
  qed
qed

lemma worker_step_inv:
  assumes inv: "client_inv m ws n s" and input: "client_input m ws" and w: "w < n"
    and step: "worker_step w c s = Some s'"
  shows "client_inv m ws n s'"
proof (cases "cl_workers s ! w")
  case WLock
  with step show ?thesis
    by (intro worker_simple_inv [OF inv w, of WCheck]) (auto simp: worker_step_def active_def split: if_splits)
next
  case WWoken
  with step show ?thesis
    by (intro worker_simple_inv [OF inv w, of WCheck]) (auto simp: worker_step_def active_def split: if_splits)
next
  case WCheck
  with check_inv [OF inv w] step show ?thesis by blast
next
  case WPop
  with step have "worker_pop w c s = Some s'" by (simp add: worker_step_def)
  with pop_inv [OF inv input w WPop] show ?thesis by blast
next
  case (WUnlock p d)
  with step show ?thesis
    by (intro worker_simple_inv [OF inv w, of "WBcast p d"]) (auto simp: worker_step_def active_def)
next
  case (WBcast p d)
  with bcast_inv [OF inv w] step show ?thesis by blast
next
  case (WName p)
  with step show ?thesis
    by (intro worker_simple_inv [OF inv w, of "WName2 p (cl_counter s)"]) (auto simp: worker_step_def active_def)
next
  case (WName2 p k)
  let ?t = "set_pc w (WWork p (localPath p k)) s"
  have "client_inv m ws n ?t" using WName2
    by (intro worker_simple_inv [OF inv w, of "WWork p (localPath p k)"]) (auto simp: active_def)
  moreover have "s' = ?t\<lparr>cl_counter := c_int (k + 1)\<rparr>" using step WName2 by (auto simp: worker_step_def)
  ultimately show ?thesis by (simp only: client_inv_def client_inv_frame) simp
next
  case (WWork p l)
  with work_inv [OF inv w] step show ?thesis by blast
qed (use step in \<open>simp_all add: worker_step_def\<close>)

lemma spurious_inv:
  assumes inv: "client_inv m ws n s" and w: "w < n" and pc: "cl_workers s ! w = WWait"
  shows "client_inv m ws n (set_pc w WWoken s)"
  using pc by (intro worker_simple_inv [OF inv w, of WWoken]) (auto simp: active_def)

text \<open>Steps of the boss.\<close>

lemma mutex_inv_boss:
  assumes "mutex_inv s" and "boss_cs b = boss_cs (cl_boss s)"
  shows "mutex_inv (s\<lparr>cl_boss := b\<rparr>)"
  using assms by (simp add: mutex_inv_def)

lemma queue_inv_cong:
  assumes "cl_queue s = cl_queue t" and "cl_put s = cl_put t" and "cl_popped s = cl_popped t"
    and "cl_wl s = cl_wl t" and "progress m (cl_boss s) = progress m (cl_boss t)"
    and "done_put m (cl_boss s) = done_put m (cl_boss t)"
  shows "queue_inv m ws s = queue_inv m ws t"
  unfolding queue_inv_def by (simp only: assms)

lemma queue_inv_boss:
  assumes "queue_inv m ws s" and "progress m b = progress m (cl_boss s)"
    and "done_put m b = done_put m (cl_boss s)"
  shows "queue_inv m ws (s\<lparr>cl_boss := b\<rparr>)" and "queue_inv m ws (s\<lparr>cl_owner := y, cl_boss := b\<rparr>)"
  using assms queue_inv_cong [of "s\<lparr>cl_boss := b\<rparr>" s m ws]
    queue_inv_cong [of "s\<lparr>cl_owner := y, cl_boss := b\<rparr>" s m ws] by simp_all

lemma boss_lock_inv:
  assumes inv: "client_inv m ws n s" and pc: "cl_boss s = BLock i" and o: "cl_owner s = None"
  shows "client_inv m ws n (s\<lparr>cl_owner := Some Boss, cl_boss := BPut i\<rparr>)"
  using client_invD [OF inv] pc o
    queue_inv_boss(2) [OF client_invD(2) [OF inv], of "BPut i"]
    by (simp add: client_inv_def mutex_inv_def exit_inv_def wake_inv_def carry_inv_def)

lemma boss_unlock_inv:
  assumes inv: "client_inv m ws n s" and pc: "cl_boss s = BUnlock i"
  shows "client_inv m ws n (s\<lparr>cl_owner := None, cl_boss := BSignal i\<rparr>)"
  using client_invD [OF inv] pc
    queue_inv_boss(2) [OF client_invD(2) [OF inv], of "BSignal i"]
    by (simp add: client_inv_def mutex_inv_def exit_inv_def wake_inv_def carry_inv_def)

lemma boss_signal_inv:
  assumes inv: "client_inv m ws n s" and pc: "cl_boss s = BSignal i"
    and step: "client_signal c (s\<lparr>cl_boss := (if i < m then BLock (Suc i) else BJoin 0)\<rparr>) = Some s'"
  shows "client_inv m ws n s'"
proof -
  note i = client_invD [OF inv]
  let ?b = "if i < m then BLock (Suc i) else BJoin 0"
  have le: "i \<le> m" using i(3) pc by (simp add: exit_inv_def)
  then have p: "progress m ?b = progress m (cl_boss s)" "done_put m ?b = done_put m (cl_boss s)"
      "boss_ok m xs ?b" for xs
    using pc by auto
  have mu: "mutex_inv (s\<lparr>cl_boss := ?b\<rparr>)" using i(1) pc by (simp add: mutex_inv_def)
  have q: "queue_inv m ws (s\<lparr>cl_boss := ?b\<rparr>)" using i(2) p(1,2) by (rule queue_inv_boss)
  have e: "exit_inv m (s\<lparr>cl_boss := ?b\<rparr>)" using i(3) by (simp add: exit_inv_def p)
  have c: "carry_inv (s\<lparr>cl_boss := ?b\<rparr>)" using i(5) by (simp add: carry_inv_def)
  show ?thesis
  proof (cases "WWait \<in> set (cl_workers s)")
    case False
    then have s': "s' = s\<lparr>cl_boss := ?b\<rparr>" using step by (simp add: client_signal_def)
    have "wake_inv s'" using i(4) False unfolding s' by (simp add: wake_inv_def)
    with mu q e c i(6) show ?thesis unfolding s' by (simp add: client_inv_def)
  next
    case True
    then have w: "c < length (cl_workers s)" "cl_workers s ! c = WWait"
      and s': "s' = set_pc c WWoken (s\<lparr>cl_boss := ?b\<rparr>)"
      using step by (auto simp: client_signal_def split: if_splits)
    have "mutex_inv s'" unfolding s' using mu w by (intro mutex_inv_same) auto
    moreover have "exit_inv m s'" unfolding s' using e w by (intro exit_inv_worker) auto
    moreover have "carry_inv s'" unfolding s' using c w by (intro carry_inv_worker) auto
    moreover have "\<exists>x\<in>set ((cl_workers s)[c := WWoken]). active x"
      using set_update_memI [OF w(1)] by (force simp: active_def)
    then have "wake_inv s'" unfolding s' using i(4) by (auto simp: wake_inv_def dest!: in_set_update)
    ultimately show ?thesis using q i(6) unfolding s' by (simp add: client_inv_def client_inv_frame)
  qed
qed

lemma boss_put_inv:
  assumes inv: "client_inv m ws n s" and input: "client_input m ws" and pc: "cl_boss s = BPut i"
    and step: "boss_step m c s = Some s'"
  shows "client_inv m ws n s' \<and> cl_status s' = cl_status s"
proof -
  note i = client_invD [OF inv]
  have le: "i \<le> m" using i(3) pc by (simp add: exit_inv_def)
  have notdone: "\<not> (\<exists>x\<in>set (cl_workers s). done_pc x)" using i(3) pc by (auto simp: exit_inv_def)
  have wf: "steque_wf (cl_queue s)" using i(2) by (simp add: queue_inv_def)
  have room: "int (length (steque_items (cl_queue s))) < INT_MAX"
    using queue_room(2) [OF input i(2), of "cl_workers s"] i(3) pc by (simp add: exit_inv_def)
  show ?thesis
  proof (cases "i < m")
    case True
    have h: "holds_words ws (cl_wl s)" "wl_counter (cl_wl s) = int i"
      using i(2) pc by (simp_all add: queue_inv_def)
    let ?p = "req ws i"
    let ?wl = "(cl_wl s)\<lparr>wl_counter := c_int (int i + 1)\<rparr>"
    have get: "workload_get_path 0 (cl_wl s) = Ret (Some ?p, ?wl)"
      using workload_get_path_step [OF h] by (simp add: req_def)
    have "word_ok ?p" using input req_in [OF h(1)] by (auto simp: client_input_def)
    then have "length ?p < 256" by (simp add: word_ok_def)
    let ?s = "s\<lparr>cl_wl := ?wl, cl_put := cl_put s @ [?p], cl_boss := BUnlock i\<rparr>"
    have "client_enqueue c ?p ?s = Some s'"
      using step pc True get \<open>length ?p < 256\<close> by (simp add: boss_step_def PATH_BUFFER_SIZE_def)
    from client_enqueue_some [OF this] wf room obtain q where
      q: "s' = ?s\<lparr>cl_queue := q\<rparr>" "steque_wf q" "steque_items q = steque_items (cl_queue s) @ [?p]" by auto
    have k: "c_int (int i + 1) = int (Suc i)"
      using True input by (subst c_int_id) (auto simp: client_input_def INT_MAX_def)
    have "queue_inv m ws s'" using i(2) pc True q k
      by (auto simp: queue_inv_def holds_words_def min_absorb1)
    moreover have "exit_inv m s'" using notdone q le by (simp add: exit_inv_def)
    moreover have "mutex_inv s'" using i(1) pc q by (simp add: mutex_inv_def)
    moreover have "wake_inv s'" using i(4) q by (simp add: wake_inv_def)
    moreover have "carry_inv s'" using i(5) q by (simp add: carry_inv_def)
    ultimately show ?thesis using i(6) q by (simp add: client_inv_def)
  next
    case False
    then have im: "i = m" using le by simp
    let ?s = "s\<lparr>cl_boss := BUnlock i\<rparr>"
    have "client_enqueue c ''Done'' ?s = Some s'" using step pc False by (simp add: boss_step_def)
    from client_enqueue_some [OF this] wf room obtain q where
      q: "s' = ?s\<lparr>cl_queue := q\<rparr>" "steque_wf q" "steque_items q = steque_items (cl_queue s) @ [''Done'']" by auto
    have "queue_inv m ws s'" using i(2) pc q im by (auto simp: queue_inv_def)
    moreover have "exit_inv m s'" using notdone q le by (simp add: exit_inv_def)
    moreover have "mutex_inv s'" using i(1) pc q by (simp add: mutex_inv_def)
    moreover have "wake_inv s'" using i(4) q by (simp add: wake_inv_def)
    moreover have "carry_inv s'" using i(5) q by (simp add: carry_inv_def)
    ultimately show ?thesis using i(6) q by (simp add: client_inv_def)
  qed
qed

lemma boss_join_inv:
  assumes inv: "client_inv m ws n s" and pc: "cl_boss s = BJoin k" and n: "0 < n"
    and run: "cl_status s = Running" and step: "boss_step m c s = Some s'"
  shows "cl_status s' = Running \<and> client_inv m ws n s' \<or> client_finished m ws n s'"
proof (cases "k < n")
  case True
  note i = client_invD [OF inv]
  let ?s = "s\<lparr>cl_boss := BJoin (Suc k)\<rparr>"
  have w: "cl_workers s ! k = WExit" and s': "s' = ?s"
    using step pc True i(6) by (auto simp: boss_step_def split: if_splits)
  have "mutex_inv ?s" using i(1) pc by (intro mutex_inv_boss) auto
  moreover have "queue_inv m ws ?s" using i(2) pc by (intro queue_inv_boss) auto
  moreover have "exit_inv m ?s" using i(3,6) pc True w by (auto simp: exit_inv_def less_Suc_eq)
  moreover have "wake_inv ?s" using i(4) pc by (simp add: wake_inv_def)
  moreover have "carry_inv ?s" using i(5) by (simp add: carry_inv_def)
  ultimately show ?thesis using i(6) run s' by (simp add: client_inv_def)
next
  case False
  note i = client_invD [OF inv]
  have all: "\<forall>j < n. cl_workers s ! j = WExit" using i(3,6) pc False by (auto simp: exit_inv_def)
  then have w: "cl_workers s = replicate n WExit" using i(6) by (simp add: list_eq_iff_nth_eq)
  then have "\<exists>pc\<in>set (cl_workers s). done_pc pc" using n by simp
  then have popped: "cl_popped s = cl_put s" using i(3) unfolding exit_inv_def by blast
  have wf: "steque_wf (cl_queue s)" using i(2) by (simp add: queue_inv_def)
  obtain q where q: "steque_destroy EXIT_FAILURE (cl_queue s) = Some (Ret q)" "steque_nodes q = {}"
    using steque_destroy_law [OF wf] by blast
  then have s': "s' = s\<lparr>cl_queue := q, cl_boss := BExit, cl_status := Ended 0\<rparr>"
    using step pc False i(6) by (simp add: boss_step_def)
  have put: "cl_put s = map (req ws) [0..<m]" using i(2) pc by (simp add: queue_inv_def)
  have "mset (cl_popped s) = mset (map (\<lambda>(_, p, _). p) (cl_log s))"
    using i(5) w unfolding carry_inv_def by simp
  then show ?thesis using s' q w put popped by (simp add: client_finished_def)
qed

lemma boss_step_inv:
  assumes inv: "client_inv m ws n s" and input: "client_input m ws" and n: "0 < n"
    and run: "cl_status s = Running" and step: "boss_step m c s = Some s'"
  shows "cl_status s' = Running \<and> client_inv m ws n s' \<or> client_finished m ws n s'"
proof (cases "cl_boss s")
  case (BLock i)
  with step have "cl_owner s = None" and s': "s' = s\<lparr>cl_owner := Some Boss, cl_boss := BPut i\<rparr>"
    by (auto simp: boss_step_def split: if_splits)
  with boss_lock_inv [OF inv BLock] run show ?thesis by simp
next
  case (BPut i)
  with boss_put_inv [OF inv input BPut step] run show ?thesis by simp
next
  case (BUnlock i)
  with step boss_unlock_inv [OF inv BUnlock] run show ?thesis by (auto simp: boss_step_def)
next
  case (BSignal i)
  with step have sg: "client_signal c (s\<lparr>cl_boss := (if i < m then BLock (Suc i) else BJoin 0)\<rparr>) = Some s'"
    by (simp add: boss_step_def)
  then have "cl_status s' = cl_status s" by (auto simp: client_signal_def split: if_splits)
  with boss_signal_inv [OF inv BSignal sg] run show ?thesis by simp
next
  case (BJoin k)
  from boss_join_inv [OF inv BJoin n run step] show ?thesis .
qed (use step in \<open>simp add: boss_step_def\<close>)

lemma worker_step_status:
  assumes inv: "client_inv m ws n s" and input: "client_input m ws" and w: "w < n"
    and step: "worker_step w c s = Some s'"
  shows "cl_status s' = cl_status s"
proof (cases "cl_workers s ! w = WPop")
  case True
  with step have p: "worker_pop w c s = Some s'" by (simp add: worker_step_def)
  show ?thesis using worker_pop_cases [OF inv input w True p] by auto
next
  case False
  with step show ?thesis by (auto simp: worker_step_def split: wpc.splits if_splits)
qed

lemma client_step_inv:
  assumes inv: "client_inv m ws n s" and input: "client_input m ws" and n: "0 < n"
    and run: "cl_status s = Running" and step: "client_step m a s = Some s'"
  shows "cl_status s' = Running \<and> client_inv m ws n s' \<or> client_finished m ws n s'"
proof (cases a)
  case (Step t c)
  show ?thesis
  proof (cases t)
    case Boss
    with step Step run have "boss_step m c s = Some s'" by simp
    with boss_step_inv [OF inv input n run] show ?thesis .
  next
    case (Worker w)
    with step Step run have w: "w < n" and st: "worker_step w c s = Some s'"
      using client_invD(6) [OF inv] by (auto split: if_splits)
    with worker_step_inv [OF inv input w st] worker_step_status [OF inv input w st] run show ?thesis by simp
  qed
next
  case (Spurious w)
  with step have w: "w < n" "cl_workers s ! w = WWait" and s': "s' = set_pc w WWoken s"
    using client_invD(6) [OF inv] by (auto split: if_splits)
  with spurious_inv [OF inv w] run show ?thesis by simp
qed

lemma client_reach_inv:
  assumes "client_reach m (client_start n wl) s" and "holds_words ws wl" and "wl_counter wl = 0"
    and "client_input m ws" and "0 < n"
  shows "cl_status s = Running \<and> client_inv m ws n s \<or> client_finished m ws n s"
  using assms(1)
proof (induction rule: client_reach.induct)
  case reach_start
  show ?case using client_start_inv [OF assms(2,3)] by (simp add: client_start_def)
next
  case (reach_step s a s')
  then have "cl_status s = Running" by (cases a) (auto split: if_splits)
  with reach_step.IH have "client_inv m ws n s" by (auto simp: client_finished_def)
  with client_step_inv [OF _ assms(4,5) \<open>cl_status s = Running\<close> reach_step.hyps(2)] show ?case .
qed

section \<open>No deadlock\<close>

lemma free_worker_steps:
  assumes inv: "client_inv m ws n s" and w: "w < n" and o: "cl_owner s = None"
    and pc: "active (cl_workers s ! w)"
  shows "\<exists>s'. worker_step w c s = Some s'"
proof -
  have "\<not> in_cs (cl_workers s ! w)" using client_invD(1,6) [OF inv] w o by (simp add: mutex_inv_def)
  with pc o show ?thesis by (cases "cl_workers s ! w") (auto simp: worker_step_def active_def)
qed

lemma fresh_address: "steque_wf q \<Longrightarrow> \<exists>a. fst q a = None"
  using sq.fresh_node [of q] by (auto simp: steque_nodes_def dom_def)

lemma client_enqueue_free:
  "fst (cl_queue s) a = None \<Longrightarrow> \<exists>s'. client_enqueue a x s = Some s'"
  by (auto simp: client_enqueue_def split: outcome.splits)

lemma cs_worker_steps:
  assumes inv: "client_inv m ws n s" and input: "client_input m ws" and w: "w < n"
    and cs: "in_cs (cl_workers s ! w)"
  shows "\<exists>c s'. worker_step w c s = Some s'"
proof (cases "cl_workers s ! w = WPop")
  case True
  have wf: "steque_wf (cl_queue s)" using client_invD(2) [OF inv] by (simp add: queue_inv_def)
  show ?thesis
  proof (cases "steque_pop EXIT_FAILURE (cl_queue s)")
    case (Ret r)
    then obtain p q where r: "steque_pop EXIT_FAILURE (cl_queue s) = Ret (p, q)" by (cases r) auto
    then have "steque_wf q" using sq.popE [OF wf] by blast
    then obtain a where "fst q a = None" using fresh_address by blast
    then have "\<exists>s'. client_enqueue a ''Done'' (set_pc w (WUnlock p True) (s\<lparr>cl_queue := q\<rparr>)) = Some s'"
      by (intro client_enqueue_free) simp
    with True r show ?thesis by (intro exI [of _ a]) (auto simp: worker_step_def worker_pop_def)
  qed (use True in \<open>auto simp: worker_step_def worker_pop_def\<close>)
next
  case False
  with cs show ?thesis by (cases "cl_workers s ! w") (auto simp: worker_step_def)
qed

lemma boss_steps:
  assumes inv: "client_inv m ws n s" and input: "client_input m ws"
    and pc: "\<And>k. cl_boss s = BJoin k \<Longrightarrow> k < n \<Longrightarrow> cl_workers s ! k = WExit"
    and o: "cl_owner s = None \<or> cl_owner s = Some Boss"
  shows "\<exists>c s'. boss_step m c s = Some s'"
proof (cases "cl_boss s")
  case (BLock i)
  have "cl_owner s = None" using o client_invD(1) [OF inv] BLock by (auto simp: mutex_inv_def)
  with BLock show ?thesis by (auto simp: boss_step_def)
next
  case (BPut i)
  have wf: "steque_wf (cl_queue s)" using client_invD(2) [OF inv] by (simp add: queue_inv_def)
  then obtain a where a: "fst (cl_queue s) a = None" using fresh_address by blast
  have "\<exists>s'. client_enqueue a x (s\<lparr>cl_boss := BUnlock i\<rparr>) = Some s'"
    "\<exists>s'. client_enqueue a x (s\<lparr>cl_wl := v, cl_put := u, cl_boss := BUnlock i\<rparr>) = Some s'" for x u v
    using a by (auto intro!: client_enqueue_free)
  with BPut show ?thesis
    by (intro exI [of _ a]) (auto simp: boss_step_def split: outcome.splits option.splits)
next
  case (BSignal i)
  show ?thesis
  proof (cases "WWait \<in> set (cl_workers s)")
    case True
    then obtain c where "c < length (cl_workers s)" "cl_workers s ! c = WWait" by (auto simp: in_set_conv_nth)
    with BSignal True show ?thesis by (intro exI [of _ c]) (auto simp: boss_step_def client_signal_def)
  next
    case False
    with BSignal show ?thesis by (auto simp: boss_step_def client_signal_def)
  qed
next
  case (BJoin k)
  with pc client_invD(6) [OF inv] show ?thesis
    by (auto simp: boss_step_def split: option.splits outcome.splits)
next
  case BExit
  then show ?thesis using client_invD(3) [OF inv] by (simp add: exit_inv_def)
qed (auto simp: boss_step_def)

lemma client_live:
  assumes inv: "client_inv m ws n s" and input: "client_input m ws" and run: "cl_status s = Running"
  shows "\<exists>t c s'. client_step m (Step t c) s = Some s'"
proof (cases "cl_owner s")
  case (Some t)
  show ?thesis
  proof (cases t)
    case Boss
    with Some have "boss_cs (cl_boss s)" using client_invD(1) [OF inv] by (simp add: mutex_inv_def)
    with boss_steps [OF inv input] Some Boss obtain c s' where "boss_step m c s = Some s'"
      by (metis boss_cs.simps(5))
    with run show ?thesis by (intro exI [of _ Boss]) auto
  next
    case (Worker w)
    with Some client_invD(1,6) [OF inv] have w: "w < n" "in_cs (cl_workers s ! w)"
      by (auto simp: mutex_inv_def)
    with cs_worker_steps [OF inv input w] client_invD(6) [OF inv] run show ?thesis
      by (intro exI [of _ "Worker w"]) auto
  qed
next
  case None
  have "(\<exists>c s'. boss_step m c s = Some s') \<or> (\<exists>w c s'. w < n \<and> worker_step w c s = Some s')"
  proof (cases "\<exists>k < n. cl_boss s = BJoin k \<and> cl_workers s ! k \<noteq> WExit")
    case False
    then have "\<exists>c s'. boss_step m c s = Some s'" using boss_steps [OF inv input] None by metis
    then show ?thesis by blast
  next
    case True
    then obtain k where k: "k < n" "cl_boss s = BJoin k" "cl_workers s ! k \<noteq> WExit" by blast
    have "steque_items (cl_queue s) \<noteq> []" using client_invD(2) [OF inv] k(2) by (auto simp: queue_inv_def)
    with client_invD(4) [OF inv] k(2) have "(\<exists>x\<in>set (cl_workers s). active x) \<or> WWait \<notin> set (cl_workers s)"
      by (simp add: wake_inv_def)
    then have "\<exists>w < n. active (cl_workers s ! w)"
    proof
      assume "WWait \<notin> set (cl_workers s)"
      then have "cl_workers s ! k \<noteq> WWait" using k(1) client_invD(6) [OF inv] by (metis nth_mem)
      with k show ?thesis by (auto simp: active_def)
    qed (use client_invD(6) [OF inv] in \<open>auto simp: in_set_conv_nth\<close>)
    then obtain w where "w < n" "active (cl_workers s ! w)" by blast
    with free_worker_steps [OF inv _ None] show ?thesis by blast
  qed
  then show ?thesis
  proof (elim disjE exE conjE)
    fix c s' assume "boss_step m c s = Some s'"
    with run show ?thesis by (intro exI [of _ Boss]) auto
  next
    fix w c s' assume "w < n" "worker_step w c s = Some s'"
    with run client_invD(6) [OF inv] show ?thesis by (intro exI [of _ "Worker w"]) auto
  qed
qed

section \<open>Termination\<close>

text \<open>
  Every step of a thread lowers a weight. A worker that still has to see \<open>Done\<close> holds a token
  for its last broadcast, every request one for its turn; a broadcast pays for the waiters it
  wakes.
\<close>

definition exit_token :: "nat \<Rightarrow> nat" where "exit_token n = 3 * n + 2"
definition request_token :: "nat \<Rightarrow> nat" where "request_token n = 3 * n + 8"

fun worker_weight :: "nat \<Rightarrow> wpc \<Rightarrow> nat" where
  "worker_weight n WLock = exit_token n + 3"
| "worker_weight n WCheck = exit_token n + 2"
| "worker_weight n WWait = exit_token n"
| "worker_weight n WWoken = exit_token n + 3"
| "worker_weight n WPop = exit_token n + 1"
| "worker_weight n (WUnlock p d) = (if d then 3 * n + 2 else exit_token n + 3 * n + 8)"
| "worker_weight n (WBcast p d) = (if d then 3 * n + 1 else exit_token n + 3 * n + 7)"
| "worker_weight n (WName p) = exit_token n + 6"
| "worker_weight n (WName2 p k) = exit_token n + 5"
| "worker_weight n (WWork p l) = exit_token n + 4"
| "worker_weight n WExit = 0"

fun boss_weight :: "nat \<Rightarrow> nat \<Rightarrow> bpc \<Rightarrow> nat" where
  "boss_weight n m (BLock i) = (m - i) * (request_token n + 7) + n + 9"
| "boss_weight n m (BPut i) = (m - i) * (request_token n + 7) + n + 8"
| "boss_weight n m (BUnlock i) =
     (if i < m then (m - Suc i) * (request_token n + 7) + n + 14 else n + 7)"
| "boss_weight n m (BSignal i) =
     (if i < m then (m - Suc i) * (request_token n + 7) + n + 13 else n + 6)"
| "boss_weight n m (BJoin k) = n - k + 1"
| "boss_weight n m BExit = 0"

definition client_weight :: "nat \<Rightarrow> client \<Rightarrow> nat" where
  "client_weight m s =
     (let n = length (cl_workers s)
      in boss_weight n m (cl_boss s) + request_token n * (length (cl_put s) - length (cl_popped s)) +
         sum_list (map (worker_weight n) (cl_workers s)))"

lemma wake_weight: "sum_list (map (worker_weight n) (map wake xs)) \<le> sum_list (map (worker_weight n) xs) + 3 * length xs"
  by (induction xs) (auto simp: wake_def)

lemma worker_weight_decreases:
  assumes inv: "client_inv m ws n s" and input: "client_input m ws" and w: "w < n"
    and step: "worker_step w c s = Some s'"
  shows "client_weight m s' < client_weight m s"
proof -
  note i = client_invD [OF inv]
  have l: "w < length (cl_workers s)" using w i(6) by simp
  note up = sum_list_map_update [OF l, of "worker_weight n"]
  obtain rest where r: "cl_put s = cl_popped s @ rest"
    "steque_items (cl_queue s) = rest @ (if done_put m (cl_boss s) then [''Done''] else [])"
    using queue_invD [OF i(2)] by blast
  show ?thesis
  proof (cases "cl_workers s ! w")
    case WPop
    then have p: "worker_pop w c s = Some s'" using step by (simp add: worker_step_def)
    from worker_pop_cases [OF inv input w WPop p] show ?thesis
    proof (elim disjE exE conjE)
      fix p q assume s': "s' = set_pc w (WUnlock p False) (s\<lparr>cl_queue := q, cl_popped := cl_popped s @ [p]\<rparr>)"
        and q: "steque_items (cl_queue s) = p # steque_items q" "p \<noteq> ''Done''"
      with r obtain rest' where "rest = p # rest'" by (cases rest) (auto split: if_splits)
      then show ?thesis using up [of "WUnlock p False"] WPop r(1) i(6) s'
        by (simp add: client_weight_def request_token_def Let_def)
    next
      fix q assume s': "s' = set_pc w (WUnlock ''Done'' True) (s\<lparr>cl_queue := q\<rparr>)"
      then show ?thesis using up [of "WUnlock ''Done'' True"] WPop i(6)
        by (simp add: client_weight_def exit_token_def Let_def)
    qed
  next
    case (WBcast p d)
    have lm: "w < length (map wake (cl_workers s))" using l by simp
    have nw: "map wake (cl_workers s) ! w = WBcast p d" using WBcast l by (simp add: wake_def)
    note upm = sum_list_map_update [OF lm, of "worker_weight n" "if d then WExit else WName p"]
    have "s' = set_pc w (if d then WExit else WName p) (s\<lparr>cl_workers := map wake (cl_workers s)\<rparr>)"
      using step WBcast by (simp add: worker_step_def)
    with upm wake_weight [of n "cl_workers s"] i(6) nw show ?thesis
      by (cases d) (simp_all add: client_weight_def exit_token_def Let_def)
  next
    case WLock
    with step up [of WCheck] i(6) show ?thesis
      by (auto simp: worker_step_def client_weight_def Let_def split: if_splits)
  next
    case WWoken
    with step up [of WCheck] i(6) show ?thesis
      by (auto simp: worker_step_def client_weight_def Let_def split: if_splits)
  next
    case WCheck
    with step up [of WWait] up [of WPop] i(6) show ?thesis
      by (auto simp: worker_step_def client_weight_def Let_def split: if_splits)
  next
    case (WUnlock p d)
    with step up [of "WBcast p d"] i(6) show ?thesis
      by (auto simp: worker_step_def client_weight_def Let_def split: if_splits)
  next
    case (WName p)
    with step up [of "WName2 p (cl_counter s)"] i(6) show ?thesis
      by (auto simp: worker_step_def client_weight_def Let_def)
  next
    case (WName2 p k)
    with step up [of "WWork p (localPath p k)"] i(6) show ?thesis
      by (auto simp: worker_step_def client_weight_def Let_def)
  next
    case (WWork p k)
    with step up [of WLock] i(6) show ?thesis
      by (auto simp: worker_step_def client_weight_def Let_def)
  qed (use step in \<open>simp_all add: worker_step_def\<close>)
qed

lemma client_enqueue_frame:
  "client_enqueue a x s = Some s' \<Longrightarrow> cl_workers s' = cl_workers s \<and> cl_boss s' = cl_boss s \<and>
     cl_put s' = cl_put s \<and> cl_popped s' = cl_popped s"
  by (auto simp: client_enqueue_def split: if_splits outcome.splits)

lemma boss_weight_decreases:
  assumes inv: "client_inv m ws n s" and run: "cl_status s = Running"
    and step: "boss_step m c s = Some s'" and ok: "cl_status s' \<noteq> Crashed" "cl_status s' \<noteq> Ended EXIT_FAILURE"
  shows "client_weight m s' < client_weight m s"
proof -
  note i = client_invD [OF inv]
  obtain rest where r: "cl_put s = cl_popped s @ rest"
    using queue_invD [OF i(2)] by blast
  show ?thesis
  proof (cases "cl_boss s")
    case (BLock k)
    with step show ?thesis by (auto simp: boss_step_def client_weight_def Let_def split: if_splits)
  next
    case (BPut k)
    show ?thesis
    proof (cases "k < m")
      case True
      then have mk: "(m - k) * (request_token n + 7) =
          (m - Suc k) * (request_token n + 7) + (request_token n + 7)"
        by (simp add: Suc_diff_Suc flip: mult_Suc add.commute)
      obtain p where "cl_put s' = cl_put s @ [p]" "cl_popped s' = cl_popped s"
          "cl_boss s' = BUnlock k" "cl_workers s' = cl_workers s"
        using step BPut True ok
        by (auto simp: boss_step_def dest!: client_enqueue_frame split: outcome.splits option.splits if_splits)
      with r mk True BPut i(6) show ?thesis
        by (simp add: client_weight_def Let_def add_mult_distrib2)
    next
      case False
      then have "cl_put s' = cl_put s" "cl_popped s' = cl_popped s"
          "cl_boss s' = BUnlock k" "cl_workers s' = cl_workers s"
        using step BPut by (auto simp: boss_step_def dest!: client_enqueue_frame)
      with False BPut i(6) show ?thesis by (simp add: client_weight_def Let_def)
    qed
  next
    case (BUnlock k)
    with step show ?thesis by (auto simp: boss_step_def client_weight_def Let_def)
  next
    case (BSignal k)
    let ?b = "if k < m then BLock (Suc k) else BJoin 0"
    have b: "boss_weight n m ?b + 3 < boss_weight n m (BSignal k)" by simp
    have "sum_list (map (worker_weight n) (cl_workers s')) \<le> sum_list (map (worker_weight n) (cl_workers s)) + 3 \<and>
        cl_boss s' = ?b \<and> cl_put s' = cl_put s \<and> cl_popped s' = cl_popped s \<and> length (cl_workers s') = n"
    proof (cases "WWait \<in> set (cl_workers s)")
      case True
      then have w: "c < length (cl_workers s)" "cl_workers s ! c = WWait"
        and s': "s' = set_pc c WWoken (s\<lparr>cl_boss := ?b\<rparr>)"
        using step BSignal by (auto simp: boss_step_def client_signal_def split: if_splits)
      with sum_list_map_update [OF w(1), of "worker_weight n" WWoken] i(6) show ?thesis by simp
    next
      case False
      with step BSignal i(6) show ?thesis by (auto simp: boss_step_def client_signal_def)
    qed
    with b BSignal i(6) show ?thesis by (simp add: client_weight_def Let_def)
  next
    case (BJoin k)
    with step ok i(6) show ?thesis
      by (auto simp: boss_step_def client_weight_def Let_def split: if_splits option.splits outcome.splits)
  qed (use step in \<open>simp add: boss_step_def\<close>)
qed

lemma client_weight_step:
  assumes inv: "client_inv m ws n s" and input: "client_input m ws" and n: "0 < n"
    and run: "cl_status s = Running" and step: "client_step m (Step t c) s = Some s'"
  shows "client_weight m s' < client_weight m s"
proof (cases t)
  case Boss
  with step run have b: "boss_step m c s = Some s'" by simp
  have "cl_status s' \<noteq> Crashed \<and> cl_status s' \<noteq> Ended EXIT_FAILURE"
    using client_step_inv [OF inv input n run step] by (auto simp: client_finished_def EXIT_FAILURE_def)
  with boss_weight_decreases [OF inv run b] show ?thesis by blast
next
  case (Worker w)
  with step run client_invD(6) [OF inv] have "w < n" "worker_step w c s = Some s'"
    by (auto split: if_splits)
  with worker_weight_decreases [OF inv input] show ?thesis by blast
qed

section \<open>Executions\<close>

fun client_exec :: "nat \<Rightarrow> action list \<Rightarrow> client \<Rightarrow> client option" where
  "client_exec m [] s = Some s"
| "client_exec m (a # as) s =
     (case client_step m a s of None \<Rightarrow> None | Some s' \<Rightarrow> client_exec m as s')"

fun thread_step :: "action \<Rightarrow> bool" where
  "thread_step (Step t c) = True" | "thread_step (Spurious w) = False"

lemma client_exec_reach:
  "client_exec m as s = Some s' \<Longrightarrow> client_reach m s0 s \<Longrightarrow> client_reach m s0 s'"
proof (induction m as s rule: client_exec.induct)
  case (2 m a as s)
  then show ?case by (auto split: option.splits intro: client_reach.intros)
qed auto

lemma client_exec_weight:
  assumes "client_input m ws" and "0 < n"
  shows "client_exec m as s = Some s' \<Longrightarrow> client_inv m ws n s \<Longrightarrow> cl_status s = Running \<Longrightarrow>
    \<forall>a\<in>set as. thread_step a \<Longrightarrow> length as \<le> client_weight m s"
proof (induction as arbitrary: s)
  case (Cons a as)
  obtain t c where a: "a = Step t c" using Cons.prems(4) by (cases a) auto
  obtain s1 where s1: "client_step m (Step t c) s = Some s1" "client_exec m as s1 = Some s'"
    using Cons.prems(1) a by (auto split: option.splits)
  have less: "client_weight m s1 < client_weight m s"
    using client_weight_step [OF Cons.prems(2) assms Cons.prems(3) s1(1)] .
  from client_step_inv [OF Cons.prems(2) assms Cons.prems(3) s1(1)] show ?case
  proof
    assume "cl_status s1 = Running \<and> client_inv m ws n s1"
    with Cons.IH [OF s1(2)] Cons.prems(4) less show ?case by simp
  next
    assume "client_finished m ws n s1"
    then have "client_step m b s1 = None" for b by (cases b) (auto simp: client_finished_def)
    with s1(2) have "as = []" by (cases as) auto
    with less show ?case by simp
  qed
qed simp

section \<open>The main program\<close>

record mt_client_config =
  mc_server :: "string option"
  mc_workload_path :: "string option"
  mc_port :: int
  mc_nthreads :: int
  mc_nrequests :: int

definition mt_client_default :: mt_client_config where
  "mt_client_default =
     \<lparr>mc_server = Some ''localhost'', mc_workload_path = Some ''workload.txt'', mc_port = 10880,
      mc_nthreads = 120, mc_nrequests = 5\<rparr>"

definition mt_client_switch :: "char \<Rightarrow> string option \<Rightarrow> mt_client_config \<Rightarrow> mt_client_config outcome" where
  "mt_client_switch ch arg c =
     (if ch = CHR ''r'' then atoi_arg arg (\<lambda>v. c\<lparr>mc_nrequests := v\<rparr>)
      else if ch = CHR ''s'' then Ret (c\<lparr>mc_server := arg\<rparr>)
      else if ch = CHR ''t'' then atoi_arg arg (\<lambda>v. c\<lparr>mc_nthreads := v\<rparr>)
      else if ch = CHR ''p'' then atoi_arg arg (\<lambda>v. c\<lparr>mc_port := c_ushort v\<rparr>)
      else if ch = CHR ''n'' then Ret c
      else if ch = CHR ''w'' then Ret (c\<lparr>mc_workload_path := arg\<rparr>)
      else if ch = CHR ''h'' then Exits 0
      else Exits 1)"

text \<open>
  main up to the creation of the threads: the number of requests and the state in which the
  boss and the workers start. \<open>file\<close> is the contents of the workload file.
\<close>

definition mt_client_main :: "opts \<Rightarrow> string option \<Rightarrow> (nat \<times> client) outcome" where
  "mt_client_main os file =
     bind_outcome (option_loop mt_client_switch os mt_client_default) (\<lambda>c.
       bind_outcome (workload_init file workload_start) (\<lambda>(rc, wl).
         if rc \<noteq> EXIT_SUCCESS then Exits EXIT_FAILURE
         else if 65331 < mc_port c then Exits EXIT_FAILURE
         else if mc_nthreads c < 1 \<or> MAX_THREADS < mc_nthreads c then Exits EXIT_FAILURE
         else Ret (nat (mc_nrequests c), client_start (nat (mc_nthreads c)) wl)))"

lemma mt_client_main_start:
  assumes "mt_client_main os (Some (words ws)) = Ret (m, s0)"
    and "\<forall>w\<in>set ws. word_ok w" and "ws \<noteq> []" and "length ws \<le> 100"
  obtains n wl where "s0 = client_start n wl" and "0 < n" and "holds_words ws wl" and "wl_counter wl = 0"
proof -
  obtain wl where "workload_init (Some (words ws)) workload_start = Ret (EXIT_SUCCESS, wl)"
      "holds_words ws wl" "wl_counter wl = 0"
    using workload_init_words [OF assms(2-4)] by blast
  with assms(1) show thesis
    by (auto simp: mt_client_main_def split: if_splits intro!: that)
qed

section \<open>Properties\<close>

text \<open>Runs with one and with two threads on a workload of one path, for the witnesses.\<close>

definition demo_opts :: "int \<Rightarrow> opts" where
  "demo_opts k = [(CHR ''t'', Some (show_int k)), (CHR ''r'', Some (show_int k))]"

definition demo_wl :: workload where
  "demo_wl = workload_start\<lparr>wl_paths := Some ''/a'' # replicate 99 None, wl_unique := 1\<rparr>"

definition demo_schedule :: "action list" where
  "demo_schedule = map (Step Boss) [0, 0, 0, 0, 0, 1, 0, 0] @
     map (Step (Worker 0)) [0, 0, 0, 0, 0, 0, 0, 0, 0, 0, 2, 0, 0] @ map (Step Boss) [0, 0]"

definition race_schedule :: "action list" where
  "race_schedule = map (Step Boss) [0, 0, 0, 0, 0, 1, 0, 0] @
     map (Step (Worker 0)) [0, 0, 0, 0, 0, 0] @ map (Step (Worker 1)) [0, 0, 0, 0, 0, 0, 0, 0] @
     map (Step (Worker 0)) [0, 0]"

lemma demo_wl_init: "workload_init (Some (words [''/a''])) workload_start = Ret (0, demo_wl)"
  by code_simp

lemma demo_opts_loop:
  "option_loop mt_client_switch (demo_opts 1) mt_client_default =
     Ret (mt_client_default\<lparr>mc_nthreads := 1, mc_nrequests := 1\<rparr>)"
  "option_loop mt_client_switch (demo_opts 2) mt_client_default =
     Ret (mt_client_default\<lparr>mc_nthreads := 2, mc_nrequests := 2\<rparr>)"
  by code_simp+

lemma demo_main:
  "mt_client_main (demo_opts 1) (Some (words [''/a''])) = Ret (1, client_start 1 demo_wl)"
  "mt_client_main (demo_opts 2) (Some (words [''/a''])) = Ret (2, client_start 2 demo_wl)"
  unfolding mt_client_main_def demo_opts_loop demo_wl_init
  by (simp_all add: mt_client_default_def MAX_THREADS_def EXIT_SUCCESS_def demo_wl_init [simplified])

lemma demo_run:
  "\<exists>s. client_exec 1 demo_schedule (client_start 1 demo_wl) = Some s \<and> cl_status s = Ended 0"
proof -
  have "map_option cl_status (client_exec 1 demo_schedule (client_start 1 demo_wl)) = Some (Ended 0)"
    by code_simp
  then show ?thesis by auto
qed

lemma demo_words: "\<forall>w\<in>set [''/a'']. word_ok w"
  by (simp add: word_ok_def isspace_def)





text \<open>
  The static counter of localPath is incremented without a lock: two workers can take the
  same value, so two requests for the same path are written to the same local file.
\<close>

theorem mt_client_local_path_race:
  "\<exists>s0 s. mt_client_main (demo_opts 2) (Some (words [''/a''])) = Ret (2, s0) \<and>
     client_exec 2 race_schedule s0 = Some s \<and>
     cl_log s = [(1, ''/a'', ''a-000000''), (0, ''/a'', ''a-000000'')]"
proof -
  have "map_option cl_log (client_exec 2 race_schedule (client_start 2 demo_wl)) =
      Some [(1, ''/a'', ''a-000000''), (0, ''/a'', ''a-000000'')]" by code_simp
  with demo_main(2) show ?thesis by auto
qed

end
