(* ===== verification/GFDownload.thy ===== *)
theory GFDownload
  imports GFClient Workload Options
begin

text \<open>
  multithreading/gflib/gfclient\_download.c: the command line client. It asks for the paths of
  the workload one after the other, each into a file of its own below the current directory,
  and keeps the file when the transfer succeeded.
\<close>

section \<open>Files\<close>

text \<open>
  The operations on the file system, in the order they are made. A number is a FILE*. \<open>disk\<close>
  says which calls of mkdir fail with an error other than EEXIST, and which of fopen fail;
  fwrite is taken to write all it is given.
\<close>

datatype fop =
    Mkdir string | Fopen nat string | Fwrite "nat option" "char list" | Fclose nat | Unlink string

record disk =
  mkdir_fails :: "string \<Rightarrow> bool"
  fopen_fails :: "string \<Rightarrow> bool"

text \<open>PATH\_BUFFER\_SIZE, and localPath: snprintf cuts the name at the size of the buffer.\<close>

definition DL_PATH_SIZE :: nat where "DL_PATH_SIZE = 256"

definition dl_localPath :: "string \<Rightarrow> int \<Rightarrow> string" where
  "dl_localPath req_path counter =
     take (DL_PATH_SIZE - 1) (tl req_path @ CHR ''_'' # show_06d counter)"

text \<open>strchr from offset \<open>p\<close>.\<close>

definition strchr :: "string \<Rightarrow> nat \<Rightarrow> char \<Rightarrow> nat option" where
  "strchr s p c =
     (let q = p + length (takeWhile (\<lambda>x. x \<noteq> c) (drop p s))
      in if q < length s then Some q else None)"

text \<open>The loop of openFile over the slashes after \<open>prev\<close>: one mkdir for each prefix.\<close>

function mkdir_loop :: "disk \<Rightarrow> string \<Rightarrow> nat \<Rightarrow> fop list outcome" where
  "mkdir_loop disk path prev =
     (if length path \<le> prev then Undef
      else (case strchr path (prev + 1) CHR ''/'' of
              None \<Rightarrow> Ret []
            | Some cur \<Rightarrow>
                if mkdir_fails disk (take cur path) then Exits EXIT_FAILURE
                else bind_outcome (mkdir_loop disk path cur) (\<lambda>ops. Ret (Mkdir (take cur path) # ops))))"
  by pat_completeness auto
termination
  by (relation "measure (\<lambda>(_, path, prev). length path - prev)")
    (auto simp: strchr_def Let_def split: if_splits)

declare mkdir_loop.simps [simp del]

definition openFile :: "disk \<Rightarrow> string \<Rightarrow> nat \<Rightarrow> fop list outcome" where
  "openFile disk path h =
     bind_outcome (mkdir_loop disk path 0) (\<lambda>ops.
       if fopen_fails disk path then Exits EXIT_FAILURE else Ret (ops @ [Fopen h path]))"

definition writecb :: "char list \<Rightarrow> nat option \<Rightarrow> fop" where
  "writecb data arg = Fwrite arg data"

section \<open>One request\<close>

text \<open>
  From openFile to the unlinks: the return code of gfc\_perform, the request object and the
  file operations. The callback writecb is function 1. The client of mtgf has the same code
  in its worker, with the gfc\_perform of its own library, so that call is an argument.
\<close>

definition fetch_request :: "gfcrequest \<Rightarrow> string \<Rightarrow> int \<Rightarrow> string \<Rightarrow> nat \<Rightarrow> gfcrequest" where
  "fetch_request junk server port req_path h =
     gfc_set_writearg (Some h) (gfc_set_writefunc (Some 1)
       (gfc_set_server server (gfc_set_path req_path (gfc_set_port port (gfc_create junk)))))"

definition fetch ::
  "disk \<Rightarrow> (gfcrequest \<Rightarrow> (int \<times> gfcrequest \<times> write_call list) outcome) \<Rightarrow> gfcrequest \<Rightarrow>
   string \<Rightarrow> int \<Rightarrow> string \<Rightarrow> string \<Rightarrow> nat \<Rightarrow> (int \<times> gfcrequest \<times> fop list) outcome" where
  "fetch disk perform junk server port req_path local_path h =
     bind_outcome (openFile disk local_path h) (\<lambda>ops.
     bind_outcome (perform (fetch_request junk server port req_path h)) (\<lambda>(rc, r, ws).
       Ret (rc, r,
         ops @ map (\<lambda>(_, d, a). writecb d a) ws @
         (if rc < 0 then [Fclose h, Unlink local_path] else [Fclose h]) @
         (if gfc_get_status r \<noteq> GF_OK then [Unlink local_path] else []))))"

section \<open>The main program\<close>

text \<open>
  The loop over the requests: \<open>i\<close> is the variable of the loop and the static counter of
  localPath, \<open>envs i\<close> the network in request \<open>i\<close>. The result holds the file operations
  and what each gfc\_perform returned.
\<close>

fun download_loop ::
  "disk \<Rightarrow> (nat \<Rightarrow> client_env) \<Rightarrow> gfcrequest \<Rightarrow> string \<Rightarrow> int \<Rightarrow> nat \<Rightarrow> nat \<Rightarrow> workload \<Rightarrow>
   (fop list \<times> int list \<times> workload) outcome" where
  "download_loop disk envs junk server port 0 i wl = Ret ([], [], wl)"
| "download_loop disk envs junk server port (Suc m) i wl =
     bind_outcome (workload_get_path 0 wl) (\<lambda>(p, wl1).
       case p of None \<Rightarrow> Undef
       | Some req_path \<Rightarrow>
           if 256 < length req_path then Exits EXIT_FAILURE
           else if req_path = [] then Undef
           else bind_outcome (fetch disk (gfc_perform (envs i)) junk server port req_path
                  (dl_localPath req_path (int i)) i) (\<lambda>(rc, r, ops).
                bind_outcome (download_loop disk envs junk server port m (Suc i) wl1) (\<lambda>(ops', rcs, wl2).
                  Ret (ops @ ops', rc # rcs, wl2))))"

record download_config =
  dc_server :: "string option"
  dc_port :: int
  dc_workload :: "string option"
  dc_nrequests :: int

definition download_default :: download_config where
  "download_default =
     \<lparr>dc_server = Some ''localhost'', dc_port = 10880, dc_workload = Some ''workload.txt'', dc_nrequests = 16\<rparr>"

definition download_switch :: "char \<Rightarrow> string option \<Rightarrow> download_config \<Rightarrow> download_config outcome" where
  "download_switch ch arg c =
     (if ch = CHR ''s'' then Ret (c\<lparr>dc_server := arg\<rparr>)
      else if ch = CHR ''p'' then atoi_arg arg (\<lambda>v. c\<lparr>dc_port := c_ushort v\<rparr>)
      else if ch = CHR ''l'' then Ret (c\<lparr>dc_workload := arg\<rparr>)
      else if ch = CHR ''n'' then atoi_arg arg (\<lambda>v. c\<lparr>dc_nrequests := v\<rparr>)
      else if ch = CHR ''h'' then Exits 0
      else Exits 1)"

text \<open>\<open>files\<close> gives the contents of the files that fopen can read.\<close>

definition download_main ::
  "opts \<Rightarrow> (string \<Rightarrow> string option) \<Rightarrow> disk \<Rightarrow> (nat \<Rightarrow> client_env) \<Rightarrow> gfcrequest \<Rightarrow>
   (int \<times> fop list \<times> int list \<times> workload) outcome" where
  "download_main os files disk envs junk =
     bind_outcome (option_loop download_switch os download_default) (\<lambda>c.
       if 65331 < dc_port c then Exits EXIT_FAILURE
       else (case (dc_workload c, dc_server c) of
               (Some wpath, Some server) \<Rightarrow>
                 bind_outcome (workload_init (files wpath) workload_start) (\<lambda>(rc, wl).
                   if rc \<noteq> EXIT_SUCCESS then Exits EXIT_FAILURE
                   else bind_outcome (download_loop disk envs junk server (dc_port c)
                          (nat (dc_nrequests c)) 0 wl) (\<lambda>(ops, rcs, wl').
                        Ret (0, ops, rcs, workload_destroy wl')))
             | _ \<Rightarrow> Undef))"

section \<open>The directories\<close>

text \<open>The loop over strchr visits the slashes of the path in order.\<close>

lemma strchr_filter:
  "p \<le> length s \<Longrightarrow> filter (\<lambda>i. s ! i = c) [p..<length s] =
     (case strchr s p c of None \<Rightarrow> [] | Some q \<Rightarrow> q # filter (\<lambda>i. s ! i = c) [Suc q..<length s])"
proof (induction "length s - p" arbitrary: p)
  case 0
  then show ?case by (simp add: strchr_def)
next
  case (Suc k)
  then have p: "p < length s" by simp
  then have d: "drop p s = s ! p # drop (Suc p) s" by (rule Cons_nth_drop_Suc [symmetric])
  have u: "[p..<length s] = p # [Suc p..<length s]" using p by (rule upt_conv_Cons)
  show ?case
  proof (cases "s ! p = c")
    case True
    then have "strchr s p c = Some p" using p d by (simp add: strchr_def)
    with True u show ?thesis by simp
  next
    case False
    then have "strchr s p c = strchr s (Suc p) c" using d by (simp add: strchr_def)
    with False u Suc.hyps(1) [of "Suc p"] Suc.hyps(2) p show ?thesis by simp
  qed
qed

lemma strchr_bounds: "strchr s p c = Some q \<Longrightarrow> p \<le> q \<and> q < length s"
  by (auto simp: strchr_def Let_def split: if_splits)

lemma mkdir_loop_prefixes:
  "prev < length path \<Longrightarrow> mkdir_loop disk path prev =
     (let slashes = filter (\<lambda>i. path ! i = CHR ''/'') [Suc prev..<length path]
      in if \<exists>i\<in>set slashes. mkdir_fails disk (take i path) then Exits EXIT_FAILURE
         else Ret (map (\<lambda>i. Mkdir (take i path)) slashes))"
proof (induction disk path prev rule: mkdir_loop.induct)
  case (1 disk path prev)
  note f = strchr_filter [of "Suc prev" path "CHR ''/''"]
  show ?case
  proof (cases "strchr path (Suc prev) CHR ''/''")
    case None
    with f 1(2) show ?thesis by (subst mkdir_loop.simps) simp
  next
    case (Some cur)
    have "cur < length path" using strchr_bounds [OF Some] by simp
    with 1 Some have ih: "\<not> mkdir_fails disk (take cur path) \<Longrightarrow> mkdir_loop disk path cur =
     (let slashes = filter (\<lambda>i. path ! i = CHR ''/'') [Suc cur..<length path]
      in if \<exists>i\<in>set slashes. mkdir_fails disk (take i path) then Exits EXIT_FAILURE
         else Ret (map (\<lambda>i. Mkdir (take i path)) slashes))" by simp
    have s: "filter (\<lambda>i. path ! i = CHR ''/'') [Suc prev..<length path] =
        cur # filter (\<lambda>i. path ! i = CHR ''/'') [Suc cur..<length path]"
      using f Some 1(2) by simp
    show ?thesis
    proof (cases "mkdir_fails disk (take cur path)")
      case True
      then show ?thesis using Some 1(2) unfolding s by (subst mkdir_loop.simps) simp
    next
      case False
      define sl where "sl = filter (\<lambda>i. path ! i = CHR ''/'') [Suc cur..<length path]"
      from ih [OF False] show ?thesis using False Some 1(2) unfolding s sl_def [symmetric]
        by (subst mkdir_loop.simps) (auto simp: Let_def)
    qed
  qed
qed

section \<open>The files that are left\<close>

text \<open>
  What the operations leave behind: the contents of the files, and the files that are open.
  Directories and what was there before play no part.
\<close>

type_synonym fstate = "(string \<Rightarrow> char list option) \<times> (nat \<Rightarrow> string option)"

fun replay_op :: "fop \<Rightarrow> fstate \<Rightarrow> fstate" where
  "replay_op (Mkdir d) (m, t) = (m, t)"
| "replay_op (Fopen h p) (m, t) = (m(p := Some []), t(h := Some p))"
| "replay_op (Fwrite arg d) (m, t) =
     (case arg of None \<Rightarrow> (m, t)
      | Some h \<Rightarrow>
          (case t h of None \<Rightarrow> (m, t)
           | Some p \<Rightarrow> (case m p of None \<Rightarrow> (m, t) | Some x \<Rightarrow> (m(p := Some (x @ d)), t))))"
| "replay_op (Fclose h) (m, t) = (m, t(h := None))"
| "replay_op (Unlink p) (m, t) = (m(p := None), t)"

definition replay :: "fop list \<Rightarrow> fstate \<Rightarrow> fstate" where
  "replay = fold replay_op"

lemma replay_simps [simp]:
  "replay [] st = st" "replay (x # xs) st = replay xs (replay_op x st)"
  "replay (xs @ ys) st = replay ys (replay xs st)"
  by (simp_all add: replay_def)

lemma replay_mkdirs: "replay (map (\<lambda>i. Mkdir (f i)) is) st = st"
  by (cases st) (induction "is", auto)

lemma replay_writes:
  "t h = Some p \<Longrightarrow> m p = Some x \<Longrightarrow> \<forall>w\<in>set ws. snd (snd w) = Some h \<Longrightarrow>
     replay (map (\<lambda>(_, d, a). writecb d a) ws) (m, t) =
       (m(p := Some (x @ concat (map (\<lambda>(_, d, _). d) ws))), t)"
proof (induction ws arbitrary: m x)
  case Nil
  then show ?case by (simp add: map_upd_triv)
next
  case (Cons w ws)
  obtain f d a where w: "w = (f, d, a)" by (cases w)
  with Cons.prems have "a = Some h" by simp
  have "replay (map (\<lambda>(_, d, a). writecb d a) ws) (m(p := Some (x @ d)), t) =
      (m(p := Some (x @ d), p := Some ((x @ d) @ concat (map (\<lambda>(_, d, _). d) ws))), t)"
    by (rule Cons.IH) (use Cons.prems in auto)
  with Cons.prems w \<open>a = Some h\<close> show ?case
    by (simp add: writecb_def del: fun_upd_apply)
qed

lemma openFile_ops:
  assumes "openFile disk path h = Ret ops" and "path \<noteq> []"
  shows "\<exists>ds. ops = map (\<lambda>i. Mkdir (take i path)) ds @ [Fopen h path]"
  using assms mkdir_loop_prefixes [of 0 path disk]
  by (auto simp: openFile_def Let_def split: if_splits)

lemma openFile_good:
  assumes "\<forall>d. \<not> mkdir_fails disk d" and "\<forall>p. \<not> fopen_fails disk p" and "path \<noteq> []"
  obtains ops where "openFile disk path h = Ret ops"
  using assms mkdir_loop_prefixes [of 0 path disk]
  by (auto simp: openFile_def Let_def)

text \<open>gfc\_perform passes the registered argument to every call of the callback.\<close>

lemma gfc_ok_args:
  assumes "gfc_ok r n buf sc st saved = Ret (Go r' rem c)"
  shows "gr_write_arg r' = gr_write_arg r"
proof -
  obtain b1 len saved1 where 1: "strtok buf saved CRLFCRLF = Ret (b1, len, saved1)"
    using assms by (cases "strtok buf saved CRLFCRLF") (auto simp: gfc_ok_def)
  with assms obtain l where l: "len = Some l" by (cases len) (auto simp: gfc_ok_def)
  with assms 1 obtain b2 content q where 2: "strtok b1 saved1 [LF, CR, LF] = Ret (b2, content, q)"
    by (cases "strtok b1 saved1 [LF, CR, LF]") (auto simp: gfc_ok_def Let_def)
  show ?thesis using assms 1 l 2
    by (auto simp: gfc_ok_def Let_def split: option.split_asm if_split_asm)
qed

lemma gfc_first_args:
  assumes "gfc_first r n d = Ret (Go r' rem c)"
  shows "gr_write_arg r' = gr_write_arg r"
proof -
  obtain b1 sc p1 where 1: "strtok (rx_buffer d) 0 [SP] = Ret (b1, sc, p1)"
    using assms by (cases "strtok (rx_buffer d) 0 [SP]") (auto simp: gfc_first_def)
  with assms obtain b2 st p2 where 2: "strtok b1 p1 [SP] = Ret (b2, st, p2)"
    by (cases "strtok b1 p1 [SP]") (auto simp: gfc_first_def)
  show ?thesis
    using assms 1 2 gfc_ok_args
    by (auto simp: gfc_first_def split: option.split_asm if_split_asm)
qed

lemma gfc_loop_args:
  "gfc_loop net rem fst0 r out = Ret (rc, r', ws) \<Longrightarrow> \<forall>w\<in>set out. snd (snd w) = gr_write_arg r \<Longrightarrow>
     \<forall>w\<in>set ws. snd (snd w) = gr_write_arg r"
proof (induction net rem fst0 r out rule: gfc_loop.induct)
  case (1 net rem fst0 r out)
  note run = 1(4) and out = 1(5)
  show ?case
  proof (cases "rem = 0")
    case True
    with run out show ?thesis by (subst (asm) gfc_loop.simps) simp
  next
    case False
    from run False obtain n d net' where rv: "recv BUFSIZE net = Ret (n, d, net')"
      by (subst (asm) gfc_loop.simps) (auto split: outcome.splits)
    show ?thesis
    proof (cases "n = 0")
      case True
      with run out False rv show ?thesis by (subst (asm) gfc_loop.simps) simp
    next
      case n: False
      show ?thesis
      proof (cases fst0)
        case True
        from run False rv n True obtain fs where fs: "gfc_first r n d = Ret fs"
          by (subst (asm) gfc_loop.simps) (auto split: outcome.splits)
        show ?thesis
        proof (cases fs)
          case (Stop k r1)
          with run out False rv n True fs show ?thesis by (subst (asm) gfc_loop.simps) simp
        next
          case (Go r1 rem1 c)
          have arg: "gr_write_arg r1 = gr_write_arg r" using gfc_first_args fs Go by blast
          show ?thesis
          proof (cases c)
            case None
            with run False rv n True fs Go have "gfc_loop net' rem1 False r1 out = Ret (rc, r', ws)"
              by (subst (asm) gfc_loop.simps) simp
            from 1(1) [OF False rv refl refl n True fs Go None this] out arg show ?thesis by simp
          next
            case (Some x)
            with run False rv n True fs Go obtain w where
                w: "write_call_of r1 x = Ret w" "gfc_loop net' rem1 False r1 (out @ [w]) = Ret (rc, r', ws)"
              by (subst (asm) gfc_loop.simps) (auto split: outcome.splits)
            then have "snd (snd w) = gr_write_arg r" using arg
              by (auto simp: write_call_of_def split: option.splits)
            with 1(2) [OF False rv refl refl n True fs Go Some w] out arg show ?thesis by simp
          qed
        qed
      next
        case fst0: False
        show ?thesis
        proof (cases "n < 0")
          case True
          with run False rv n fst0 show ?thesis by (subst (asm) gfc_loop.simps) simp
        next
          case pos: False
          with run False rv n fst0 obtain w where w: "write_call_of r d = Ret w"
            "gfc_loop net' (c_int (rem - n)) False
                (r\<lparr>gr_bytes_received := c_size (gr_bytes_received r + n)\<rparr>) (out @ [w]) = Ret (rc, r', ws)"
            by (subst (asm) gfc_loop.simps) (auto split: outcome.splits)
          then have "snd (snd w) = gr_write_arg r"
            by (auto simp: write_call_of_def split: option.splits)
          with 1(3) [OF False rv refl refl n fst0 pos w] out show ?thesis by simp
        qed
      qed
    qed
  qed
qed
lemma gfc_perform_args:
  assumes "gfc_perform env r = Ret (rc, r', ws)"
  shows "\<forall>w\<in>set ws. snd (snd w) = gr_write_arg r"
proof (cases "gfc_connect (env_addrs env) r")
  case (Pair x r1)
  have same: "gr_write_arg r1 = gr_write_arg r" using gfc_connect_frame [OF Pair] by (metis gfcrequest.select_convs(4) gfcrequest.surjective gfcrequest.update_convs(8))
  show ?thesis
  proof (cases x)
    case None
    with assms Pair show ?thesis by (auto simp: gfc_perform_def split: if_splits)
  next
    case (Some fd)
    define r2 where "r2 = (if env_send env = -1 then r1\<lparr>gr_status := GF_ERROR\<rparr> else r1)"
    have "gfc_loop (env_rx env) 100 True r2 [] = Ret (rc, r', ws)"
      using assms Pair Some by (auto simp: gfc_perform_def r2_def Let_def split: if_splits)
    from gfc_loop_args [OF this] same show ?thesis by (simp add: r2_def)
  qed
qed

text \<open>
  What a client relies on in the library: gfc\_perform hands the registered argument to the
  write callback. Under that contract a request leaves its file exactly when it succeeded.
\<close>

locale getfile_library =
  fixes perform :: "gfcrequest \<Rightarrow> (int \<times> gfcrequest \<times> write_call list) outcome"
  assumes args_law: "perform r = Ret (rc, r', ws) \<Longrightarrow> \<forall>w\<in>set ws. snd (snd w) = gr_write_arg r"

context getfile_library begin

lemma fetch_keeps:
  assumes "fetch disk perform junk server port req l h = Ret (rc, r, ops)" and "l \<noteq> []"
  shows "\<exists>ws. perform (fetch_request junk server port req h) = Ret (rc, r, ws) \<and>
    replay ops (m, t) =
      (m(l := if 0 \<le> rc \<and> gfc_get_status r = GF_OK
              then Some (concat (map (\<lambda>(_, d, _). d) ws)) else None), t(h := None))"
proof -
  obtain o1 ws where o1: "openFile disk l h = Ret o1"
      "perform (fetch_request junk server port req h) = Ret (rc, r, ws)"
      "ops = o1 @ map (\<lambda>(_, d, a). writecb d a) ws @
         (if rc < 0 then [Fclose h, Unlink l] else [Fclose h]) @
         (if gfc_get_status r \<noteq> GF_OK then [Unlink l] else [])"
    using assms(1) unfolding fetch_def by auto
  obtain ds where ds: "o1 = map (\<lambda>i. Mkdir (take i l)) ds @ [Fopen h l]"
    using openFile_ops [OF o1(1) assms(2)] by blast
  have "\<forall>w\<in>set ws. snd (snd w) = Some h"
    using args_law [OF o1(2)] by (simp add: fetch_request_def gfc_set_writearg_def)
  from replay_writes [OF _ _ this, of "t(h := Some l)" l "m(l := Some [])" "[]"]
  have "replay (o1 @ map (\<lambda>(_, d, a). writecb d a) ws) (m, t) =
      (m(l := Some (concat (map (\<lambda>(_, d, _). d) ws))), t(h := Some l))"
    unfolding ds replay_simps(3) replay_mkdirs by simp
  then show ?thesis using o1(2) unfolding o1(3)
    by (intro exI [of _ ws]) (auto simp flip: append_assoc simp del: map_append)
qed

end

interpretation gl: getfile_library "gfc_perform env" for env
  by unfold_locales (rule gfc_perform_args)

section \<open>Downloads from a server that has the files\<close>

text \<open>A network in which the server answers with the bytes of \<open>data\<close>, cut in any way.\<close>

definition serves :: "client_env \<Rightarrow> char list \<Rightarrow> bool" where
  "serves env data \<longleftrightarrow>
     env_gai env = 0 \<and> connect_loop (env_addrs env) \<noteq> None \<and> length data < 2 ^ 31 \<and>
     (\<exists>c rest. env_rx env = RData (ok_header (length data) @ c) # rest \<and> clean c \<and>
        length (ok_header (length data) @ c) < BUFSIZE \<and> stream rest \<and> c @ net_data rest = data)"

definition disk_ok :: "disk \<Rightarrow> bool" where
  "disk_ok disk \<longleftrightarrow> (\<forall>d. \<not> mkdir_fails disk d) \<and> (\<forall>p. \<not> fopen_fails disk p)"

lemma fetch_served:
  assumes "serves env data" and "disk_ok disk" and "length req \<le> 83" and "l \<noteq> []"
  shows "\<exists>r ops. fetch disk (gfc_perform env) junk server port req l h = Ret (0, r, ops) \<and>
    (\<forall>m t. replay ops (m, t) = (m(l := Some data), t(h := None)))"
proof -
  let ?gr = "fetch_request junk server port req h"
  obtain fd c rest where e: "env_gai env = 0" "connect_loop (env_addrs env) = Some fd"
      "env_rx env = RData (ok_header (length data) @ c) # rest" "clean c"
      "length (ok_header (length data) @ c) < BUFSIZE" "stream rest" "c @ net_data rest = data"
      "length data < 2 ^ 31"
    using assms(1) unfolding serves_def by blast
  have g: "length (gr_path ?gr) \<le> 83" "gr_file_length ?gr = 0" "gr_write_func ?gr = Some 1"
    using assms(3) by (simp_all add: fetch_request_def gfc_set_writearg_def gfc_set_writefunc_def
        gfc_set_server_def gfc_set_path_def gfc_set_port_def gfc_create_def)
  from gfc_perform_ok_response [OF e(1,2) g e(3-6) _ e(8)] e(7)
  obtain r ws where r: "gfc_perform env ?gr = Ret (0, r, ws)" "gfc_get_status r = GF_OK"
      "concat (map (\<lambda>(_, d, _). d) ws) = data" by auto
  obtain o1 where "openFile disk l h = Ret o1"
    using openFile_good assms(2,4) unfolding disk_ok_def by blast
  with r obtain ops where f: "fetch disk (gfc_perform env) junk server port req l h = Ret (0, r, ops)"
    by (simp add: fetch_def)
  have "replay ops (m, t) = (m(l := Some data), t(h := None))" for m t
    using gl.fetch_keeps [OF f assms(4), of m t] r by auto
  with f show ?thesis by blast
qed

text \<open>The files after the requests \<open>i\<close> to \<open>i + m - 1\<close>.\<close>

abbreviation store_all :: "(nat \<Rightarrow> string) \<Rightarrow> (nat \<Rightarrow> char list) \<Rightarrow> nat list \<Rightarrow>
    (string \<Rightarrow> char list option) \<Rightarrow> string \<Rightarrow> char list option" where
  "store_all name data is m \<equiv> fold (\<lambda>j f. f(name j := Some (data j))) is m"

lemma store_all_lookup:
  "inj_on name (set is) \<Longrightarrow> distinct is \<Longrightarrow> i \<in> set is \<Longrightarrow> store_all name data is m (name i) = Some (data i)"
proof (induction "is" rule: rev_induct)
  case (snoc j js)
  show ?case
  proof (cases "i = j")
    case False
    with snoc.prems(3) have i: "i \<in> set js" by simp
    have "name i \<noteq> name j"
    proof
      assume "name i = name j"
      then have "i = j" by (rule inj_onD [OF snoc.prems(1)]) (use i in simp_all)
      with False show False ..
    qed
    moreover have "store_all name data js m (name i) = Some (data i)"
      by (rule snoc.IH) (use snoc.prems i in \<open>auto simp: inj_on_def\<close>)
    ultimately show ?thesis by (simp del: fun_upd_apply add: fun_upd_other)
  qed simp
qed simp

lemma store_all_other: "p \<notin> name ` set is \<Longrightarrow> store_all name data is m p = m p"
  by (induction "is" rule: rev_induct) auto

lemma download_loop_served:
  assumes "holds_words ws wl" and "wl_counter wl = int i" and "i + m < 2 ^ 31"
    and "\<forall>w\<in>set ws. w \<noteq> [] \<and> length w \<le> 83" and "disk_ok disk"
    and "\<forall>j. i \<le> j \<and> j < i + m \<longrightarrow> serves (envs j) (data j)"
  shows "\<exists>ops wl'. download_loop disk envs junk server port m i wl = Ret (ops, replicate m 0, wl') \<and>
    (\<forall>fs t. fst (replay ops (fs, t)) =
       store_all (\<lambda>j. dl_localPath (ws ! (j mod length ws)) (int j)) data [i..<i + m] fs)"
  using assms
proof (induction m arbitrary: i wl)
  case 0
  then show ?case by (auto simp: replay_def)
next
  case (Suc m)
  define req where "req = ws ! (i mod length ws)"
  let ?l = "dl_localPath req (int i)"
  let ?w = "wl\<lparr>wl_counter := c_int (int i + 1)\<rparr>"
  have "ws \<noteq> []" using Suc.prems(1) by (simp add: holds_words_def)
  then have "req \<in> set ws" by (simp add: req_def)
  then have req: "req \<noteq> []" "length req \<le> 83" using Suc.prems(4) by auto
  have "?l \<noteq> []" by (cases "tl req") (simp_all add: dl_localPath_def DL_PATH_SIZE_def)
  moreover have "serves (envs i) (data i)" using Suc.prems(6) by simp
  ultimately obtain r ops where f: "fetch disk (gfc_perform (envs i)) junk server port req ?l i = Ret (0, r, ops)"
      "\<forall>fs t. replay ops (fs, t) = (fs(?l := Some (data i)), t(i := None))"
    using fetch_served [OF _ Suc.prems(5) req(2)] by blast
  have c: "c_int (int i + 1) = int (Suc i)" using Suc.prems(3) by (subst c_int_id) auto
  have "\<exists>ops wl'. download_loop disk envs junk server port m (Suc i) ?w = Ret (ops, replicate m 0, wl') \<and>
    (\<forall>fs t. fst (replay ops (fs, t)) =
       store_all (\<lambda>j. dl_localPath (ws ! (j mod length ws)) (int j)) data [Suc i..<Suc i + m] fs)"
    by (rule Suc.IH) (use Suc.prems in \<open>auto simp: holds_words_def c\<close>)
  then obtain ops' wl' where l: "download_loop disk envs junk server port m (Suc i) ?w = Ret (ops', replicate m 0, wl')"
    "\<forall>fs t. fst (replay ops' (fs, t)) =
       store_all (\<lambda>j. dl_localPath (ws ! (j mod length ws)) (int j)) data [Suc i..<Suc i + m] fs"
    by blast
  have u: "[i..<i + Suc m] = i # [Suc i..<Suc i + m]" by (simp add: upt_conv_Cons)
  have "download_loop disk envs junk server port (Suc m) i wl = Ret (ops @ ops', replicate (Suc m) 0, wl')"
    using workload_get_path_step [OF Suc.prems(1,2), of 0, folded req_def] f(1) l(1) req by simp
  moreover have "fst (replay (ops @ ops') (fs, t)) =
      store_all (\<lambda>j. dl_localPath (ws ! (j mod length ws)) (int j)) data [i..<i + Suc m] fs" for fs t
    using f(2) l(2) unfolding u by (simp add: req_def)
  ultimately show ?case by blast
qed

lemma dl_localPath_distinct:
  assumes "dl_localPath p (int i) = dl_localPath q (int j)" and "length p \<le> 83" and "length q \<le> 83"
    and "i < 1000000" and "j < 1000000"
  shows "i = j"
proof -
  have "tl p @ CHR ''_'' # show_06d (int i) = tl q @ CHR ''_'' # show_06d (int j)"
    using assms by (simp add: dl_localPath_def DL_PATH_SIZE_def length_show_06d)
  then have "CHR ''_'' # show_06d (int i) = CHR ''_'' # show_06d (int j)"
    by (rule append_eq_append_conv [THEN iffD1, THEN conjunct2, rotated])
      (simp add: length_show_06d assms(4,5))
  then show ?thesis by (simp add: show_06d_inject)
qed

section \<open>Properties\<close>


text \<open>Two requests of one path, and a server that has the file, for the witness.\<close>

definition good_disk :: disk where
  "good_disk = \<lparr>mkdir_fails = (\<lambda>d. False), fopen_fails = (\<lambda>p. False)\<rparr>"

lemma demo_serves: "serves (demo_env [RData (ok_header 5 @ ''ab''), RData ''cde'']) ''abcde''"
proof -
  have "clean ''ab''" "length (ok_header 5 @ ''ab'') < BUFSIZE"
    by (simp_all add: clean_def BUFSIZE_def)
  moreover have "length ''abcde'' = 5" by simp
  ultimately show ?thesis unfolding serves_def \<open>length ''abcde'' = 5\<close>
    by (intro conjI exI [of _ "''ab''"] exI [of _ "[RData ''cde'']"]) simp_all
qed


text \<open>
  What is kept of one request, whatever the server and the network do: when the request
  comes to its end, the local file exists exactly if gfc\_perform returned a code that is not
  negative and the status is OK, and then it holds the data of the write callbacks in order;
  the FILE* is closed and no other file has changed.
\<close>

theorem fetch_keeps_complete_files:
  assumes "fetch disk (gfc_perform env) junk server port req l h = Ret (rc, r, ops)" and "l \<noteq> []"
  shows "\<exists>ws. gfc_perform env (fetch_request junk server port req h) = Ret (rc, r, ws) \<and>
    replay ops (m, t) =
      (m(l := if 0 \<le> rc \<and> gfc_get_status r = GF_OK
              then Some (concat (map (\<lambda>(_, d, _). d) ws)) else None), t(h := None))"
  using gl.fetch_keeps [OF assms] .

theorem fetch_keeps_complete_files_witness:
  "\<exists>ops r. fetch good_disk (gfc_perform (demo_env [RData []])) demo_request ''h'' 1 ''/f'' ''f'' 0 = Ret (-1, r, ops) \<and>
     fst (replay ops (Map.empty, Map.empty)) ''f'' = None"
proof -
  let ?run = "fetch good_disk (gfc_perform (demo_env [RData []])) demo_request ''h'' 1 ''/f'' ''f'' 0"
  have "(case ?run of Ret (rc, _) \<Rightarrow> rc = -1 | _ \<Rightarrow> False)" by code_simp
  then obtain r ops where run: "?run = Ret (-1, r, ops)" by (auto split: outcome.splits)
  from fetch_keeps_complete_files [OF run, of Map.empty Map.empty]
  have "fst (replay ops (Map.empty, Map.empty)) ''f'' = None" by auto
  with run show ?thesis by blast
qed

end
