(* ===== verification/MTDownload.thy ===== *)
theory MTDownload
  imports MTClient GFDownload
begin

text \<open>
  multithreading/mtgf/gfclient\_download.c: one request of a worker thread, the step that
  \<open>MTClient\<close> takes as one. gfc\_perform is in gfclient\_noasan.o, which is not part of the
  sources; the contract \<open>getfile_library\<close> says what the worker relies on.
\<close>

definition mt_openFile :: "disk \<Rightarrow> string \<Rightarrow> nat \<Rightarrow> fop list outcome" where
  "mt_openFile disk path h =
     bind_outcome (mkdir_loop disk path 0) (\<lambda>ops.
       if fopen_fails disk path then Exits EXIT_FAILURE else Ret (ops @ [Fopen h path]))"

text \<open>From localPath to the unlinks; the worker sets the fields in another order than gflib.\<close>

definition mt_fetch ::
  "disk \<Rightarrow> (gfcrequest \<Rightarrow> (int \<times> gfcrequest \<times> write_call list) outcome) \<Rightarrow> gfcrequest \<Rightarrow>
   string \<Rightarrow> int \<Rightarrow> string \<Rightarrow> string \<Rightarrow> nat \<Rightarrow> (int \<times> gfcrequest \<times> fop list) outcome" where
  "mt_fetch disk perform junk server port req_path local_path h =
     bind_outcome (mt_openFile disk local_path h) (\<lambda>ops.
     bind_outcome (perform (gfc_set_writefunc (Some 1) (gfc_set_writearg (Some h)
         (gfc_set_server server (gfc_set_port port (gfc_set_path req_path (gfc_create junk)))))))
       (\<lambda>(rc, r, ws).
         Ret (rc, r,
           ops @ map (\<lambda>(_, d, a). writecb d a) ws @
           (if rc < 0 then [Fclose h, Unlink local_path] else [Fclose h]) @
           (if gfc_get_status r \<noteq> GF_OK then [Unlink local_path] else []))))"

lemma mt_request_eq:
  "gfc_set_writefunc (Some 1) (gfc_set_writearg (Some h)
     (gfc_set_server server (gfc_set_port port (gfc_set_path path r)))) =
   gfc_set_writearg (Some h) (gfc_set_writefunc (Some 1)
     (gfc_set_server server (gfc_set_path path (gfc_set_port port r))))"
  by (cases r) (simp add: gfc_set_writearg_def gfc_set_writefunc_def gfc_set_server_def
      gfc_set_port_def gfc_set_path_def)

lemma mt_fetch_eq: "mt_fetch = fetch"
  by (intro ext) (simp only: mt_fetch_def fetch_def mt_openFile_def openFile_def fetch_request_def mt_request_eq)

context getfile_library begin

lemma mt_fetch_keeps:
  assumes "mt_fetch disk perform junk server port rq l h = Ret (rc, r, ops)" and "l \<noteq> []"
  shows "\<exists>ws. perform (fetch_request junk server port rq h) = Ret (rc, r, ws) \<and>
    replay ops (m, t) =
      (m(l := if 0 \<le> rc \<and> gfc_get_status r = GF_OK
              then Some (concat (map (\<lambda>(_, d, _). d) ws)) else None), t(h := None))"
  using fetch_keeps assms unfolding mt_fetch_eq .

end

text \<open>
  Two workers that were given the same local path, as the race on the counter allows: the file
  that is left is the one of the request that came last, also when that request failed.
\<close>

lemma mt_fetch_same_path:
  assumes "mt_fetch disk (gfc_perform env1) junk server port rq1 l h1 = Ret (rc1, r1, ops1)"
    and "mt_fetch disk (gfc_perform env2) junk server port rq2 l h2 = Ret (rc2, r2, ops2)"
    and "l \<noteq> []" and "rc2 < 0"
  shows "fst (replay (ops1 @ ops2) (m, t)) l = None"
proof -
  obtain m' t' where "replay ops1 (m, t) = (m', t')" by (cases "replay ops1 (m, t)")
  with gl.mt_fetch_keeps [OF assms(2,3), of m' t'] assms(4) show ?thesis by auto
qed

end
