(* ===== verification/CacheIPC.thy ===== *)
theory CacheIPC
  imports MTServer
begin

text \<open>
  ipc/cache: one request between the proxy (handle\_with\_cache in handle\_with\_cache.c) and a
  thread of the cache process (worker\_thread in simplecached.c). They share a segment that
  holds a struct message and two semaphores. The two processes are interleaved step by step; a
  step is one access to the segment or one operation on a semaphore or the message queue.
\<close>

section \<open>The segment\<close>

text \<open>MAX\_SIMPLE\_CACHE\_QUEUE\_SIZE, the size of the content field.\<close>

definition SEG_CHUNK :: nat where "SEG_CHUNK = 824"

text \<open>The size of the path field.\<close>

definition MSG_PATH :: nat where "MSG_PATH = 256"

text \<open>struct message of cache-student.h, as far as it is used through the segment.\<close>

record message =
  m_type :: int
  m_content :: "char list"
  m_file_len :: int
  m_content_len :: int

definition zero_message :: message where
  "zero_message = \<lparr>m_type = 0, m_content = replicate SEG_CHUNK NUL, m_file_len = 0, m_content_len = 0\<rparr>"

text \<open>
  What the system calls and the library return: simplecache\_get, fstat and pread in the cache
  process (None is -1), and the result of gfs\_sendheader in the proxy.
\<close>

record cache_env =
  ce_get :: "string \<Rightarrow> int"
  ce_fstat :: "int \<Rightarrow> int option"
  ce_pread :: "int \<Rightarrow> nat \<Rightarrow> int \<Rightarrow> char list option"
  ce_header :: int

section \<open>The two processes\<close>

text \<open>
  The proxy: before mq\_send; before the first sem\_wait on sem\_1; at the test of the type; at
  the test of the loop with the bytes transferred; before the sem\_wait of the loop; before the
  memcpy and gfs\_send; before the sem\_post on sem\_2; before the memset that ends the request,
  with the return value; returned; behind the end of the path field, because the path did not fit.
\<close>

datatype ppc =
    PSend | PHeader | PType | PLoop nat | PTake nat | PCopy nat | PPost nat | PClear | PDone int | POverrun

text \<open>
  The cache thread: before mq\_receive; before simplecache\_get; before it writes the type of a
  missing file, and before the post after that; before fstat; before it writes the header
  fields, and before the post after that; before pread at an offset; with a piece, before the
  sem\_wait on sem\_2, before the memcpy, and before the sem\_post on sem\_1; back at the top of its
  loop; returned because of a failing fstat.
\<close>

datatype cpc =
    CIdle | CGet string | CMiss | CMissPost | CStat int | CHead int int | CHeadPost int
  | CRead int nat | CWait int nat "char list" | CCopy int nat "char list" | CPost int nat "char list"
  | CDone | CReturned

record xfer =
  x_msg :: message
  x_sem1 :: nat
  x_sem2 :: nat
  x_mq :: "string list"
  x_proxy :: ppc
  x_cache :: cpc
  x_calls :: "reply list"

text \<open>webproxy.c creates the segment with sem\_1 at 0 and sem\_2 at 1.\<close>

definition xfer_start :: xfer where
  "xfer_start =
     \<lparr>x_msg = zero_message, x_sem1 = 0, x_sem2 = 1, x_mq = [], x_proxy = PSend, x_cache = CIdle, x_calls = []\<rparr>"

definition handle_with_cache :: "cache_env \<Rightarrow> string \<Rightarrow> xfer \<Rightarrow> xfer option" where
  "handle_with_cache env path s =
     (case x_proxy s of
        PSend \<Rightarrow>
          if MSG_PATH \<le> length path then Some (s\<lparr>x_proxy := POverrun\<rparr>)
          else Some (s\<lparr>x_mq := x_mq s @ [path], x_proxy := PHeader\<rparr>)
      | PHeader \<Rightarrow>
          if 0 < x_sem1 s then Some (s\<lparr>x_sem1 := x_sem1 s - 1, x_proxy := PType\<rparr>) else None
      | PType \<Rightarrow>
          if m_type (x_msg s) = -1
          then Some (s\<lparr>x_msg := zero_message, x_calls := x_calls s @ [SendHeader GFS_FILE_NOT_FOUND 0],
                       x_proxy := PDone (ce_header env)\<rparr>)
          else Some (s\<lparr>x_calls := x_calls s @ [SendHeader GFS_OK (m_file_len (x_msg s))],
                       x_proxy := PLoop 0\<rparr>)
      | PLoop b \<Rightarrow>
          Some (s\<lparr>x_proxy := (if int b < m_file_len (x_msg s) then PTake b else PClear)\<rparr>)
      | PTake b \<Rightarrow>
          if 0 < x_sem1 s then Some (s\<lparr>x_sem1 := x_sem1 s - 1, x_proxy := PCopy b\<rparr>) else None
      | PCopy b \<Rightarrow>
          (let n = nat (m_content_len (x_msg s))
           in Some (s\<lparr>x_calls := x_calls s @ [SendData (take n (m_content (x_msg s)))],
                      x_proxy := PPost (b + n)\<rparr>))
      | PPost b \<Rightarrow> Some (s\<lparr>x_sem2 := x_sem2 s + 1, x_proxy := PLoop b\<rparr>)
      | PClear \<Rightarrow> Some (s\<lparr>x_msg := zero_message, x_proxy := PDone (ce_header env)\<rparr>)
      | PDone r \<Rightarrow> None
      | POverrun \<Rightarrow> None)"

definition cache_worker :: "cache_env \<Rightarrow> xfer \<Rightarrow> xfer option" where
  "cache_worker env s =
     (case x_cache s of
        CIdle \<Rightarrow>
          (case x_mq s of [] \<Rightarrow> None | p # ps \<Rightarrow> Some (s\<lparr>x_mq := ps, x_cache := CGet p\<rparr>))
      | CGet p \<Rightarrow>
          Some (s\<lparr>x_cache := (if ce_get env p = -1 then CMiss else CStat (ce_get env p))\<rparr>)
      | CMiss \<Rightarrow> Some (s\<lparr>x_msg := (x_msg s)\<lparr>m_type := -1\<rparr>, x_cache := CMissPost\<rparr>)
      | CMissPost \<Rightarrow> Some (s\<lparr>x_sem1 := x_sem1 s + 1, x_cache := CDone\<rparr>)
      | CStat fd \<Rightarrow>
          (case ce_fstat env fd of
             None \<Rightarrow> Some (s\<lparr>x_cache := CReturned\<rparr>)
           | Some sz \<Rightarrow> Some (s\<lparr>x_cache := CHead fd (c_int sz)\<rparr>))
      | CHead fd sz \<Rightarrow>
          Some (s\<lparr>x_msg := (x_msg s)\<lparr>m_type := 1, m_file_len := sz\<rparr>, x_cache := CHeadPost fd\<rparr>)
      | CHeadPost fd \<Rightarrow> Some (s\<lparr>x_sem1 := x_sem1 s + 1, x_cache := CRead fd 0\<rparr>)
      | CRead fd off \<Rightarrow>
          (case ce_pread env fd SEG_CHUNK (int off) of
             None \<Rightarrow> Some (s\<lparr>x_cache := CDone\<rparr>)
           | Some d \<Rightarrow> Some (s\<lparr>x_cache := (if d = [] then CDone else CWait fd off d)\<rparr>))
      | CWait fd off d \<Rightarrow>
          if 0 < x_sem2 s then Some (s\<lparr>x_sem2 := x_sem2 s - 1, x_cache := CCopy fd off d\<rparr>) else None
      | CCopy fd off d \<Rightarrow>
          Some (s\<lparr>x_msg := (x_msg s)\<lparr>m_content := d @ replicate (SEG_CHUNK - length d) NUL,
                     m_content_len := int (length d)\<rparr>, x_cache := CPost fd off d\<rparr>)
      | CPost fd off d \<Rightarrow> Some (s\<lparr>x_sem1 := x_sem1 s + 1, x_cache := CRead fd (off + length d)\<rparr>)
      | CDone \<Rightarrow> None
      | CReturned \<Rightarrow> None)"

text \<open>Any interleaving of the two.\<close>

inductive xfer_reach :: "cache_env \<Rightarrow> string \<Rightarrow> xfer \<Rightarrow> bool" for env path where
  xfer_init: "xfer_reach env path xfer_start"
| xfer_proxy: "xfer_reach env path s \<Longrightarrow> handle_with_cache env path s = Some s' \<Longrightarrow> xfer_reach env path s'"
| xfer_cache: "xfer_reach env path s \<Longrightarrow> cache_worker env s = Some s' \<Longrightarrow> xfer_reach env path s'"

definition xfer_stuck :: "cache_env \<Rightarrow> string \<Rightarrow> xfer \<Rightarrow> bool" where
  "xfer_stuck env path s \<longleftrightarrow> handle_with_cache env path s = None \<and> cache_worker env s = None"

section \<open>The protocol when the file is found\<close>

text \<open>pread of a file in pieces of at most \<open>n\<close>, none of them empty before the end.\<close>

definition file_reads ::
  "(int \<Rightarrow> nat \<Rightarrow> int \<Rightarrow> char list option) \<Rightarrow> int \<Rightarrow> nat \<Rightarrow> char list \<Rightarrow> bool" where
  "file_reads pread fd n data \<longleftrightarrow>
     (\<forall>off < length data. \<exists>k > 0. k \<le> n \<and> off + k \<le> length data \<and>
        pread fd n (int off) = Some (take k (drop off data))) \<and>
     pread fd n (int (length data)) = Some []"

text \<open>The bytes that have been posted by the cache and those that the proxy has passed on.\<close>

fun posted :: "nat \<Rightarrow> cpc \<Rightarrow> nat" where
  "posted len (CRead fd off) = off"
| "posted len (CWait fd off d) = off"
| "posted len (CCopy fd off d) = off"
| "posted len (CPost fd off d) = off"
| "posted len CDone = len"
| "posted len _ = 0"

fun passed :: "nat \<Rightarrow> ppc \<Rightarrow> nat" where
  "passed len (PLoop b) = b"
| "passed len (PTake b) = b"
| "passed len (PCopy b) = b"
| "passed len (PPost b) = b"
| "passed len PClear = len"
| "passed len (PDone r) = len"
| "passed len _ = 0"

fun header_posted :: "cpc \<Rightarrow> bool" where
  "header_posted (CRead fd off) = True"
| "header_posted (CWait fd off d) = True"
| "header_posted (CCopy fd off d) = True"
| "header_posted (CPost fd off d) = True"
| "header_posted CDone = True"
| "header_posted _ = False"

fun header_taken :: "ppc \<Rightarrow> bool" where
  "header_taken PSend = False" | "header_taken PHeader = False" | "header_taken _ = True"

fun cache_holds :: "cpc \<Rightarrow> bool" where
  "cache_holds (CCopy fd off d) = True" | "cache_holds (CPost fd off d) = True" | "cache_holds _ = False"

fun proxy_holds :: "ppc \<Rightarrow> bool" where
  "proxy_holds (PCopy b) = True" | "proxy_holds (PPost b) = True" | "proxy_holds _ = False"

lemma posted_zero: "\<not> header_posted cp \<Longrightarrow> posted len cp = 0"
  by (cases cp) auto

text \<open>A piece is in the segment, posted and not yet taken.\<close>

definition chunk_ready :: "nat \<Rightarrow> xfer \<Rightarrow> bool" where
  "chunk_ready len s \<longleftrightarrow> passed len (x_proxy s) < posted len (x_cache s) \<and> \<not> proxy_holds (x_proxy s)"

text \<open>Where the cache thread can be on this file, with the piece it holds.\<close>

fun cache_at :: "cache_env \<Rightarrow> string \<Rightarrow> int \<Rightarrow> char list \<Rightarrow> xfer \<Rightarrow> cpc \<Rightarrow> bool" where
  "cache_at env path fd data s CIdle = (x_mq s = (if x_proxy s = PSend then [] else [path]))"
| "cache_at env path fd data s (CGet p) = (p = path \<and> x_mq s = [])"
| "cache_at env path fd data s (CStat f) = (f = fd \<and> x_mq s = [])"
| "cache_at env path fd data s (CHead f sz) = (f = fd \<and> sz = int (length data) \<and> x_mq s = [])"
| "cache_at env path fd data s (CHeadPost f) =
     (f = fd \<and> x_mq s = [] \<and> m_type (x_msg s) = 1 \<and> m_file_len (x_msg s) = int (length data))"
| "cache_at env path fd data s (CRead f off) = (f = fd \<and> off \<le> length data \<and> x_mq s = [])"
| "cache_at env path fd data s (CWait f off d) =
     (f = fd \<and> d \<noteq> [] \<and> length d \<le> SEG_CHUNK \<and> off + length d \<le> length data \<and>
      d = take (length d) (drop off data) \<and> x_mq s = [])"
| "cache_at env path fd data s (CCopy f off d) =
     (f = fd \<and> d \<noteq> [] \<and> length d \<le> SEG_CHUNK \<and> off + length d \<le> length data \<and>
      d = take (length d) (drop off data) \<and> x_mq s = [])"
| "cache_at env path fd data s (CPost f off d) =
     (f = fd \<and> d \<noteq> [] \<and> length d \<le> SEG_CHUNK \<and> off + length d \<le> length data \<and>
      d = take (length d) (drop off data) \<and> x_mq s = [] \<and>
      m_content_len (x_msg s) = int (length d) \<and> take (length d) (m_content (x_msg s)) = d)"
| "cache_at env path fd data s CDone = (x_mq s = [])"
| "cache_at env path fd data s _ = False"

definition calls_ok :: "char list \<Rightarrow> xfer \<Rightarrow> bool" where
  "calls_ok data s \<longleftrightarrow>
     (case x_proxy s of
        PSend \<Rightarrow> x_calls s = [] | PHeader \<Rightarrow> x_calls s = [] | PType \<Rightarrow> x_calls s = []
      | POverrun \<Rightarrow> False
      | pc \<Rightarrow> \<exists>ds. x_calls s = SendHeader GFS_OK (int (length data)) # map SendData ds \<and>
                 concat ds = take (passed (length data) pc) data)"

text \<open>The semaphores and the counts.\<close>

definition sync_inv :: "nat \<Rightarrow> xfer \<Rightarrow> bool" where
  "sync_inv len s \<longleftrightarrow>
     (header_taken (x_proxy s) \<longrightarrow> header_posted (x_cache s)) \<and>
     passed len (x_proxy s) \<le> posted len (x_cache s) \<and> posted len (x_cache s) \<le> len \<and>
     x_sem1 s = (if header_posted (x_cache s) \<and> \<not> header_taken (x_proxy s) then 1 else 0) +
       (if chunk_ready len s then 1 else 0) \<and>
     x_sem2 s + (if chunk_ready len s then 1 else 0) + (if cache_holds (x_cache s) then 1 else 0) +
       (if proxy_holds (x_proxy s) then 1 else 0) = 1 \<and>
     (\<forall>b. x_proxy s = PPost b \<longrightarrow> posted len (x_cache s) = b) \<and>
     (\<forall>b. x_proxy s = PCopy b \<longrightarrow> b < posted len (x_cache s)) \<and>
     (\<forall>b. x_proxy s = PTake b \<longrightarrow> b < len) \<and>
     (x_proxy s = PSend \<longrightarrow> x_cache s = CIdle)"

text \<open>The contents of the segment.\<close>

definition msg_inv :: "char list \<Rightarrow> xfer \<Rightarrow> bool" where
  "msg_inv data s \<longleftrightarrow>
     (let len = length data; b = passed len (x_proxy s); n = posted len (x_cache s) - b
      in (header_posted (x_cache s) \<and> (\<forall>r. x_proxy s \<noteq> PDone r) \<longrightarrow>
            m_type (x_msg s) = 1 \<and> m_file_len (x_msg s) = int len) \<and>
         (0 < n \<longrightarrow>
            m_content_len (x_msg s) = int n \<and> take n (m_content (x_msg s)) = take n (drop b data)))"

definition xfer_inv :: "cache_env \<Rightarrow> string \<Rightarrow> int \<Rightarrow> char list \<Rightarrow> xfer \<Rightarrow> bool" where
  "xfer_inv env path fd data s \<longleftrightarrow>
     cache_at env path fd data s (x_cache s) \<and> calls_ok data s \<and> sync_inv (length data) s \<and> msg_inv data s"

lemma xfer_start_inv: "xfer_inv env path fd data xfer_start"
  by (simp add: xfer_inv_def xfer_start_def calls_ok_def chunk_ready_def sync_inv_def msg_inv_def)

lemma cache_at_cong:
  assumes "cache_at env path fd data s cp" and "x_mq s' = x_mq s" and "x_msg s' = x_msg s"
    and "(x_proxy s' = PSend) = (x_proxy s = PSend)"
  shows "cache_at env path fd data s' cp"
  using assms by (cases cp) auto

text \<open>The proxy's steps that leave the segment alone.\<close>

lemma proxy_quiet:
  assumes inv: "xfer_inv env path fd data s" and "x_proxy s \<noteq> PSend" and "pc \<noteq> PSend" and "\<forall>r. pc \<noteq> PDone r"
    and "\<forall>r. x_proxy s \<noteq> PDone r"
    and s': "s' = s\<lparr>x_sem1 := a, x_sem2 := b, x_calls := c, x_proxy := pc\<rparr>"
    and "calls_ok data s'" and "sync_inv (length data) s'"
    and "passed (length data) pc = passed (length data) (x_proxy s) \<or>
      posted (length data) (x_cache s) \<le> passed (length data) pc"
  shows "xfer_inv env path fd data s'"
proof -
  have "cache_at env path fd data s (x_cache s)" using inv by (simp only: xfer_inv_def)
  then have "cache_at env path fd data s' (x_cache s)"
    by (rule cache_at_cong) (simp_all add: s' assms(2,3))
  then have "cache_at env path fd data s' (x_cache s')" by (simp add: s')
  moreover have "msg_inv data s'"
  proof -
    have m: "msg_inv data s" using inv by (simp add: xfer_inv_def)
    have 1: "header_posted (x_cache s) \<longrightarrow> m_type (x_msg s) = 1 \<and> m_file_len (x_msg s) = int (length data)"
      using m assms(5) unfolding msg_inv_def Let_def by blast
    from assms(9) show ?thesis
    proof
      assume "passed (length data) pc = passed (length data) (x_proxy s)"
      with m 1 show ?thesis unfolding s' msg_inv_def Let_def by simp
    next
      assume "posted (length data) (x_cache s) \<le> passed (length data) pc"
      with 1 show ?thesis unfolding s' msg_inv_def Let_def by simp
    qed
  qed
  ultimately show ?thesis using assms(7,8) by (simp add: xfer_inv_def)
qed

lemma sync_invD:
  assumes "xfer_inv env path fd data s"
  shows "header_taken (x_proxy s) \<longrightarrow> header_posted (x_cache s)"
    and "passed (length data) (x_proxy s) \<le> posted (length data) (x_cache s)"
    and "posted (length data) (x_cache s) \<le> length data"
    and "x_sem1 s = (if header_posted (x_cache s) \<and> \<not> header_taken (x_proxy s) then 1 else 0) +
       (if chunk_ready (length data) s then 1 else 0)"
    and "x_sem2 s + (if chunk_ready (length data) s then 1 else 0) + (if cache_holds (x_cache s) then 1 else 0) +
       (if proxy_holds (x_proxy s) then 1 else 0) = 1"
    and "x_proxy s = PPost b \<Longrightarrow> posted (length data) (x_cache s) = b"
    and "x_proxy s = PCopy b \<Longrightarrow> b < posted (length data) (x_cache s)"
    and "x_proxy s = PTake b \<Longrightarrow> b < length data"
    and "x_proxy s = PSend \<Longrightarrow> x_cache s = CIdle"
  using assms unfolding xfer_inv_def sync_inv_def by blast+

lemma file_len_known:
  assumes "xfer_inv env path fd data s" and "header_taken (x_proxy s)" and "\<forall>r. x_proxy s \<noteq> PDone r"
  shows "m_type (x_msg s) = 1" and "m_file_len (x_msg s) = int (length data)"
  using assms sync_invD(1) [OF assms(1)] unfolding xfer_inv_def msg_inv_def Let_def by blast+

lemma proxy_inv:
  assumes inv: "xfer_inv env path fd data s" and step: "handle_with_cache env path s = Some s'"
    and path: "length path < MSG_PATH"
  shows "xfer_inv env path fd data s'"
proof (cases "x_proxy s")
  case PSend
  then have s': "s' = s\<lparr>x_mq := x_mq s @ [path], x_proxy := PHeader\<rparr>"
    using step path by (simp add: handle_with_cache_def)
  have c: "x_cache s = CIdle" using sync_invD(9) [OF inv PSend] .
  have "cache_at env path fd data s' (x_cache s')" using inv PSend c unfolding s' by (simp add: xfer_inv_def)
  moreover have "calls_ok data s'" using inv PSend unfolding s' by (simp add: xfer_inv_def calls_ok_def)
  moreover have "sync_inv (length data) s'" using sync_invD [OF inv] PSend c unfolding s'
    by (simp add: sync_inv_def chunk_ready_def)
  moreover have "msg_inv data s'" unfolding s' msg_inv_def Let_def using c by simp
  ultimately show ?thesis by (simp add: xfer_inv_def)
next
  case PHeader
  then have h: "0 < x_sem1 s" and s': "s' = s\<lparr>x_sem1 := x_sem1 s - 1, x_sem2 := x_sem2 s, x_calls := x_calls s, x_proxy := PType\<rparr>"
    using step by (auto simp: handle_with_cache_def split: if_splits)
  show ?thesis
  proof (rule proxy_quiet [OF inv _ _ _ _ s'])
    show "sync_inv (length data) s'" using sync_invD [OF inv] PHeader h posted_zero unfolding s'
      by (auto simp: sync_inv_def chunk_ready_def split: if_splits)
    show "calls_ok data s'" using inv PHeader unfolding s' by (simp add: xfer_inv_def calls_ok_def)
  qed (use PHeader in simp_all)
next
  case PType
  with file_len_known [OF inv] have
    s': "s' = s\<lparr>x_sem1 := x_sem1 s, x_sem2 := x_sem2 s, x_calls := x_calls s @ [SendHeader GFS_OK (int (length data))], x_proxy := PLoop 0\<rparr>"
    using step by (auto simp: handle_with_cache_def split: if_splits)
  show ?thesis
  proof (rule proxy_quiet [OF inv _ _ _ _ s'])
    show "sync_inv (length data) s'" using sync_invD [OF inv] PType unfolding s'
      by (simp add: sync_inv_def chunk_ready_def)
    show "calls_ok data s'" using inv PType unfolding s' by (simp add: xfer_inv_def calls_ok_def)
  qed (use PType in simp_all)
next
  case (PLoop b)
  with file_len_known [OF inv] have
    s': "s' = s\<lparr>x_sem1 := x_sem1 s, x_sem2 := x_sem2 s, x_calls := x_calls s,
      x_proxy := (if b < length data then PTake b else PClear)\<rparr>"
    using step by (auto simp: handle_with_cache_def)
  have b: "b \<le> length data" using sync_invD(2,3) [OF inv] PLoop by simp
  show ?thesis
  proof (rule proxy_quiet [OF inv _ _ _ _ s'])
    show "sync_inv (length data) s'" using sync_invD [OF inv] PLoop b unfolding s'
      by (auto simp: sync_inv_def chunk_ready_def split: if_splits)
    show "calls_ok data s'" using inv PLoop b unfolding s' by (auto simp: xfer_inv_def calls_ok_def)
  qed (use PLoop b in simp_all)
next
  case (PTake b)
  then have h: "0 < x_sem1 s" and s': "s' = s\<lparr>x_sem1 := x_sem1 s - 1, x_sem2 := x_sem2 s, x_calls := x_calls s, x_proxy := PCopy b\<rparr>"
    using step by (auto simp: handle_with_cache_def split: if_splits)
  show ?thesis
  proof (rule proxy_quiet [OF inv _ _ _ _ s'])
    show "sync_inv (length data) s'" using sync_invD [OF inv] PTake h unfolding s'
      by (auto simp: sync_inv_def chunk_ready_def split: if_splits)
    show "calls_ok data s'" using inv PTake unfolding s' by (simp add: xfer_inv_def calls_ok_def)
  qed (use PTake in simp_all)
next
  case (PCopy b)
  let ?q = "posted (length data) (x_cache s)"
  have q: "b < ?q" "?q \<le> length data" using sync_invD(3,7) [OF inv] PCopy by auto
  then have n: "m_content_len (x_msg s) = int (?q - b)"
    "take (?q - b) (m_content (x_msg s)) = take (?q - b) (drop b data)"
    using inv PCopy unfolding xfer_inv_def msg_inv_def Let_def by auto
  moreover have "nat (int ?q - int b) = ?q - b" "b + (?q - b) = ?q" using q by simp_all
  moreover have "int (?q - b) = int ?q - int b" using q by simp
  ultimately have s': "s' = s\<lparr>x_sem1 := x_sem1 s, x_sem2 := x_sem2 s,
      x_calls := x_calls s @ [SendData (take (?q - b) (drop b data))], x_proxy := PPost ?q\<rparr>"
    using step PCopy by (simp add: handle_with_cache_def Let_def del: of_nat_diff)
  show ?thesis
  proof (rule proxy_quiet [OF inv _ _ _ _ s'])
    show "sync_inv (length data) s'" using sync_invD [OF inv] PCopy unfolding s'
      by (simp add: sync_inv_def chunk_ready_def)
    obtain ds where "x_calls s = SendHeader GFS_OK (int (length data)) # map SendData ds" "concat ds = take b data"
      using inv PCopy by (auto simp: xfer_inv_def calls_ok_def)
    moreover have "take b data @ take (?q - b) (drop b data) = take ?q data"
      using q take_then_drop [of b data "?q - b"] by simp
    ultimately show "calls_ok data s'" unfolding s'
      by (simp add: calls_ok_def) (intro exI [of _ "ds @ [take (?q - b) (drop b data)]"], simp)
  qed (use PCopy q in simp_all)
next
  case (PPost b)
  then have s': "s' = s\<lparr>x_sem1 := x_sem1 s, x_sem2 := x_sem2 s + 1, x_calls := x_calls s, x_proxy := PLoop b\<rparr>"
    using step by (simp add: handle_with_cache_def)
  show ?thesis
  proof (rule proxy_quiet [OF inv _ _ _ _ s'])
    show "sync_inv (length data) s'" using sync_invD [OF inv] PPost unfolding s'
      by (simp add: sync_inv_def chunk_ready_def split: if_splits)
    show "calls_ok data s'" using inv PPost unfolding s' by (simp add: xfer_inv_def calls_ok_def)
  qed (use PPost in simp_all)
next
  case PClear
  then have s': "s' = s\<lparr>x_msg := zero_message, x_proxy := PDone (ce_header env)\<rparr>"
    using step by (simp add: handle_with_cache_def)
  have q: "posted (length data) (x_cache s) = length data" using sync_invD(2,3) [OF inv] PClear by simp
  have "cache_at env path fd data s' (x_cache s')"
    using inv q PClear sync_invD(1) [OF inv] unfolding s' by (cases "x_cache s") (auto simp: xfer_inv_def)
  moreover have "calls_ok data s'" using inv PClear unfolding s' by (simp add: xfer_inv_def calls_ok_def)
  moreover have "sync_inv (length data) s'" using sync_invD [OF inv] PClear unfolding s'
    by (simp add: sync_inv_def chunk_ready_def)
  moreover have "msg_inv data s'" unfolding s' msg_inv_def Let_def using q by simp
  ultimately show ?thesis by (simp add: xfer_inv_def)
next
  case (PDone r)
  with step show ?thesis by (simp add: handle_with_cache_def)
next
  case POverrun
  with step show ?thesis by (simp add: handle_with_cache_def)
qed

lemma cache_frame:
  assumes "cache_worker env s = Some s'"
  shows "x_proxy s' = x_proxy s" and "x_calls s' = x_calls s"
  using assms by (auto simp: cache_worker_def split: cpc.splits list.splits option.splits if_splits)

text \<open>The steps of the cache thread on a file that is found.\<close>

lemma cache_inv:
  assumes inv: "xfer_inv env path fd data s" and step: "cache_worker env s = Some s'"
    and get: "ce_get env path = fd" "fd \<noteq> -1" and stat: "ce_fstat env fd = Some (int (length data))"
    and len: "int (length data) \<le> INT_MAX" and reads: "file_reads (ce_pread env) fd SEG_CHUNK data"
  shows "xfer_inv env path fd data s'"
proof -
  have "calls_ok data s" using inv by (simp only: xfer_inv_def)
  then have c: "calls_ok data s'" unfolding calls_ok_def cache_frame [OF step] .
  show ?thesis
  proof (cases "x_cache s")
  case CIdle
  then have mq: "x_mq s = (if x_proxy s = PSend then [] else [path])" using inv by (simp add: xfer_inv_def)
  then have p: "x_proxy s \<noteq> PSend" and s': "s' = s\<lparr>x_mq := [], x_cache := CGet path\<rparr>"
    using step CIdle by (auto simp: cache_worker_def split: if_splits)
  have "sync_inv (length data) s'" using sync_invD [OF inv] CIdle p unfolding s'
    by (auto simp: sync_inv_def chunk_ready_def)
  moreover have "msg_inv data s'" unfolding s' msg_inv_def by simp
  ultimately show ?thesis using inv c unfolding s' by (simp add: xfer_inv_def)
next
  case (CGet p)
  then have p: "p = path" "x_mq s = []" using inv by (simp_all add: xfer_inv_def)
  then have s': "s' = s\<lparr>x_cache := CStat fd\<rparr>" using step CGet get by (simp add: cache_worker_def)
  have "sync_inv (length data) s'" using sync_invD [OF inv] CGet unfolding s'
    by (auto simp: sync_inv_def chunk_ready_def)
  moreover have "msg_inv data s'" unfolding s' msg_inv_def by simp
  ultimately show ?thesis using inv p c unfolding s' by (simp add: xfer_inv_def)
next
  case (CStat f)
  then have p: "f = fd" "x_mq s = []" using inv by (simp_all add: xfer_inv_def)
  have "c_int (int (length data)) = int (length data)" using len by (intro c_int_nonneg) auto
  then have s': "s' = s\<lparr>x_cache := CHead fd (int (length data))\<rparr>"
    using step CStat p stat by (simp add: cache_worker_def)
  have "sync_inv (length data) s'" using sync_invD [OF inv] CStat unfolding s'
    by (auto simp: sync_inv_def chunk_ready_def)
  moreover have "msg_inv data s'" unfolding s' msg_inv_def by simp
  ultimately show ?thesis using inv p c unfolding s' by (simp add: xfer_inv_def)
next
  case (CHead f sz)
  then have p: "f = fd" "sz = int (length data)" "x_mq s = []" using inv by (simp_all add: xfer_inv_def)
  then have s': "s' = s\<lparr>x_msg := (x_msg s)\<lparr>m_type := 1, m_file_len := int (length data)\<rparr>, x_cache := CHeadPost fd\<rparr>"
    using step CHead by (simp add: cache_worker_def)
  have "sync_inv (length data) s'" using sync_invD [OF inv] CHead unfolding s'
    by (auto simp: sync_inv_def chunk_ready_def)
  moreover have "msg_inv data s'" unfolding s' msg_inv_def by simp
  ultimately show ?thesis using inv p c unfolding s' by (simp add: xfer_inv_def)
next
  case (CHeadPost f)
  then have p: "f = fd" "x_mq s = []" "m_type (x_msg s) = 1" "m_file_len (x_msg s) = int (length data)"
    using inv by (simp_all add: xfer_inv_def)
  then have s': "s' = s\<lparr>x_sem1 := x_sem1 s + 1, x_cache := CRead fd 0\<rparr>"
    using step CHeadPost by (simp add: cache_worker_def)
  have "sync_inv (length data) s'" using sync_invD [OF inv] CHeadPost unfolding s'
    by (auto simp: sync_inv_def chunk_ready_def)
  moreover have "msg_inv data s'" unfolding s' msg_inv_def using p by simp
  ultimately show ?thesis using inv p c unfolding s' by (simp add: xfer_inv_def)
next
  case (CRead f off)
  then have p: "f = fd" "off \<le> length data" "x_mq s = []" using inv by (simp_all add: xfer_inv_def)
  have m: "msg_inv data s" using inv by (simp add: xfer_inv_def)
  show ?thesis
  proof (cases "off = length data")
    case True
    then have s': "s' = s\<lparr>x_cache := CDone\<rparr>" using step CRead p reads
      by (simp add: cache_worker_def file_reads_def)
    have "sync_inv (length data) s'" using sync_invD [OF inv] CRead True unfolding s'
      by (auto simp: sync_inv_def chunk_ready_def)
    moreover have "msg_inv data s'" using m CRead True unfolding s' msg_inv_def by simp
    ultimately show ?thesis using inv p c unfolding s' by (simp add: xfer_inv_def)
  next
    case False
    then obtain k where k: "0 < k" "k \<le> SEG_CHUNK" "off + k \<le> length data"
        "ce_pread env fd SEG_CHUNK (int off) = Some (take k (drop off data))"
      using reads p(2) unfolding file_reads_def by (metis le_neq_implies_less)
    define d where "d = take k (drop off data)"
    have d: "d \<noteq> []" "length d = k" "d = take (length d) (drop off data)" using k by (auto simp: d_def)
    have s': "s' = s\<lparr>x_cache := CWait fd off d\<rparr>" using step CRead p k d(1)
      by (simp add: cache_worker_def d_def)
    have "sync_inv (length data) s'" using sync_invD [OF inv] CRead unfolding s'
      by (auto simp: sync_inv_def chunk_ready_def)
    moreover have "msg_inv data s'" using m CRead unfolding s' msg_inv_def by simp
    moreover have "cache_at env path fd data s' (CWait fd off d)" using p k d unfolding s' by simp
    ultimately show ?thesis using inv p c unfolding s' by (simp add: xfer_inv_def)
  qed
next
  case (CWait f off d)
  then have p: "cache_at env path fd data s (CWait f off d)" using inv by (simp add: xfer_inv_def)
  have m: "msg_inv data s" using inv by (simp add: xfer_inv_def)
  have h: "0 < x_sem2 s" and s': "s' = s\<lparr>x_sem2 := x_sem2 s - 1, x_cache := CCopy f off d\<rparr>"
    using step CWait by (auto simp: cache_worker_def split: if_splits)
  have "sync_inv (length data) s'" using sync_invD [OF inv] CWait h unfolding s'
    by (auto simp: sync_inv_def chunk_ready_def split: if_splits)
  moreover have "msg_inv data s'" using m CWait unfolding s' msg_inv_def by simp
  ultimately show ?thesis using inv p c unfolding s' by (simp add: xfer_inv_def)
next
  case (CCopy f off d)
  then have p: "cache_at env path fd data s (CCopy f off d)" using inv by (simp add: xfer_inv_def)
  have m: "msg_inv data s" using inv by (simp add: xfer_inv_def)
  have s': "s' = s\<lparr>x_msg := (x_msg s)\<lparr>m_content := d @ replicate (SEG_CHUNK - length d) NUL,
      m_content_len := int (length d)\<rparr>, x_cache := CPost f off d\<rparr>"
    using step CCopy by (simp add: cache_worker_def)
  have no: "passed (length data) (x_proxy s) = off"
    using sync_invD(2,5) [OF inv] CCopy by (auto simp: chunk_ready_def split: if_splits)
  have "sync_inv (length data) s'" using sync_invD [OF inv] CCopy unfolding s'
    by (auto simp: sync_inv_def chunk_ready_def)
  moreover have "msg_inv data s'" using m CCopy no unfolding s' msg_inv_def by simp
  moreover have "cache_at env path fd data s' (CPost f off d)" using p unfolding s' by simp
  ultimately show ?thesis using inv c unfolding s' by (simp add: xfer_inv_def)
next
  case (CPost f off d)
  then have p: "cache_at env path fd data s (CPost f off d)" using inv by (simp add: xfer_inv_def)
  have m: "msg_inv data s" using inv by (simp add: xfer_inv_def)
  have s': "s' = s\<lparr>x_sem1 := x_sem1 s + 1, x_cache := CRead f (off + length d)\<rparr>"
    using step CPost by (simp add: cache_worker_def)
  have no: "passed (length data) (x_proxy s) = off" "\<not> proxy_holds (x_proxy s)" "x_sem2 s = 0"
    using sync_invD(2,5) [OF inv] CPost by (auto simp: chunk_ready_def split: if_splits)
  have "sync_inv (length data) s'" using sync_invD [OF inv] CPost no p unfolding s'
    by (auto simp: sync_inv_def chunk_ready_def split: if_splits)
  moreover have "msg_inv data s'" using m CPost no p unfolding s' msg_inv_def by simp
  moreover have "cache_at env path fd data s' (CRead f (off + length d))" using p unfolding s' by simp
  ultimately show ?thesis using inv c unfolding s' by (simp add: xfer_inv_def)
qed (use step inv in \<open>simp_all add: cache_worker_def xfer_inv_def\<close>)
qed

text \<open>A file that the cache has, as the environment shows it.\<close>

definition cached_file :: "cache_env \<Rightarrow> string \<Rightarrow> int \<Rightarrow> char list \<Rightarrow> bool" where
  "cached_file env path fd data \<longleftrightarrow>
     ce_get env path = fd \<and> fd \<noteq> -1 \<and> ce_fstat env fd = Some (int (length data)) \<and>
     int (length data) \<le> INT_MAX \<and> file_reads (ce_pread env) fd SEG_CHUNK data \<and>
     length path < MSG_PATH"

text \<open>When the proxy has returned the segment is cleared, and the cache leaves it so.\<close>

definition done_inv :: "cache_env \<Rightarrow> xfer \<Rightarrow> bool" where
  "done_inv env s \<longleftrightarrow> (\<forall>r. x_proxy s = PDone r \<longrightarrow> r = ce_header env \<and> x_msg s = zero_message)"

lemma done_inv_cache:
  assumes "xfer_inv env path fd data s" and "done_inv env s" and "cache_worker env s = Some s'"
  shows "done_inv env s'"
proof -
  have "x_msg s' = x_msg s" if d: "x_proxy s = PDone r" for r
  proof -
    have "header_posted (x_cache s)" "posted (length data) (x_cache s) = length data"
      using sync_invD(1-3) [OF assms(1)] d by auto
    moreover have "cache_at env path fd data s (x_cache s)" using assms(1) by (simp add: xfer_inv_def)
    ultimately show ?thesis using assms(3)
      by (cases "x_cache s") (auto simp: cache_worker_def split: option.splits if_splits)
  qed
  then show ?thesis using assms(2) cache_frame(1) [OF assms(3)] by (simp add: done_inv_def)
qed

lemma done_inv_proxy:
  "handle_with_cache env path s = Some s' \<Longrightarrow> done_inv env s'"
  by (auto simp: handle_with_cache_def done_inv_def Let_def split: ppc.splits if_splits)

lemma xfer_reach_inv:
  assumes "xfer_reach env path s" and "cached_file env path fd data"
  shows "xfer_inv env path fd data s \<and> done_inv env s"
  using assms(1)
proof (induction rule: xfer_reach.induct)
  case xfer_init
  show ?case using xfer_start_inv by (simp add: done_inv_def xfer_start_def)
next
  case (xfer_proxy s s')
  then show ?case using proxy_inv done_inv_proxy assms(2) unfolding cached_file_def by blast
next
  case (xfer_cache s s')
  have "xfer_inv env path fd data s'"
    by (rule cache_inv [OF _ xfer_cache.hyps(2)])
      (use xfer_cache.IH assms(2) in \<open>auto simp: cached_file_def\<close>)
  with xfer_cache show ?case using done_inv_cache by blast
qed

text \<open>The end of a request: both sides are done and the segment is as it was created.\<close>

definition xfer_finished :: "cache_env \<Rightarrow> xfer \<Rightarrow> bool" where
  "xfer_finished env s \<longleftrightarrow>
     x_proxy s = PDone (ce_header env) \<and> x_cache s = CDone \<and> x_mq s = [] \<and>
     x_sem1 s = 0 \<and> x_sem2 s = 1 \<and> x_msg s = zero_message"

lemma xfer_stuck_finished:
  assumes inv: "xfer_inv env path fd data s" and d: "done_inv env s" and stuck: "xfer_stuck env path s"
  shows "xfer_finished env s \<and> (\<exists>ds. x_calls s = SendHeader GFS_OK (int (length data)) # map SendData ds \<and>
    concat ds = data)"
proof -
  have at: "cache_at env path fd data s (x_cache s)" and calls: "calls_ok data s"
    using inv by (simp_all add: xfer_inv_def)
  note sync = sync_invD [OF inv]
  have cache: "x_cache s = CIdle \<and> x_mq s = [] \<or> x_cache s = CDone \<or>
      (\<exists>f off d. x_cache s = CWait f off d \<and> x_sem2 s = 0)"
    using stuck at unfolding xfer_stuck_def
    by (cases "x_cache s") (auto simp: cache_worker_def split: list.splits option.splits if_splits)
  have "x_proxy s = PHeader \<and> x_sem1 s = 0 \<or> (\<exists>b. x_proxy s = PTake b \<and> x_sem1 s = 0) \<or> (\<exists>r. x_proxy s = PDone r)"
    using stuck calls unfolding xfer_stuck_def
    by (cases "x_proxy s") (auto simp: calls_ok_def handle_with_cache_def Let_def split: if_splits)
  then show ?thesis
  proof (elim disjE conjE exE)
    assume "x_proxy s = PHeader" "x_sem1 s = 0"
    with sync(4) cache at show ?thesis by (auto split: if_splits)
  next
    fix b assume p: "x_proxy s = PTake b" "x_sem1 s = 0"
    then have "posted (length data) (x_cache s) = b" "b < length data"
      using sync(2,4,8) by (auto simp: chunk_ready_def split: if_splits)
    with sync(1,5) cache p show ?thesis by (auto simp: chunk_ready_def)
  next
    fix r assume p: "x_proxy s = PDone r"
    then have q: "posted (length data) (x_cache s) = length data" "header_posted (x_cache s)"
      using sync(1-3) by auto
    then have c: "x_cache s = CDone" using cache at by auto
    have "x_sem1 s = 0" "x_sem2 s = 1" using sync(4,5) p c by (auto simp: chunk_ready_def split: if_splits)
    moreover have "x_mq s = []" using at c by simp
    moreover have "\<exists>ds. x_calls s = SendHeader GFS_OK (int (length data)) # map SendData ds \<and> concat ds = data"
      using calls p by (simp add: calls_ok_def)
    ultimately show ?thesis using p c d by (simp add: xfer_finished_def done_inv_def)
  qed
qed

section \<open>Termination\<close>

fun proxy_weight :: "nat \<Rightarrow> ppc \<Rightarrow> nat" where
  "proxy_weight len PSend = 4 * len + 5"
| "proxy_weight len PHeader = 4 * len + 4"
| "proxy_weight len PType = 4 * len + 3"
| "proxy_weight len (PLoop b) = 4 * (len - b) + 2"
| "proxy_weight len (PTake b) = 4 * (len - b) + 1"
| "proxy_weight len (PCopy b) = 4 * (len - b)"
| "proxy_weight len (PPost b) = 4 * (len - b) + 3"
| "proxy_weight len PClear = 1"
| "proxy_weight len (PDone r) = 0"
| "proxy_weight len POverrun = 0"

fun cache_weight :: "nat \<Rightarrow> cpc \<Rightarrow> nat" where
  "cache_weight len CIdle = 4 * len + 6"
| "cache_weight len (CGet p) = 4 * len + 5"
| "cache_weight len (CStat fd) = 4 * len + 4"
| "cache_weight len (CHead fd sz) = 4 * len + 3"
| "cache_weight len (CHeadPost fd) = 4 * len + 2"
| "cache_weight len (CRead fd off) = 4 * (len - off) + 1"
| "cache_weight len (CWait fd off d) = 4 * (len - off)"
| "cache_weight len (CCopy fd off d) = 4 * (len - off) - 1"
| "cache_weight len (CPost fd off d) = 4 * (len - off) - 2"
| "cache_weight len CMiss = 2"
| "cache_weight len CMissPost = 1"
| "cache_weight len _ = 0"

lemma proxy_weight_step:
  assumes inv: "xfer_inv env path fd data s" and step: "handle_with_cache env path s = Some s'"
    and L: "length data \<le> L"
  shows "proxy_weight L (x_proxy s') < proxy_weight L (x_proxy s) \<and> x_cache s' = x_cache s"
proof (cases "x_proxy s")
  case PType
  with file_len_known [OF inv] step show ?thesis by (auto simp: handle_with_cache_def split: if_splits)
next
  case (PLoop b)
  with file_len_known [OF inv] step L show ?thesis by (auto simp: handle_with_cache_def)
next
  case (PCopy b)
  let ?q = "posted (length data) (x_cache s)"
  have q: "b < ?q" "?q \<le> length data" using sync_invD(3,7) [OF inv] PCopy by auto
  then have "m_content_len (x_msg s) = int (?q - b)"
    using inv PCopy unfolding xfer_inv_def msg_inv_def Let_def by auto
  then have "nat (m_content_len (x_msg s)) = ?q - b" by simp
  with q PCopy step L show ?thesis by (auto simp: handle_with_cache_def Let_def)
qed (use step in \<open>auto simp: handle_with_cache_def split: if_splits\<close>)

lemma cache_weight_step:
  assumes inv: "xfer_inv env path fd data s" and step: "cache_worker env s = Some s'"
    and cf: "cached_file env path fd data" and L: "length data \<le> L"
  shows "cache_weight L (x_cache s') < cache_weight L (x_cache s)"
proof -
  have at: "cache_at env path fd data s (x_cache s)" using inv by (simp add: xfer_inv_def)
  show ?thesis
  proof (cases "x_cache s")
    case (CPost f off d)
    with at have "d \<noteq> []" "off + length d \<le> length data" by auto
    then have "1 \<le> length d" "off + length d \<le> length data" by (auto simp: Suc_le_eq)
    with CPost step L show ?thesis by (auto simp: cache_worker_def)
  next
    case (CWait f off d)
    with at have "d \<noteq> []" "off + length d \<le> length data" by auto
    then have "off < length data" by (cases d) auto
    with CWait step L show ?thesis by (auto simp: cache_worker_def split: if_splits)
  next
    case (CCopy f off d)
    with at have "d \<noteq> []" "off + length d \<le> length data" by auto
    then have "off < length data" by (cases d) auto
    with CCopy step L show ?thesis by (auto simp: cache_worker_def split: if_splits)
  qed (use step cf at in \<open>auto simp: cache_worker_def cached_file_def
        split: list.splits option.splits if_splits\<close>)
qed

section \<open>Executions\<close>

text \<open>A schedule: True for a step of the proxy, False for one of the cache.\<close>

fun xfer_exec :: "cache_env \<Rightarrow> string \<Rightarrow> bool list \<Rightarrow> xfer \<Rightarrow> xfer option" where
  "xfer_exec env path [] s = Some s"
| "xfer_exec env path (b # bs) s =
     (case (if b then handle_with_cache env path s else cache_worker env s) of
        None \<Rightarrow> None | Some s' \<Rightarrow> xfer_exec env path bs s')"

lemma xfer_exec_reach:
  "xfer_exec env path bs s = Some s' \<Longrightarrow> xfer_reach env path s \<Longrightarrow> xfer_reach env path s'"
proof (induction bs arbitrary: s)
  case (Cons b bs)
  then show ?case by (cases b) (auto split: option.splits intro: xfer_reach.intros)
qed simp

lemma xfer_exec_weight:
  assumes "cached_file env path fd data"
  shows "xfer_exec env path bs s = Some s' \<Longrightarrow> xfer_reach env path s \<Longrightarrow>
    length bs \<le> proxy_weight (length data) (x_proxy s) + cache_weight (length data) (x_cache s)"
proof (induction bs arbitrary: s)
  case (Cons b bs)
  then obtain s1 where s1: "(if b then handle_with_cache env path s else cache_worker env s) = Some s1"
      "xfer_exec env path bs s1 = Some s'" by (auto split: option.splits)
  have inv: "xfer_inv env path fd data s" using xfer_reach_inv [OF Cons.prems(2) assms] by blast
  have reach: "xfer_reach env path s1" using s1(1) Cons.prems(2)
    by (cases b) (auto intro: xfer_reach.intros)
  have "proxy_weight (length data) (x_proxy s1) + cache_weight (length data) (x_cache s1) <
      proxy_weight (length data) (x_proxy s) + cache_weight (length data) (x_cache s)"
  proof (cases b)
    case True
    with s1(1) proxy_weight_step [OF inv _ order_refl] show ?thesis by simp
  next
    case False
    with s1(1) cache_weight_step [OF inv _ assms order_refl] cache_frame(1) show ?thesis by simp
  qed
  with Cons.IH [OF s1(2) reach] show ?case by simp
qed simp

section \<open>A file that the cache does not have\<close>

fun miss_at :: "string \<Rightarrow> xfer \<Rightarrow> cpc \<Rightarrow> bool" where
  "miss_at path s CIdle = (x_mq s = [path] \<and> x_sem1 s = 0)"
| "miss_at path s (CGet p) = (p = path \<and> x_mq s = [] \<and> x_sem1 s = 0)"
| "miss_at path s CMiss = (x_mq s = [] \<and> x_sem1 s = 0)"
| "miss_at path s CMissPost = (x_mq s = [] \<and> x_sem1 s = 0 \<and> m_type (x_msg s) = -1)"
| "miss_at path s CDone = (x_mq s = [] \<and> x_sem1 s = 1 \<and> m_type (x_msg s) = -1)"
| "miss_at path s _ = False"

definition miss_inv :: "string \<Rightarrow> cache_env \<Rightarrow> xfer \<Rightarrow> bool" where
  "miss_inv path env s \<longleftrightarrow> x_sem2 s = 1 \<and>
     (case x_proxy s of
        PSend \<Rightarrow> x_cache s = CIdle \<and> x_mq s = [] \<and> x_sem1 s = 0 \<and> x_calls s = []
      | PHeader \<Rightarrow> x_calls s = [] \<and> miss_at path s (x_cache s)
      | PType \<Rightarrow> x_calls s = [] \<and> x_cache s = CDone \<and> x_mq s = [] \<and> x_sem1 s = 0 \<and> m_type (x_msg s) = -1
      | PDone r \<Rightarrow> xfer_finished env s \<and> x_calls s = [SendHeader GFS_FILE_NOT_FOUND 0]
      | _ \<Rightarrow> False)"

lemma miss_proxy:
  assumes "miss_inv path env s" and "handle_with_cache env path s = Some s'" and "length path < MSG_PATH"
  shows "miss_inv path env s'"
proof (cases "x_proxy s")
  case PHeader
  then show ?thesis using assms
    by (cases "x_cache s") (auto simp: miss_inv_def handle_with_cache_def split: if_splits)
qed (use assms in \<open>auto simp: miss_inv_def handle_with_cache_def xfer_finished_def\<close>)

lemma miss_cache:
  assumes "miss_inv path env s" and "cache_worker env s = Some s'" and "ce_get env path = -1"
  shows "miss_inv path env s'"
proof (cases "x_proxy s")
  case PHeader
  then show ?thesis using assms
    by (cases "x_cache s") (auto simp: miss_inv_def cache_worker_def)
qed (use assms in \<open>auto simp: miss_inv_def cache_worker_def xfer_finished_def\<close>)

lemma miss_reach:
  assumes "xfer_reach env path s" and "ce_get env path = -1" and "length path < MSG_PATH"
  shows "miss_inv path env s"
  using assms(1)
proof (induction rule: xfer_reach.induct)
  case xfer_init
  show ?case by (simp add: miss_inv_def xfer_start_def)
next
  case (xfer_proxy s s')
  then show ?case using miss_proxy assms(3) by blast
next
  case (xfer_cache s s')
  then show ?case using miss_cache assms(2) by blast
qed

lemma miss_stuck:
  assumes "miss_inv path env s" and "xfer_stuck env path s"
  shows "xfer_finished env s \<and> x_calls s = [SendHeader GFS_FILE_NOT_FOUND 0]"
proof (cases "x_proxy s")
  case PHeader
  then show ?thesis using assms unfolding xfer_stuck_def
    by (cases "x_cache s") (auto simp: miss_inv_def handle_with_cache_def cache_worker_def split: if_splits)
qed (use assms in \<open>auto simp: xfer_stuck_def miss_inv_def handle_with_cache_def split: if_splits\<close>)

text \<open>The strcpy of the path does not ask whether it fits.\<close>

lemma cache_path_overrun:
  "MSG_PATH \<le> length path \<Longrightarrow> handle_with_cache env path xfer_start = Some (xfer_start\<lparr>x_proxy := POverrun\<rparr>)"
  by (simp add: handle_with_cache_def xfer_start_def)

section \<open>A failing fstat\<close>

definition fstat_inv :: "string \<Rightarrow> int \<Rightarrow> xfer \<Rightarrow> bool" where
  "fstat_inv path fd s \<longleftrightarrow> x_sem1 s = 0 \<and> x_calls s = [] \<and>
     (x_proxy s = PSend \<and> x_cache s = CIdle \<and> x_mq s = [] \<or>
      x_proxy s = PHeader \<and> x_cache s = CIdle \<and> x_mq s = [path] \<or>
      x_proxy s = PHeader \<and> x_cache s \<in> {CGet path, CStat fd, CReturned} \<and> x_mq s = [])"

lemma fstat_reach:
  assumes "xfer_reach env path s" and "ce_get env path = fd" and "fd \<noteq> -1" and "ce_fstat env fd = None"
    and "length path < MSG_PATH"
  shows "fstat_inv path fd s"
  using assms(1)
proof (induction rule: xfer_reach.induct)
  case xfer_init
  show ?case by (simp add: fstat_inv_def xfer_start_def)
next
  case (xfer_proxy s s')
  then show ?case using assms(5) unfolding fstat_inv_def
    by (elim conjE disjE) (auto simp: handle_with_cache_def)
next
  case (xfer_cache s s')
  then show ?case using assms(2-4) unfolding fstat_inv_def
    by (elim conjE disjE) (auto simp: cache_worker_def)
qed

lemma fstat_stuck:
  assumes "fstat_inv path fd s" and "ce_fstat env fd = None" and "xfer_stuck env path s"
  shows "x_proxy s = PHeader \<and> x_sem1 s = 0 \<and> x_cache s = CReturned \<and> x_calls s = []"
  using assms unfolding xfer_stuck_def fstat_inv_def
  by (elim conjE disjE) (auto simp: handle_with_cache_def cache_worker_def split: if_splits)

section \<open>Properties\<close>

text \<open>
  However the proxy and the cache thread are interleaved, a request for a file that the
  cache has can only stop when both are done, and then the client has been sent the OK header
  with the length of the file and the file, in order and complete; the semaphores are back at
  0 and 1, the message queue is empty and the segment is cleared, ready for the next request.
  There is no deadlock, and no piece is lost, repeated or overwritten before it is sent.
\<close>

theorem cache_transfer_complete:
  assumes "cached_file env path fd data" and "xfer_exec env path sched xfer_start = Some s"
    and "xfer_stuck env path s"
  shows "xfer_finished env s \<and> (\<exists>ds. x_calls s = SendHeader GFS_OK (int (length data)) # map SendData ds \<and>
    concat ds = data)"
proof -
  have "xfer_reach env path s" using xfer_exec_reach [OF assms(2) xfer_init] .
  with xfer_reach_inv [OF _ assms(1)] xfer_stuck_finished assms(3) show ?thesis by blast
qed

text \<open>A cache with one file of three bytes, read two at a time, for the witnesses.\<close>

definition demo_cache :: cache_env where
  "demo_cache = \<lparr>ce_get = (\<lambda>p. if p = ''/a'' then 3 else -1),
     ce_fstat = (\<lambda>fd. if fd = 3 then Some 3 else None),
     ce_pread = (\<lambda>fd n off. Some (take 2 (drop (nat off) ''abc''))), ce_header = 16\<rparr>"

definition demo_sched :: "bool list" where
  "demo_sched = True # replicate 9 False @ replicate 6 True @ replicate 5 False @ replicate 6 True"

lemma demo_cached: "cached_file demo_cache ''/a'' 3 ''abc''"
proof -
  have "file_reads (ce_pread demo_cache) 3 SEG_CHUNK ''abc''"
  proof (unfold file_reads_def, intro conjI allI impI)
    fix off :: nat assume "off < length ''abc''"
    then consider "off = 0" | "off = 1" | "off = 2" by force
    then show "\<exists>k>0. k \<le> SEG_CHUNK \<and> off + k \<le> length ''abc'' \<and>
        ce_pread demo_cache 3 SEG_CHUNK (int off) = Some (take k (drop off ''abc''))"
      by cases (auto simp: demo_cache_def SEG_CHUNK_def intro: exI [of _ 2] exI [of _ 1])
  qed (simp add: demo_cache_def)
  then show ?thesis by (simp add: cached_file_def demo_cache_def INT_MAX_def c_int_def MSG_PATH_def)
qed

definition demo_end :: xfer where
  "demo_end = the (xfer_exec demo_cache ''/a'' demo_sched xfer_start)"

lemma demo_runs: "xfer_exec demo_cache ''/a'' demo_sched xfer_start = Some demo_end"
  unfolding demo_end_def by (rule option.collapse [symmetric]) code_simp

lemma demo_stuck: "xfer_stuck demo_cache ''/a'' demo_end"
  by code_simp

theorem cache_transfer_complete_witness:
  "xfer_finished demo_cache demo_end \<and>
   (\<exists>ds. x_calls demo_end = SendHeader GFS_OK 3 # map SendData ds \<and> concat ds = ''abc'')"
  using cache_transfer_complete [OF demo_cached demo_runs demo_stuck] by simp

text \<open>
  The exchange always ends: for a file of n bytes no interleaving has more than 8n + 11
  steps, whatever the sizes of the pieces that pread returns.
\<close>

theorem cache_transfer_terminates:
  assumes "cached_file env path fd data" and "xfer_exec env path sched xfer_start = Some s"
  shows "length sched \<le> 8 * length data + 11"
  using xfer_exec_weight [OF assms xfer_init] by (simp add: xfer_start_def)

theorem cache_transfer_terminates_witness:
  "length demo_sched \<le> 8 * length ''abc'' + 11 \<and> length demo_sched = 27"
  using cache_transfer_terminates [OF demo_cached demo_runs] by (simp add: demo_sched_def)

text \<open>
  A file that the cache does not have: however the two are interleaved, the request can only
  stop when both are done, and then the only call on the connection is the FILE\_NOT\_FOUND
  header; the segment, the semaphores and the queue are as they were before the request.
\<close>

theorem cache_miss_answered:
  assumes "ce_get env path = -1" and "xfer_exec env path sched xfer_start = Some s"
    and "xfer_stuck env path s" and "length path < MSG_PATH"
  shows "xfer_finished env s \<and> x_calls s = [SendHeader GFS_FILE_NOT_FOUND 0]"
  using miss_stuck [OF miss_reach [OF xfer_exec_reach [OF assms(2) xfer_init] assms(1,4)] assms(3)] .

definition miss_end :: xfer where
  "miss_end = the (xfer_exec demo_cache ''/b'' [True, False, False, False, False, True, True] xfer_start)"

lemma miss_runs:
  "xfer_exec demo_cache ''/b'' [True, False, False, False, False, True, True] xfer_start = Some miss_end"
  unfolding miss_end_def by (rule option.collapse [symmetric]) code_simp

lemma miss_end_stuck: "xfer_stuck demo_cache ''/b'' miss_end"
  by code_simp

theorem cache_miss_answered_witness:
  "xfer_finished demo_cache miss_end \<and> x_calls miss_end = [SendHeader GFS_FILE_NOT_FOUND 0]"
  by (rule cache_miss_answered [OF _ miss_runs miss_end_stuck]) code_simp+

text \<open>
  When fstat fails in the cache process its thread returns without a word to the proxy: in
  every interleaving the proxy ends blocked in its first sem\_wait, the cache thread is gone, and
  the client has received nothing.
\<close>

theorem cache_fstat_failure_blocks:
  assumes "ce_get env path = fd" and "fd \<noteq> -1" and "ce_fstat env fd = None"
    and "xfer_exec env path sched xfer_start = Some s" and "xfer_stuck env path s" and "length path < MSG_PATH"
  shows "x_proxy s = PHeader \<and> x_sem1 s = 0 \<and> x_cache s = CReturned \<and> x_calls s = []"
  using fstat_stuck [OF fstat_reach [OF xfer_exec_reach [OF assms(4) xfer_init] assms(1-3,6)] assms(3,5)] .

definition fstat_env :: cache_env where
  "fstat_env = demo_cache\<lparr>ce_get := (\<lambda>p. 4)\<rparr>"

definition fstat_end :: xfer where
  "fstat_end = the (xfer_exec fstat_env ''/c'' [True, False, False, False] xfer_start)"

lemma fstat_runs: "xfer_exec fstat_env ''/c'' [True, False, False, False] xfer_start = Some fstat_end"
  unfolding fstat_end_def by (rule option.collapse [symmetric]) code_simp

lemma fstat_end_stuck: "xfer_stuck fstat_env ''/c'' fstat_end"
  by code_simp

theorem cache_fstat_failure_blocks_witness:
  "x_proxy fstat_end = PHeader \<and> x_sem1 fstat_end = 0 \<and> x_cache fstat_end = CReturned \<and> x_calls fstat_end = []"
  by (rule cache_fstat_failure_blocks [OF _ _ _ fstat_runs fstat_end_stuck, where fd = 4])
    (simp_all add: fstat_env_def demo_cache_def MSG_PATH_def)

end
