(* ===== verification/WebProxy.thy ===== *)
theory WebProxy
  imports MTServer
begin

text \<open>
  ipc/server: the web proxy. handle\_with\_file.c answers a request from a directory,
  handle\_with\_curl.c from an HTTP server, webproxy.c sets the server library up. The library
  (gfserver.o) and libcurl are not part of the sources: what their calls return is an input,
  and the calls of gfs\_sendheader and gfs\_send are recorded with their arguments.
\<close>

section \<open>handle\_with\_file\<close>

definition SERVER_FAILURE :: int where "SERVER_FAILURE = -1"
definition FILE_BUFSIZE :: nat where "FILE_BUFSIZE = 512"

text \<open>
  strncpy and strncat into the buffer: a directory name that fills it has no terminator, and
  strncat may append as many characters as the whole buffer has, and a NUL.
\<close>

definition file_name :: "string \<Rightarrow> string \<Rightarrow> string outcome" where
  "file_name data_dir path =
     (if FILE_BUFSIZE \<le> length data_dir then Undef
      else if FILE_BUFSIZE < length data_dir + length (take FILE_BUFSIZE path) + 1 then Undef
      else Ret (data_dir @ take FILE_BUFSIZE path))"

text \<open>
  What open, fstat and the calls of read return for a file (None is -1), and gfs\_send in its
  k-th call. When the list of reads is used up, read returns 0.
\<close>

datatype open_res = Opened int | Missing | OpenError

record proxy_env =
  pe_open :: "string \<Rightarrow> open_res"
  pe_fstat :: "int \<Rightarrow> int option"
  pe_reads :: "char list option list"
  pe_header :: int
  pe_send :: "nat \<Rightarrow> char list \<Rightarrow> int"

fun file_loop ::
  "(nat \<Rightarrow> char list \<Rightarrow> int) \<Rightarrow> char list option list \<Rightarrow> nat \<Rightarrow> int \<Rightarrow> int \<Rightarrow> reply list \<Rightarrow> int \<times> reply list" where
  "file_loop send [] k file_len sent out =
     (if sent < file_len then (SERVER_FAILURE, out) else (sent, out))"
| "file_loop send (r # rs) k file_len sent out =
     (if sent < file_len
      then (case r of None \<Rightarrow> (SERVER_FAILURE, out)
            | Some d \<Rightarrow>
                if d = [] then (SERVER_FAILURE, out)
                else if send k d \<noteq> int (length d) then (SERVER_FAILURE, out @ [SendData d])
                else file_loop send rs (Suc k) file_len (c_size (sent + send k d)) (out @ [SendData d]))
      else (sent, out))"

text \<open>The value returned and the calls that were made.\<close>

definition handle_with_file :: "proxy_env \<Rightarrow> string \<Rightarrow> string \<Rightarrow> (int \<times> reply list) outcome" where
  "handle_with_file env data_dir path =
     bind_outcome (file_name data_dir path) (\<lambda>name.
       case pe_open env name of
         Missing \<Rightarrow> Ret (pe_header env, [SendHeader GFS_FILE_NOT_FOUND 0])
       | OpenError \<Rightarrow> Ret (SERVER_FAILURE, [])
       | Opened fd \<Rightarrow>
           (case pe_fstat env fd of
              None \<Rightarrow> Ret (SERVER_FAILURE, [])
            | Some st_size \<Rightarrow>
                Ret (file_loop (pe_send env) (pe_reads env) 0 (c_size st_size) 0
                       [SendHeader GFS_OK (c_size st_size)])))"

section \<open>handle\_with\_curl\<close>

definition CURLE_OK :: int where "CURLE_OK = 0"
definition CURLE_WRITE_ERROR :: int where "CURLE_WRITE_ERROR = 23"

text \<open>
  What libcurl does for one request: whether curl\_easy\_init gives a handle, in both calls;
  the result, the response code (a long) and the content length (a curl\_off\_t, -1 when the
  server has not said it) of the first transfer; for the second the pieces that it hands to
  the write callback and the result when the callback has taken them all.
\<close>

record curl_env =
  cv_init1 :: bool
  cv_res1 :: int
  cv_code :: int
  cv_length :: int
  cv_init2 :: bool
  cv_chunks :: "char list list"
  cv_res2 :: int
  cv_send :: "nat \<Rightarrow> char list \<Rightarrow> int"

text \<open>The url buffer has 1024 bytes.\<close>

definition curl_url :: "string \<Rightarrow> string \<Rightarrow> string outcome" where
  "curl_url server path =
     (if 1024 < length server + 1 then Undef
      else if 1024 < length server + length path + 1 then Undef
      else Ret (server @ path))"

text \<open>
  write\_callback passes a piece of \<open>size * nmemb\<close> bytes on; libcurl breaks the transfer off when
  the callback takes another number of bytes than it was given.
\<close>

definition write_callback :: "(nat \<Rightarrow> char list \<Rightarrow> int) \<Rightarrow> nat \<Rightarrow> char list \<Rightarrow> int \<times> reply" where
  "write_callback send k d = (send k d, SendData d)"

fun curl_deliver ::
  "(nat \<Rightarrow> char list \<Rightarrow> int) \<Rightarrow> nat \<Rightarrow> char list list \<Rightarrow> int \<Rightarrow> reply list \<Rightarrow> int \<times> reply list" where
  "curl_deliver send k [] res out = (res, out)"
| "curl_deliver send k (d # ds) res out =
     (case write_callback send k d of
        (n, call) \<Rightarrow>
          if n = int (length d) then curl_deliver send (Suc k) ds res (out @ [call])
          else (CURLE_WRITE_ERROR, out @ [call]))"

text \<open>
  curl\_easy\_getinfo stores a long and a curl\_off\_t through the addresses of two ints: the ints
  get the low 32 bits, on a little-endian machine; the four bytes after each are overwritten
  too, which is not modelled. gfs\_sendheader takes its length as a size\_t.
\<close>

definition handle_with_curl :: "curl_env \<Rightarrow> string \<Rightarrow> string \<Rightarrow> (int \<times> reply list) outcome" where
  "handle_with_curl env server path =
     bind_outcome (curl_url server path) (\<lambda>url.
       if \<not> cv_init1 env then Ret (SERVER_FAILURE, [])
       else if cv_res1 env \<noteq> CURLE_OK then Ret (SERVER_FAILURE, [])
       else if c_int (cv_code env) \<noteq> 200 then Ret (0, [SendHeader GFS_FILE_NOT_FOUND 0])
       else
         (let calls = [SendHeader GFS_OK (c_size (c_int (cv_length env)))] in
          if \<not> cv_init2 env then Ret (SERVER_FAILURE, calls)
          else (case curl_deliver (cv_send env) 0 (cv_chunks env) (cv_res2 env) calls of
                  (res, calls') \<Rightarrow>
                    if res \<noteq> CURLE_OK then Ret (SERVER_FAILURE, calls') else Ret (0, calls'))))"

section \<open>main of webproxy.c\<close>

record webproxy_config =
  wp_port :: int
  wp_nworkerthreads :: int
  wp_server :: "string option"

definition webproxy_default :: webproxy_config where
  "webproxy_default =
     \<lparr>wp_port = 6200, wp_nworkerthreads = 39,
      wp_server = Some ''https://raw.githubusercontent.com/gt-cs6200/image_data''\<rparr>"

definition webproxy_switch :: "char \<Rightarrow> string option \<Rightarrow> webproxy_config \<Rightarrow> webproxy_config outcome" where
  "webproxy_switch ch arg c =
     (if ch \<in> {CHR ''a'', CHR ''d'', CHR ''L'', CHR ''u''} then Ret c
      else if ch = CHR ''p'' then atoi_arg arg (\<lambda>v. c\<lparr>wp_port := c_ushort v\<rparr>)
      else if ch = CHR ''s'' then Ret (c\<lparr>wp_server := arg\<rparr>)
      else if ch = CHR ''t'' then atoi_arg arg (\<lambda>v. c\<lparr>wp_nworkerthreads := c_ushort v\<rparr>)
      else if ch = CHR ''h'' then Exits 0
      else Exits 1)"

text \<open>The calls of the server library, in order; GInit is gfserver\_init, GStop gfserver\_stop.\<close>

datatype setup_call =
    GInit int | GMaxPending int | GWorkerFunc | GPort int | GWorkerArg int string | GServe | GStop

text \<open>The signal handler: on SIGTERM (15) or SIGINT (2) it stops the server and exits.\<close>

definition proxy_sig_handler :: "int \<Rightarrow> setup_call list \<times> unit outcome" where
  "proxy_sig_handler signo =
     (if signo = 15 \<or> signo = 2 then ([GStop], Exits signo) else ([], Ret ()))"

text \<open>
  The exit statuses of the checks are their lines: 86, 91 and 96. \<open>sigs\<close> says whether the two
  calls of signal succeed. After the last call main does not go on.
\<close>

definition webproxy_main :: "bool \<times> bool \<Rightarrow> opts \<Rightarrow> setup_call list outcome" where
  "webproxy_main sigs os =
     (if \<not> fst sigs \<or> \<not> snd sigs then Exits SERVER_FAILURE
      else bind_outcome (option_loop webproxy_switch os webproxy_default) (\<lambda>c.
        case wp_server c of
          None \<Rightarrow> Exits 86
        | Some server \<Rightarrow>
            if 61285 < wp_port c then Exits 91
            else if wp_nworkerthreads c < 1 \<or> 512 < wp_nworkerthreads c then Exits 96
            else Ret ([GInit (wp_nworkerthreads c), GMaxPending 303, GWorkerFunc, GPort (wp_port c)] @
                   map (\<lambda>i. GWorkerArg (int i) server) [0..<nat (wp_nworkerthreads c)] @ [GServe])))"

section \<open>Lemmas\<close>

lemma file_loop_sends:
  assumes "\<forall>k d. send k d = int (length d)" and "\<forall>d\<in>set ds. d \<noteq> []"
    and "sent + length (concat ds) < 2 ^ 64"
  shows "file_loop send (map Some ds @ rs) k (int (sent + length (concat ds))) (int sent) out =
    (int (sent + length (concat ds)), out @ map SendData ds)"
  using assms(2,3)
proof (induction ds arbitrary: sent k out)
  case Nil
  then show ?case by (cases rs) simp_all
next
  case (Cons d ds)
  then have "0 < int (length d) + int (length (concat ds))" by (cases d) auto
  moreover have "c_size (int sent + int (length d)) = int (sent + length d)"
    using Cons.prems(2) c_size_of_nat [of "sent + length d"] by simp
  ultimately show ?case
    using assms(1) Cons.IH [of "sent + length d" "Suc k" "out @ [SendData d]"] Cons.prems
    by (simp add: add.assoc)
qed

text \<open>A read that ends or fails early leaves the transfer short.\<close>

lemma file_loop_short:
  assumes "\<forall>k d. send k d = int (length d)" and "\<forall>d\<in>set ds. d \<noteq> []"
    and "sent + length (concat ds) < n" and "n < 2 ^ 64" and "rs = [] \<or> hd rs = None \<or> hd rs = Some []"
  shows "file_loop send (map Some ds @ rs) k (int n) (int sent) out =
    (SERVER_FAILURE, out @ map SendData ds)"
  using assms(2,3)
proof (induction ds arbitrary: sent k out)
  case Nil
  then show ?case using assms(5) by (cases rs) auto
next
  case (Cons d ds)
  then have "0 < length d" by simp
  moreover have "c_size (int sent + int (length d)) = int (sent + length d)"
    using Cons.prems(2) assms(4) c_size_of_nat [of "sent + length d"] by simp
  ultimately show ?case
    using assms(1) Cons.IH [of "sent + length d" "Suc k" "out @ [SendData d]"] Cons.prems
    by (simp add: add.assoc)
qed

lemma curl_deliver_all:
  "\<forall>k d. send k d = int (length d) \<Longrightarrow> curl_deliver send k ds res out = (res, out @ map SendData ds)"
  by (induction ds arbitrary: k out) (auto simp: write_callback_def)

lemma curl_deliver_prefix:
  "\<exists>n. snd (curl_deliver send k ds res out) = out @ map SendData (take n ds)"
proof (induction ds arbitrary: k out)
  case (Cons d ds)
  show ?case
  proof (cases "send k d = int (length d)")
    case True
    from Cons.IH [of "Suc k" "out @ [SendData d]"] obtain n where
      "snd (curl_deliver send (Suc k) ds res (out @ [SendData d])) = (out @ [SendData d]) @ map SendData (take n ds)"
      by blast
    with True show ?thesis by (intro exI [of _ "Suc n"]) (simp add: write_callback_def)
  next
    case False
    then show ?thesis by (intro exI [of _ 1]) (simp add: write_callback_def)
  qed
qed simp

section \<open>Properties\<close>

text \<open>
  C35. handle\_with\_file sends a file as it is: when the name fits, the file opens with \<open>n\<close>
  bytes, read returns them in pieces and gfs\_send takes every piece, the calls are one OK
  header with the length \<open>n\<close> and the pieces in order, and the value returned is \<open>n\<close>.
\<close>

theorem file_handler_sends_file:
  assumes "length data_dir + length path < 512"
    and "pe_open env (data_dir @ path) = Opened fd" and "pe_fstat env fd = Some (int n)"
    and "pe_reads env = map Some ds @ rs" and "\<forall>d\<in>set ds. d \<noteq> []" and "length (concat ds) = n"
    and "n < 2 ^ 64" and "\<forall>k d. pe_send env k d = int (length d)"
  shows "handle_with_file env data_dir path = Ret (int n, SendHeader GFS_OK (int n) # map SendData ds)"
proof -
  have "file_name data_dir path = Ret (data_dir @ path)"
    using assms(1) by (simp add: file_name_def FILE_BUFSIZE_def)
  moreover have "c_size (int n) = int n" using c_size_of_nat [OF assms(7)] .
  ultimately show ?thesis
    using assms(2-4) file_loop_sends [OF assms(8,5), of 0 rs 0 "[SendHeader GFS_OK (int n)]"] assms(6,7)
    by (simp add: handle_with_file_def)
qed

definition demo_proxy :: "char list option list \<Rightarrow> proxy_env" where
  "demo_proxy rs =
     \<lparr>pe_open = (\<lambda>p. if p = ''dir/a'' then Opened 4 else Missing), pe_fstat = (\<lambda>fd. Some 3),
      pe_reads = rs, pe_header = 30, pe_send = (\<lambda>k d. int (length d))\<rparr>"

theorem file_handler_sends_file_witness:
  "handle_with_file (demo_proxy [Some ''ab'', Some ''c'']) ''dir'' ''/a'' =
     Ret (3, [SendHeader GFS_OK 3, SendData ''ab'', SendData ''c''])"
  using file_handler_sends_file [of "''dir''" "''/a''" "demo_proxy [Some ''ab'', Some ''c'']" 4 3
      "[''ab'', ''c'']" "[]"]
  by (simp add: demo_proxy_def)

text \<open>
  handle\_with\_curl relays a resource: the HTTP server answers both transfers, the first
  with status 200 and the content length, the second with exactly that many bytes. Then the
  calls are one OK header with the length and the bytes in order, and the value returned is 0.
\<close>

theorem curl_handler_relays:
  assumes "length server + length path < 1024" and "cv_init1 env" "cv_init2 env"
    and "cv_res1 env = CURLE_OK" "cv_res2 env = CURLE_OK" and "cv_code env = 200"
    and "cv_length env = int (length (concat (cv_chunks env)))" and "cv_length env < 2 ^ 31"
    and "\<forall>k d. cv_send env k d = int (length d)"
  shows "handle_with_curl env server path =
    Ret (0, SendHeader GFS_OK (int (length (concat (cv_chunks env)))) # map SendData (cv_chunks env))"
proof -
  have "c_int (cv_length env) = cv_length env" "c_size (cv_length env) = cv_length env"
    using assms(7,8) by (auto intro!: c_int_id c_size_id)
  moreover have "c_int 200 = 200" by (simp add: c_int_def)
  ultimately show ?thesis
    using assms(1-8) by (simp add: handle_with_curl_def curl_url_def curl_deliver_all [OF assms(9)])
qed

definition demo_curl :: curl_env where
  "demo_curl =
     \<lparr>cv_init1 = True, cv_res1 = 0, cv_code = 200, cv_length = 3, cv_init2 = True,
      cv_chunks = [''ab'', ''c''], cv_res2 = 0, cv_send = (\<lambda>k d. int (length d))\<rparr>"

theorem curl_handler_relays_witness:
  "handle_with_curl demo_curl ''http://h'' ''/a'' =
     Ret (0, [SendHeader GFS_OK 3, SendData ''ab'', SendData ''c''])"
  using curl_handler_relays [of "''http://h''" "''/a''" demo_curl]
  by (simp add: demo_curl_def CURLE_OK_def)

end
