(* ===== verification/CacheProxy.thy ===== *)
theory CacheProxy
  imports CacheIPC WebProxy
begin

text \<open>
  ipc/cache: what surrounds the exchange of \<open>CacheIPC\<close>. main of webproxy.c creates the
  segments and the pool of their numbers; handle\_with\_cache takes a segment from the pool and
  returns it at its end; main of simplecached.c starts the cache process.
\<close>

section \<open>main of webproxy.c\<close>

record cacheproxy_config =
  cp_server :: "string option"
  cp_nsegments :: int
  cp_port :: int
  cp_nworkerthreads :: int
  cp_segsize :: int

definition cacheproxy_default :: cacheproxy_config where
  "cacheproxy_default =
     \<lparr>cp_server = Some ''https://raw.githubusercontent.com/gt-cs6200/image_data'', cp_nsegments = 13,
      cp_port = 6200, cp_nworkerthreads = 33, cp_segsize = 5313\<rparr>"

text \<open>The exit statuses given by the line of the exit: 91 here, then 125, 130, 135, 139 and 143.\<close>

definition cacheproxy_switch :: "char \<Rightarrow> string option \<Rightarrow> cacheproxy_config \<Rightarrow> cacheproxy_config outcome" where
  "cacheproxy_switch ch arg c =
     (if ch = CHR ''h'' then Exits 0
      else if ch = CHR ''p'' then atoi_arg arg (\<lambda>v. c\<lparr>cp_port := c_ushort v\<rparr>)
      else if ch = CHR ''s'' then Ret (c\<lparr>cp_server := arg\<rparr>)
      else if ch = CHR ''n'' then atoi_arg arg (\<lambda>v. c\<lparr>cp_nsegments := c_uint v\<rparr>)
      else if ch = CHR ''z'' then atoi_arg arg (\<lambda>v. c\<lparr>cp_segsize := c_size v\<rparr>)
      else if ch = CHR ''t'' then atoi_arg arg (\<lambda>v. c\<lparr>cp_nworkerthreads := c_ushort v\<rparr>)
      else if ch \<in> {CHR ''i'', CHR ''O'', CHR ''A'', CHR ''N'', CHR ''k''} then Ret c
      else Exits 91)"

definition cacheproxy_checks :: "cacheproxy_config \<Rightarrow> string outcome" where
  "cacheproxy_checks c =
     (case cp_server c of
        None \<Rightarrow> Exits 125
      | Some server \<Rightarrow>
          if cp_segsize c < 824 then Exits 130
          else if 65331 < cp_port c then Exits 135
          else if cp_nworkerthreads c < 1 \<or> 420 < cp_nworkerthreads c then Exits 139
          else if cp_nsegments c < 1 then Exits 143
          else Ret server)"

text \<open>
  The named objects of one segment: the size given to ftruncate and the values of the two
  semaphores. sem\_open with an initial value after sem\_unlink creates a new semaphore.
\<close>

record segment =
  sg_size :: int
  sg_sem1 :: nat
  sg_sem2 :: nat

text \<open>
  Which of the calls for segment \<open>i\<close> fail, and what malloc returns for the node of its number
  in steque\_enqueue.
\<close>

record seg_env =
  se_shm_open :: "nat \<Rightarrow> bool"
  se_ftruncate :: "nat \<Rightarrow> bool"
  se_sem1 :: "nat \<Rightarrow> bool"
  se_sem2 :: "nat \<Rightarrow> bool"
  se_node :: "nat \<Rightarrow> nat option"

text \<open>The loop that creates the segments \<open>i, ..., i + m - 1\<close>; an item of the pool is the number that the pointer points to.\<close>

fun segment_loop ::
  "seg_env \<Rightarrow> int \<Rightarrow> nat \<Rightarrow> nat \<Rightarrow> segment list \<Rightarrow> nat steque_state \<Rightarrow> (segment list \<times> nat steque_state) outcome" where
  "segment_loop env segsize 0 i segs q = Ret (segs, q)"
| "segment_loop env segsize (Suc m) i segs q =
     (if se_shm_open env i then Exits EXIT_FAILURE
      else if se_ftruncate env i then Exits EXIT_FAILURE
      else if se_sem1 env i then Exits EXIT_FAILURE
      else if se_sem2 env i then Exits EXIT_FAILURE
      else bind_outcome (steque_enqueue (se_node env i) i q) (\<lambda>q'.
             segment_loop env segsize m (Suc i)
               (segs @ [\<lparr>sg_size = segsize, sg_sem1 = 0, sg_sem2 = 1\<rparr>]) q'))"

text \<open>
  main: \<open>sigs\<close> says whether the two calls of signal succeed, \<open>sem\<close> whether sem\_open of the
  queue's semaphore does. The result: the segments, the pool, and the calls of the server
  library. The argument of each worker is the pool.
\<close>

definition cacheproxy_main ::
  "bool \<times> bool \<Rightarrow> opts \<Rightarrow> bool \<Rightarrow> seg_env \<Rightarrow>
   (segment list \<times> nat steque_state \<times> setup_call list) outcome" where
  "cacheproxy_main sigs os sem env =
     (if \<not> fst sigs \<or> \<not> snd sigs then Exits SERVER_FAILURE
      else bind_outcome (option_loop cacheproxy_switch os cacheproxy_default) (\<lambda>c.
           bind_outcome (cacheproxy_checks c) (\<lambda>server.
             if \<not> sem then Exits EXIT_FAILURE
             else bind_outcome (segment_loop env (cp_segsize c) (nat (cp_nsegments c)) 0 []
                    (steque_init Map.empty)) (\<lambda>(segs, q).
                  Ret (segs, q,
                    [GInit (cp_nworkerthreads c), GPort (cp_port c), GWorkerFunc, GMaxPending 187] @
                    map (\<lambda>i. GWorkerArg (int i) ''shm_stq'') [0..<nat (cp_nworkerthreads c)] @ [GServe])))))"

text \<open>
  The signal handler: on SIGTERM or SIGINT it stops the server, pops and frees every number
  (the loop of steque\_destroy), destroys the pool and exits. The shared memory and the
  semaphores stay.
\<close>

definition SIGINT :: int where "SIGINT = 2"
definition SIGTERM :: int where "SIGTERM = 15"

definition sig_handler :: "int \<Rightarrow> nat steque_state \<Rightarrow> nat steque_state outcome option" where
  "sig_handler signo q =
     (if signo = SIGTERM \<or> signo = SIGINT
      then (case steque_destroy STEQUE_FAILURE q of
              None \<Rightarrow> None
            | Some (Ret q1) \<Rightarrow>
                (case steque_destroy STEQUE_FAILURE q1 of
                   None \<Rightarrow> None
                 | Some (Ret q2) \<Rightarrow> Some (Exits signo)
                 | Some r \<Rightarrow> Some r)
            | Some r \<Rightarrow> Some r)
      else Some (Ret q))"

section \<open>The pool of segments\<close>

text \<open>
  handle\_with\_cache around the exchange, step by step: before sem\_wait on the queue's
  semaphore; at the test of the loop; before the sem\_post in the loop; before the pop; before
  the sem\_post after it; in the exchange with the cache; then the steps of
  steque\_enqueue, which is called without the semaphore: before malloc and the read of back;
  before the write of front or of back's next; before the write of back; before the read of N;
  before the write of N; returned.
\<close>

datatype kpc =
    KWait | KTest | KRetry | KPop | KPost nat | KUse nat
  | KNode nat | KLink nat "nat option" | KBack nat | KCount | KIncr int | KDone

datatype pstatus = PRunning | PExited int | PCrashed

record pool =
  pl_queue :: "nat steque_state"
  pl_sem :: nat
  pl_workers :: "kpc list"
  pl_status :: pstatus

definition pool_start :: "nat \<Rightarrow> nat steque_state \<Rightarrow> pool" where
  "pool_start nthreads q =
     \<lparr>pl_queue = q, pl_sem = 1, pl_workers = replicate nthreads KWait, pl_status = PRunning\<rparr>"

abbreviation goes :: "nat \<Rightarrow> kpc \<Rightarrow> pool \<Rightarrow> pool" where
  "goes w pc s \<equiv> s\<lparr>pl_workers := (pl_workers s)[w := pc]\<rparr>"

text \<open>A step of worker \<open>w\<close>; \<open>a\<close> is what malloc returns if the step calls it.\<close>

definition pool_step :: "nat \<Rightarrow> nat \<Rightarrow> pool \<Rightarrow> pool option" where
  "pool_step w a s =
     (if pl_status s \<noteq> PRunning \<or> length (pl_workers s) \<le> w then None
      else (case pl_workers s ! w of
        KWait \<Rightarrow> if 0 < pl_sem s then Some (goes w KTest (s\<lparr>pl_sem := pl_sem s - 1\<rparr>)) else None
      | KTest \<Rightarrow> Some (goes w (if steque_isempty (pl_queue s) = 1 then KRetry else KPop) s)
      | KRetry \<Rightarrow> Some (goes w KWait (s\<lparr>pl_sem := pl_sem s + 1\<rparr>))
      | KPop \<Rightarrow>
          (case steque_pop STEQUE_FAILURE (pl_queue s) of
             Ret (i, q) \<Rightarrow> Some (goes w (KPost i) (s\<lparr>pl_queue := q\<rparr>))
           | Exits n \<Rightarrow> Some (s\<lparr>pl_status := PExited n\<rparr>)
           | _ \<Rightarrow> Some (s\<lparr>pl_status := PCrashed\<rparr>))
      | KPost i \<Rightarrow> Some (goes w (KUse i) (s\<lparr>pl_sem := pl_sem s + 1\<rparr>))
      | KUse i \<Rightarrow> Some (goes w (KNode i) s)
      | KNode i \<Rightarrow>
          (case pl_queue s of (h, q) \<Rightarrow>
             if h a \<noteq> None then None
             else Some (goes w (KLink a (st_back q))
                    (s\<lparr>pl_queue := (h(a := Some \<lparr>nd_item = i, nd_next = None\<rparr>), q)\<rparr>)))
      | KLink a' b \<Rightarrow>
          (case pl_queue s of (h, q) \<Rightarrow>
             (case b of
                None \<Rightarrow> Some (goes w (KBack a') (s\<lparr>pl_queue := (h, q\<lparr>st_front := Some a'\<rparr>)\<rparr>))
              | Some b' \<Rightarrow>
                  (case h b' of
                     None \<Rightarrow> Some (s\<lparr>pl_status := PCrashed\<rparr>)
                   | Some bn \<Rightarrow>
                       Some (goes w (KBack a') (s\<lparr>pl_queue := (h(b' := Some (bn\<lparr>nd_next := Some a'\<rparr>)), q)\<rparr>)))))
      | KBack a' \<Rightarrow>
          (case pl_queue s of (h, q) \<Rightarrow> Some (goes w KCount (s\<lparr>pl_queue := (h, q\<lparr>st_back := Some a'\<rparr>)\<rparr>)))
      | KCount \<Rightarrow> Some (goes w (KIncr (st_N (snd (pl_queue s)))) s)
      | KIncr n \<Rightarrow>
          (case pl_queue s of (h, q) \<Rightarrow> Some (goes w KDone (s\<lparr>pl_queue := (h, q\<lparr>st_N := c_int (n + 1)\<rparr>)\<rparr>)))
      | KDone \<Rightarrow> Some (goes w KWait s)))"

text \<open>A schedule names the worker of each step and the address for malloc.\<close>

fun pool_exec :: "(nat \<times> nat) list \<Rightarrow> pool \<Rightarrow> pool option" where
  "pool_exec [] s = Some s"
| "pool_exec ((w, a) # sched) s =
     (case pool_step w a s of None \<Rightarrow> None | Some s' \<Rightarrow> pool_exec sched s')"

section \<open>main of simplecached.c\<close>

definition CACHE_FAILURE :: int where "CACHE_FAILURE = -1"

record cached_config =
  ca_nthreads :: int
  ca_cachedir :: "string option"
  ca_delay :: int

definition cached_default :: cached_config where
  "cached_default = \<lparr>ca_nthreads = 11, ca_cachedir = Some ''locals.txt'', ca_delay = 0\<rparr>"

definition cached_switch :: "char \<Rightarrow> string option \<Rightarrow> cached_config \<Rightarrow> cached_config outcome" where
  "cached_switch ch arg c =
     (if ch = CHR ''t'' then atoi_arg arg (\<lambda>v. c\<lparr>ca_nthreads := v\<rparr>)
      else if ch = CHR ''h'' then Exits 0
      else if ch = CHR ''c'' then Ret (c\<lparr>ca_cachedir := arg\<rparr>)
      else if ch = CHR ''d'' then atoi_arg arg (\<lambda>v. c\<lparr>ca_delay := c_size v\<rparr>)
      else if ch \<in> {CHR ''i'', CHR ''o'', CHR ''a''} then Ret c
      else Exits 1)"

text \<open>
  Up to the creation of the threads, each of which runs the loop of \<open>cache_worker\<close>: the cache
  and the number of threads. The checks exit with their lines, 203 and 208; \<open>mq\<close> says whether
  mq\_open succeeds.
\<close>

definition cached_main ::
  "opts \<Rightarrow> bool \<times> bool \<Rightarrow> (nat \<Rightarrow> string \<Rightarrow> int) \<Rightarrow> (string \<Rightarrow> string option) \<Rightarrow> bool \<Rightarrow> (content \<times> nat) outcome" where
  "cached_main os sigs opn files mq =
     bind_outcome (option_loop cached_switch os cached_default) (\<lambda>c.
       if 2500001 < ca_delay c then Exits 203
       else if 211804 < ca_nthreads c \<or> ca_nthreads c < 1 then Exits 208
       else if \<not> fst sigs \<or> \<not> snd sigs then Exits CACHE_FAILURE
       else (case ca_cachedir c of
               None \<Rightarrow> Undef
             | Some cachedir \<Rightarrow>
                 bind_outcome (simplecache_init opn (files cachedir)) (\<lambda>st.
                   if \<not> mq then Exits 1 else Ret (st, nat (ca_nthreads c)))))"

text \<open>The signal handler of the cache process: the message queue is closed and its name removed.\<close>

datatype mq_call = MqClose | MqUnlink string

definition cached_sig_handler :: "int \<Rightarrow> mq_call list \<times> unit outcome" where
  "cached_sig_handler signo =
     (if signo = SIGTERM \<or> signo = SIGINT
      then ([MqClose, MqUnlink ''/message_channel''], Exits signo) else ([], Ret ()))"

section \<open>The segments that main creates\<close>

lemma segment_loop_creates:
  assumes "\<forall>j. i \<le> j \<and> j < i + m \<longrightarrow> \<not> se_shm_open env j \<and> \<not> se_ftruncate env j \<and> \<not> se_sem1 env j \<and> \<not> se_sem2 env j"
    and "\<forall>j. i \<le> j \<and> j < i + m \<longrightarrow> se_node env j = Some (f j)" and "inj_on f {0..<i + m}"
    and "steque_wf q" and "steque_items q = [0..<i]" and "steque_nodes q = f ` {0..<i}"
    and "int (i + m) \<le> INT_MAX"
  shows "\<exists>q'. segment_loop env sz m i segs q =
      Ret (segs @ replicate m \<lparr>sg_size = sz, sg_sem1 = 0, sg_sem2 = 1\<rparr>, q') \<and>
    steque_wf q' \<and> steque_items q' = [0..<i + m]"
  using assms
proof (induction m arbitrary: i segs q)
  case (Suc m)
  have new: "f i \<notin> steque_nodes q"
  proof
    assume "f i \<in> steque_nodes q"
    then obtain j where "j < i" "f i = f j" using Suc.prems(6) by auto
    then show False using inj_onD [OF Suc.prems(3), of i j] by simp
  qed
  obtain q1 where q1: "steque_enqueue (Some (f i)) i q = Ret q1" "steque_wf q1"
      "steque_items q1 = [0..<i] @ [i]" "steque_nodes q1 = insert (f i) (f ` {0..<i})"
    using sq.enq_law [OF Suc.prems(4) new, of i] Suc.prems(5-7) by auto
  have "\<exists>q'. segment_loop env sz m (Suc i) (segs @ [\<lparr>sg_size = sz, sg_sem1 = 0, sg_sem2 = 1\<rparr>]) q1 =
      Ret ((segs @ [\<lparr>sg_size = sz, sg_sem1 = 0, sg_sem2 = 1\<rparr>]) @ replicate m \<lparr>sg_size = sz, sg_sem1 = 0, sg_sem2 = 1\<rparr>, q') \<and>
    steque_wf q' \<and> steque_items q' = [0..<Suc i + m]"
    by (rule Suc.IH) (use Suc.prems q1 in \<open>auto simp: atLeast0_lessThan_Suc\<close>)
  then show ?case using Suc.prems(1,2) q1(1) by auto
qed auto

section \<open>Returning a segment\<close>

text \<open>The five steps of worker \<open>w\<close> from KNode, with nothing between them.\<close>

definition put_steps :: "nat \<Rightarrow> nat \<Rightarrow> pool \<Rightarrow> pool option" where
  "put_steps w a s = pool_exec (replicate 5 (w, a)) s"

lemma put_steps_enqueue:
  assumes "pl_status s = PRunning" and "w < length (pl_workers s)" and "pl_workers s ! w = KNode i"
    and "steque_wf (pl_queue s)" and "a \<notin> steque_nodes (pl_queue s)"
    and "steque_enqueue (Some a) i (pl_queue s) = Ret q'"
  shows "put_steps w a s = Some (goes w KDone (s\<lparr>pl_queue := q'\<rparr>))"
proof -
  obtain h q where hq: "pl_queue s = (h, q)" by (cases "pl_queue s")
  have ha: "h a = None" using assms(5) hq by (auto simp: steque_nodes_def)
  have five: "replicate 5 (w, a) = [(w, a), (w, a), (w, a), (w, a), (w, a)]" by (simp add: numeral_eq_Suc)
  show ?thesis
  proof (cases "st_back q")
    case None
    with assms(1-3,6) hq ha show ?thesis
      by (cases q) (auto simp: put_steps_def five pool_step_def steque_enqueue.simps Let_def)
  next
    case (Some b)
    with assms(6) hq obtain bn where "(h(a \<mapsto> \<lparr>nd_item = i, nd_next = None\<rparr>)) b = Some bn"
      by (auto split: option.splits simp: steque_enqueue.simps Let_def)
    with assms(1-3,6) hq ha Some show ?thesis
      by (simp add: put_steps_def five pool_step_def steque_enqueue.simps Let_def)
  qed
qed

section \<open>Runs in which a return is not interrupted\<close>

text \<open>
  What the code relies on: no other worker touches the pool while one is in steque\_enqueue. A
  run of such steps: one step of a worker that is not in steque\_enqueue, or a whole return.
\<close>

fun returning :: "kpc \<Rightarrow> bool" where
  "returning (KNode i) = True" | "returning (KLink a b) = True" | "returning (KBack a) = True"
| "returning KCount = True" | "returning (KIncr n) = True" | "returning _ = False"

fun about_to_return :: "kpc \<Rightarrow> bool" where
  "about_to_return (KNode i) = True" | "about_to_return _ = False"

lemma about_to_returnE: "about_to_return pc \<Longrightarrow> \<exists>i. pc = KNode i"
  by (cases pc) auto

datatype pool_act = PStep nat | PReturn nat nat

fun pool_serial :: "pool_act list \<Rightarrow> pool \<Rightarrow> pool option" where
  "pool_serial [] s = Some s"
| "pool_serial (PStep w # as) s =
     (if w < length (pl_workers s) \<and> returning (pl_workers s ! w) then None
      else (case pool_step w 0 s of None \<Rightarrow> None | Some s' \<Rightarrow> pool_serial as s'))"
| "pool_serial (PReturn w a # as) s =
     (if w < length (pl_workers s) \<and> about_to_return (pl_workers s ! w)
      then (case put_steps w a s of None \<Rightarrow> None | Some s' \<Rightarrow> pool_serial as s')
      else None)"

fun held :: "kpc \<Rightarrow> nat list" where
  "held (KPost i) = [i]" | "held (KUse i) = [i]" | "held (KNode i) = [i]" | "held _ = []"

fun inside :: "kpc \<Rightarrow> nat" where
  "inside KTest = 1" | "inside KRetry = 1" | "inside KPop = 1" | "inside (KPost i) = 1" | "inside _ = 0"

fun settled :: "kpc \<Rightarrow> bool" where
  "settled (KLink a b) = False" | "settled (KBack a) = False" | "settled KCount = False"
| "settled (KIncr n) = False" | "settled _ = True"

abbreviation held_by :: "pool \<Rightarrow> nat list" where
  "held_by s \<equiv> concat (map held (pl_workers s))"

definition pool_inv :: "nat \<Rightarrow> pool \<Rightarrow> bool" where
  "pool_inv n s \<longleftrightarrow>
     pl_status s = PRunning \<and> steque_wf (pl_queue s) \<and> (\<forall>pc\<in>set (pl_workers s). settled pc) \<and>
     mset (steque_items (pl_queue s)) + mset (held_by s) = mset [0..<n] \<and>
     pl_sem s + sum_list (map inside (pl_workers s)) = 1 \<and>
     (KPop \<in> set (pl_workers s) \<longrightarrow> steque_items (pl_queue s) \<noteq> [])"

lemma pool_inv_start:
  assumes "steque_wf q" and "steque_items q = [0..<n]"
  shows "pool_inv n (pool_start k q)"
proof -
  have "sum_list (map inside (replicate k KWait)) = 0" by (induction k) auto
  with assms show ?thesis by (auto simp: pool_inv_def pool_start_def)
qed

text \<open>A worker goes to another place; the queue may be replaced.\<close>

lemma pool_inv_goes:
  assumes inv: "pool_inv n s" and w: "w < length (pl_workers s)" and "settled pc" and "steque_wf q"
    and items: "mset (steque_items q) + mset (held pc) =
      mset (steque_items (pl_queue s)) + mset (held (pl_workers s ! w))"
    and sem: "m + inside pc = pl_sem s + inside (pl_workers s ! w)"
    and pop: "KPop \<in> set ((pl_workers s)[w := pc]) \<longrightarrow> steque_items q \<noteq> []"
  shows "pool_inv n (s\<lparr>pl_queue := q, pl_sem := m, pl_workers := (pl_workers s)[w := pc]\<rparr>)"
proof -
  let ?ws = "pl_workers s" and ?ws' = "(pl_workers s)[w := pc]"
  have m: "mset (concat (map held ?ws')) + mset (held (?ws ! w)) = mset (held_by s) + mset (held pc)"
    using mset_concat_update [OF w] .
  have i: "sum_list (map inside ?ws') + inside (?ws ! w) = sum_list (map inside ?ws) + inside pc"
    using sum_list_map_update [OF w] .
  have inv': "mset (steque_items (pl_queue s)) + mset (held_by s) = mset [0..<n]"
      "pl_sem s + sum_list (map inside ?ws) = 1" "\<forall>pc\<in>set ?ws. settled pc" "pl_status s = PRunning"
    using inv unfolding pool_inv_def by blast+
  have "(mset (steque_items q) + mset (concat (map held ?ws'))) + (mset (held (?ws ! w)) + mset (held pc)) =
      (mset (steque_items q) + mset (held pc)) + (mset (concat (map held ?ws')) + mset (held (?ws ! w)))"
    by (simp only: ac_simps)
  also have "\<dots> = (mset (steque_items (pl_queue s)) + mset (held_by s)) + (mset (held (?ws ! w)) + mset (held pc))"
    unfolding items m by (simp only: ac_simps)
  finally have "mset (steque_items q) + mset (concat (map held ?ws')) = mset [0..<n]"
    unfolding inv'(1) by (simp only: add_right_cancel)
  moreover have "m + sum_list (map inside ?ws') = 1" using i sem inv'(2) by linarith
  moreover have "\<forall>pc\<in>set ?ws'. settled pc" using inv'(3) assms(3) by (auto dest: in_set_update)
  ultimately show ?thesis using inv'(4) assms(4) pop by (simp add: pool_inv_def del: mset_upt)
qed

lemma inside_one:
  assumes "sum_list (map inside ws) \<le> 1" and "w < length ws" and "inside (ws ! w) = 1"
    and "KPop \<in> set (ws[w := pc])" and "pc \<noteq> KPop"
  shows False
proof -
  obtain v where v: "v < length ws" "ws[w := pc] ! v = KPop" using assms(4) by (auto simp: in_set_conv_nth)
  then have "v \<noteq> w" using assms(2,5) by auto
  with v have "ws ! v = KPop" by simp
  have "sum_list (map inside (ws[w := KDone])) + 1 = sum_list (map inside ws)"
    using sum_list_map_update [OF assms(2), of inside KDone] assms(3) by simp
  moreover have "KPop \<in> set (ws[w := KDone])" using \<open>v \<noteq> w\<close> v(1) \<open>ws ! v = KPop\<close>
    by (metis length_list_update nth_list_update_neq nth_mem)
  then have "inside KPop \<in> set (map inside (ws[w := KDone]))" by (metis imageI set_map)
  then have "inside KPop \<le> sum_list (map inside (ws[w := KDone]))" by (rule member_le_sum_list) auto
  ultimately show False using assms(1) by simp
qed

lemma pool_inv_step:
  assumes inv: "pool_inv n s" and step: "pool_step w a s = Some s'" and w: "w < length (pl_workers s)"
    and nr: "\<not> returning (pl_workers s ! w)"
  shows "pool_inv n s'"
proof -
  let ?pc = "pl_workers s ! w"
  have run: "pl_status s = PRunning" and wf: "steque_wf (pl_queue s)"
    and sum: "pl_sem s + sum_list (map inside (pl_workers s)) = 1"
    and pop: "KPop \<in> set (pl_workers s) \<longrightarrow> steque_items (pl_queue s) \<noteq> []"
    using inv unfolding pool_inv_def by blast+
  have keep: "pc \<noteq> KPop \<Longrightarrow> KPop \<in> set ((pl_workers s)[w := pc]) \<longrightarrow> steque_items (pl_queue s) \<noteq> []" for pc
    using pop by (auto dest: in_set_update)
  have id: "s\<lparr>pl_queue := pl_queue s, pl_sem := pl_sem s, pl_workers := ws\<rparr> = s\<lparr>pl_workers := ws\<rparr>"
    "s\<lparr>pl_queue := pl_queue s, pl_sem := m, pl_workers := ws\<rparr> = s\<lparr>pl_sem := m, pl_workers := ws\<rparr>" for ws m
    by simp_all
  note move = pool_inv_goes [OF inv w _ wf, where m = m for m, unfolded id]
  show ?thesis
  proof (cases ?pc)
    case KWait
    with step run w have s': "0 < pl_sem s" "s' = s\<lparr>pl_sem := pl_sem s - 1, pl_workers := (pl_workers s)[w := KTest]\<rparr>"
      by (auto simp: pool_step_def split: if_splits)
    show ?thesis unfolding s'(2) by (rule move) (use KWait s'(1) keep [of KTest] in simp_all)
  next
    case KTest
    show ?thesis
    proof (cases "steque_items (pl_queue s) = []")
      case True
      then have s': "s' = s\<lparr>pl_workers := (pl_workers s)[w := KRetry]\<rparr>"
        using step run w KTest sq.isempty_law [OF wf] by (simp add: pool_step_def)
      show ?thesis unfolding s' by (rule move [of _ "pl_sem s", simplified]) (use KTest keep [of KRetry] in simp_all)
    next
      case False
      then have s': "s' = s\<lparr>pl_workers := (pl_workers s)[w := KPop]\<rparr>"
        using step run w KTest sq.isempty_law [OF wf] by (simp add: pool_step_def)
      show ?thesis unfolding s' by (rule move [of _ "pl_sem s", simplified]) (use KTest False in simp_all)
    qed
  next
    case KRetry
    with step run w have s': "s' = s\<lparr>pl_sem := pl_sem s + 1, pl_workers := (pl_workers s)[w := KWait]\<rparr>"
      by (simp add: pool_step_def)
    show ?thesis unfolding s' by (rule move) (use KRetry keep [of "KWait"] in simp_all)
  next
    case KPop
    then have "KPop \<in> set (pl_workers s)" using w by (metis nth_mem)
    with pop obtain i rest where i: "steque_items (pl_queue s) = i # rest" by (cases "steque_items (pl_queue s)") auto
    from sq.pop_law [OF wf i, of STEQUE_FAILURE] obtain q where
      q: "steque_pop STEQUE_FAILURE (pl_queue s) = Ret (i, q)" "steque_wf q" "steque_items q = rest" by blast
    with step run w KPop have s': "s' = s\<lparr>pl_queue := q, pl_sem := pl_sem s, pl_workers := (pl_workers s)[w := KPost i]\<rparr>"
      by (simp add: pool_step_def)
    have "KPop \<notin> set ((pl_workers s)[w := KPost i])"
      using inside_one [of "pl_workers s" w "KPost i"] sum w KPop by auto
    then show ?thesis unfolding s' by (intro pool_inv_goes [OF inv w]) (use KPop q i in simp_all)
  next
    case (KPost i)
    with step run w have s': "s' = s\<lparr>pl_sem := pl_sem s + 1, pl_workers := (pl_workers s)[w := KUse i]\<rparr>"
      by (simp add: pool_step_def)
    show ?thesis unfolding s' by (rule move) (use KPost keep [of "KUse i"] in simp_all)
  next
    case (KUse i)
    with step run w have s': "s' = s\<lparr>pl_workers := (pl_workers s)[w := KNode i]\<rparr>"
      by (simp add: pool_step_def)
    show ?thesis unfolding s' by (rule move [of _ "pl_sem s", simplified]) (use KUse keep [of "KNode i"] in simp_all)
  next
    case KDone
    with step run w have s': "s' = s\<lparr>pl_workers := (pl_workers s)[w := KWait]\<rparr>"
      by (simp add: pool_step_def)
    show ?thesis unfolding s' by (rule move [of _ "pl_sem s", simplified]) (use KDone keep [of "KWait"] in simp_all)
  qed (use nr in simp_all)
qed

lemma pool_inv_return:
  assumes inv: "pool_inv n s" and w: "w < length (pl_workers s)" and pc: "pl_workers s ! w = KNode i"
    and step: "put_steps w a s = Some s'" and n: "int n \<le> INT_MAX"
  shows "pool_inv n s'"
proof -
  have run: "pl_status s = PRunning" and wf: "steque_wf (pl_queue s)"
    and ids: "mset (steque_items (pl_queue s)) + mset (held_by s) = mset [0..<n]"
    using inv unfolding pool_inv_def by blast+
  have a: "a \<notin> steque_nodes (pl_queue s)"
  proof
    assume "a \<in> steque_nodes (pl_queue s)"
    then have "pool_step w a s = None" using run w pc
      by (cases "pl_queue s") (auto simp: pool_step_def steque_nodes_def)
    then have "put_steps w a s = None" by (simp add: put_steps_def numeral_eq_Suc)
    with step show False by simp
  qed
  have "length (steque_items (pl_queue s)) + length (held_by s) = n"
    using arg_cong [OF ids, of size] by simp
  moreover have "i \<in> set (held_by s)" using w pc by (force simp: in_set_conv_nth)
  then have "0 < length (held_by s)" by (cases "held_by s") auto
  ultimately have "int (length (steque_items (pl_queue s))) < INT_MAX" using n by linarith
  from sq.enq_law [OF wf a this, of i] obtain q where
    q: "steque_enqueue (Some a) i (pl_queue s) = Ret q" "steque_wf q"
      "steque_items q = steque_items (pl_queue s) @ [i]" by blast
  have s': "s' = s\<lparr>pl_queue := q, pl_sem := pl_sem s, pl_workers := (pl_workers s)[w := KDone]\<rparr>"
    using put_steps_enqueue [OF run w pc wf a q(1)] step by simp
  show ?thesis unfolding s' by (rule pool_inv_goes [OF inv w]) (use pc q in simp_all)
qed

lemma pool_serial_inv:
  "pool_serial as s = Some s' \<Longrightarrow> pool_inv n s \<Longrightarrow> int n \<le> INT_MAX \<Longrightarrow> pool_inv n s'"
proof (induction as arbitrary: s)
  case Nil
  then show ?case by simp
next
  case (Cons act as)
  show ?case
  proof (cases act)
    case (PStep w)
    with Cons.prems(1) obtain s1 where s1: "pool_step w 0 s = Some s1" "pool_serial as s1 = Some s'"
        "\<not> (w < length (pl_workers s) \<and> returning (pl_workers s ! w))"
      by (auto split: option.splits if_splits)
    have w: "w < length (pl_workers s)" using s1(1) by (auto simp: pool_step_def split: if_splits)
    then have "pool_inv n s1" using pool_inv_step [OF Cons.prems(2) s1(1)] s1(3) by blast
    then show ?thesis by (rule Cons.IH [OF s1(2) _ Cons.prems(3)])
  next
    case (PReturn w a)
    with Cons.prems(1) obtain i s1 where s1: "put_steps w a s = Some s1" "pool_serial as s1 = Some s'"
        "w < length (pl_workers s)" "pl_workers s ! w = KNode i"
      by (auto split: option.splits if_splits dest: about_to_returnE)
    then have "pool_inv n s1" using pool_inv_return [OF Cons.prems(2) s1(3,4,1) Cons.prems(3)] by blast
    then show ?thesis by (rule Cons.IH [OF s1(2) _ Cons.prems(3)])
  qed
qed

section \<open>Properties\<close>

text \<open>
  What main of the proxy sets up when no call fails: a segment for each number below the
  segment count, each of the requested size and with the semaphores at 0 and 1, where the
  exchange with the cache starts; a pool that holds each number once, in order; and a library
  that is started with the checked port and number of workers, each given the pool.
\<close>

theorem cacheproxy_setup:
  assumes "option_loop cacheproxy_switch os cacheproxy_default = Ret c" and "cacheproxy_checks c = Ret server"
    and "cp_nsegments c = int n" and "int n \<le> INT_MAX" and "inj_on f {0..<n}"
    and "\<forall>j < n. \<not> se_shm_open env j \<and> \<not> se_ftruncate env j \<and> \<not> se_sem1 env j \<and> \<not> se_sem2 env j \<and>
      se_node env j = Some (f j)"
  shows "\<exists>q. cacheproxy_main (True, True) os True env =
      Ret (replicate n \<lparr>sg_size = cp_segsize c, sg_sem1 = x_sem1 xfer_start, sg_sem2 = x_sem2 xfer_start\<rparr>, q,
        [GInit (cp_nworkerthreads c), GPort (cp_port c), GWorkerFunc, GMaxPending 187] @
        map (\<lambda>i. GWorkerArg (int i) ''shm_stq'') [0..<nat (cp_nworkerthreads c)] @ [GServe]) \<and>
    steque_wf q \<and> steque_items q = [0..<n] \<and>
    0 < n \<and> 824 \<le> cp_segsize c \<and> cp_port c \<le> 65331 \<and> 1 \<le> cp_nworkerthreads c \<and> cp_nworkerthreads c \<le> 420"
proof -
  have "\<exists>q'. segment_loop env (cp_segsize c) n 0 [] (steque_init Map.empty) =
      Ret ([] @ replicate n \<lparr>sg_size = cp_segsize c, sg_sem1 = 0, sg_sem2 = 1\<rparr>, q') \<and>
    steque_wf q' \<and> steque_items q' = [0..<0 + n]"
    by (rule segment_loop_creates [where f = f]) (use assms(4-6) in auto)
  then obtain q where q: "segment_loop env (cp_segsize c) n 0 [] (steque_init Map.empty) =
      Ret (replicate n \<lparr>sg_size = cp_segsize c, sg_sem1 = 0, sg_sem2 = 1\<rparr>, q)"
    "steque_wf q" "steque_items q = [0..<n]" by auto
  have "0 < n" "824 \<le> cp_segsize c" "cp_port c \<le> 65331" "1 \<le> cp_nworkerthreads c" "cp_nworkerthreads c \<le> 420"
    using assms(2,3) by (auto simp: cacheproxy_checks_def split: option.splits if_splits)
  with q assms(1-3) show ?thesis by (simp add: cacheproxy_main_def xfer_start_def)
qed

definition good_segs :: seg_env where
  "good_segs =
     \<lparr>se_shm_open = (\<lambda>i. False), se_ftruncate = (\<lambda>i. False), se_sem1 = (\<lambda>i. False),
      se_sem2 = (\<lambda>i. False), se_node = (\<lambda>i. Some (i + 10))\<rparr>"

theorem cacheproxy_setup_witness:
  "\<exists>q. cacheproxy_main (True, True) [(CHR ''n'', Some ''2''), (CHR ''t'', Some ''1'')] True good_segs =
     Ret (replicate 2 \<lparr>sg_size = 5313, sg_sem1 = 0, sg_sem2 = 1\<rparr>, q,
       [GInit 1, GPort 6200, GWorkerFunc, GMaxPending 187, GWorkerArg 0 ''shm_stq'', GServe]) \<and>
     steque_items q = [0, 1]"
proof -
  let ?c = "cacheproxy_default\<lparr>cp_nsegments := 2, cp_nworkerthreads := 1\<rparr>"
  let ?os = "[(CHR ''n'', Some ''2''), (CHR ''t'', Some ''1'')]"
  have "option_loop cacheproxy_switch ?os cacheproxy_default = Ret ?c" by code_simp
  from cacheproxy_setup [OF this, of "the (cp_server cacheproxy_default)" 2 "\<lambda>i. i + 10" good_segs]
  show ?thesis
    by (auto simp: cacheproxy_checks_def cacheproxy_default_def good_segs_def INT_MAX_def xfer_start_def
        upt_rec numeral_2_eq_2)
qed

text \<open>
  C30. A segment serves one request at a time: in every run from the pool that main sets up in
  which no step of another worker falls into a return, no worker crashes or ends the process,
  and every segment is either in the pool, once, or held by exactly one worker; none is lost.
\<close>

theorem pool_segments_exclusive:
  assumes "steque_wf q" and "steque_items q = [0..<n]" and "int n \<le> INT_MAX"
    and "pool_serial as (pool_start k q) = Some s"
  shows "pl_status s = PRunning \<and> distinct (steque_items (pl_queue s) @ held_by s) \<and>
    set (steque_items (pl_queue s) @ held_by s) = {0..<n}"
proof -
  have inv: "pool_inv n s" using pool_serial_inv [OF assms(4) pool_inv_start [OF assms(1,2)] assms(3)] .
  then have "mset (steque_items (pl_queue s) @ held_by s) = mset [0..<n]" unfolding pool_inv_def by simp
  then have "distinct (steque_items (pl_queue s) @ held_by s)"
    "set (steque_items (pl_queue s) @ held_by s) = set [0..<n]"
    using mset_eq_imp_distinct_iff [of "steque_items (pl_queue s) @ held_by s" "[0..<n]"]
      mset_eq_setD [of "steque_items (pl_queue s) @ held_by s" "[0..<n]"] by (simp_all del: mset_append)
  with inv show ?thesis unfolding pool_inv_def by simp
qed

text \<open>The pool of two segments.\<close>

definition two_segments :: "nat steque_state" where
  "two_segments =
     (case segment_loop good_segs 824 2 0 [] (steque_init Map.empty) of Ret (segs, q) \<Rightarrow> q | _ \<Rightarrow> steque_init Map.empty)"

lemma two_segments_facts: "steque_wf two_segments" "steque_items two_segments = [0..<2]"
proof -
  have "\<exists>q'. segment_loop good_segs 824 2 0 [] (steque_init Map.empty) =
      Ret ([] @ replicate 2 \<lparr>sg_size = 824, sg_sem1 = 0, sg_sem2 = 1\<rparr>, q') \<and>
    steque_wf q' \<and> steque_items q' = [0..<0 + 2]"
    by (rule segment_loop_creates [where f = "\<lambda>i. i + 10"]) (auto simp: good_segs_def INT_MAX_def)
  then obtain q' where q': "segment_loop good_segs 824 2 0 [] (steque_init Map.empty) =
      Ret ([] @ replicate 2 \<lparr>sg_size = 824, sg_sem1 = 0, sg_sem2 = 1\<rparr>, q')"
    "steque_wf q'" "steque_items q' = [0..<0 + 2]" by blast
  have "two_segments = q'" by (simp only: two_segments_def q'(1) outcome.case prod.case)
  with q'(2) q'(3) [unfolded add_0] show "steque_wf two_segments" "steque_items two_segments = [0..<2]"
    by (simp_all only:)
qed

definition serial_demo :: "pool_act list" where
  "serial_demo = replicate 5 (PStep 0) @ replicate 4 (PStep 1) @ [PReturn 0 20]"

theorem pool_segments_exclusive_witness:
  "\<exists>s. pool_serial serial_demo (pool_start 3 two_segments) = Some s \<and> pl_status s = PRunning \<and>
     set (steque_items (pl_queue s) @ held_by s) = {0..<2}"
proof -
  have "pool_serial serial_demo (pool_start 3 two_segments) \<noteq> None" by code_simp
  then obtain s where s: "pool_serial serial_demo (pool_start 3 two_segments) = Some s" by auto
  have "int 2 \<le> INT_MAX" by (simp add: INT_MAX_def)
  from pool_segments_exclusive [OF two_segments_facts this s] s show ?thesis by auto
qed

text \<open>
  The return of a segment is not protected by the semaphore of the queue, and that can end
  the whole proxy: with two segments and three workers, two returns that overlap leave the pool
  with the count 2 and one node; the second pop after that finds no node and exits.
\<close>

theorem pool_return_race:
  "\<exists>sched s. pool_exec sched (pool_start 3 two_segments) = Some s \<and> pl_status s = PExited STEQUE_FAILURE"
proof -
  let ?sched = "replicate 5 (0, 0) @ replicate 5 (1, 0) @
    [(0, 20), (1, 21), (0, 0), (1, 0), (0, 0), (1, 0), (0, 0), (0, 0), (1, 0), (1, 0)] @
    replicate 4 (2, 0) @ replicate 4 (0, 0)"
  have "map_option pl_status (pool_exec ?sched (pool_start 3 two_segments)) = Some (PExited STEQUE_FAILURE)"
    by code_simp
  then show ?thesis by (auto simp: map_option_case split: option.splits)
qed

end
