(* ===== verification/CacheSystem.thy ===== *)
theory CacheSystem
  imports CacheIPC
begin

text \<open>
  ipc/cache as a whole: any number of proxy threads, which serve their requests one after the
  other, any number of threads of the cache process, the segments with their semaphores, the pool
  of free segments and the message queue that all of them share. The exchange over one segment is
  the one of CacheIPC; here its steps are taken in any order with those of all other requests.
\<close>

section \<open>The state\<close>

text \<open>A segment: the struct message in it and the values of its two semaphores.\<close>

record segmem =
  sh_msg :: message
  sh_sem1 :: nat
  sh_sem2 :: nat

definition segmem_new :: segmem where
  "segmem_new = \<lparr>sh_msg = zero_message, sh_sem1 = 0, sh_sem2 = 1\<rparr>"

text \<open>
  A thread of the proxy: the paths it is still asked for; where it is, with the segment, the path
  and the calls on the connection of the request it is serving; the requests it has served, with
  their calls and the value that handle\_with\_cache has returned.
\<close>

datatype qpc = QIdle | QUse nat string ppc "reply list"

record proxy_thread =
  px_todo :: "string list"
  px_pc :: qpc
  px_done :: "(string \<times> reply list \<times> int) list"

text \<open>
  A thread of the cache process is in mq\_receive (None), or at a place of its loop with the number
  that it has found in the message. The pool is the list of its items, the message queue a list of
  numbers and paths.
\<close>

record cache_sys =
  cy_segs :: "nat \<Rightarrow> segmem"
  cy_pool :: "nat list"
  cy_mq :: "(nat \<times> string) list"
  cy_proxies :: "proxy_thread list"
  cy_caches :: "(nat \<times> cpc) option list"

definition sys_start :: "nat \<Rightarrow> nat \<Rightarrow> string list list \<Rightarrow> cache_sys" where
  "sys_start n k reqs =
     \<lparr>cy_segs = (\<lambda>i. segmem_new), cy_pool = [0..<n], cy_mq = [],
      cy_proxies = map (\<lambda>ps. \<lparr>px_todo = ps, px_pc = QIdle, px_done = []\<rparr>) reqs,
      cy_caches = replicate k None\<rparr>"

section \<open>The steps\<close>

text \<open>What the two sides of a request see: the segment, the messages for it, and where they are.\<close>

definition seg_xfer :: "segmem \<Rightarrow> string list \<Rightarrow> ppc \<Rightarrow> cpc \<Rightarrow> reply list \<Rightarrow> xfer" where
  "seg_xfer m q pc c calls =
     \<lparr>x_msg = sh_msg m, x_sem1 = sh_sem1 m, x_sem2 = sh_sem2 m, x_mq = q, x_proxy = pc, x_cache = c, x_calls = calls\<rparr>"

definition xfer_seg :: "xfer \<Rightarrow> segmem" where
  "xfer_seg x = \<lparr>sh_msg = x_msg x, sh_sem1 = x_sem1 x, sh_sem2 = x_sem2 x\<rparr>"

text \<open>
  A step of proxy thread \<open>i\<close>: it takes a segment for its next request (the loop over the pool and
  the pop, under the queue's semaphore), does a step of the exchange, or returns the segment and is
  done with the request. mq\_send waits while the queue has \<open>cap\<close> messages.
\<close>

definition proxy_step :: "cache_env \<Rightarrow> nat \<Rightarrow> nat \<Rightarrow> cache_sys \<Rightarrow> cache_sys option" where
  "proxy_step env cap i g =
     (if length (cy_proxies g) \<le> i then None
      else (let p = cy_proxies g ! i in
        case px_pc p of
          QIdle \<Rightarrow>
            (case px_todo p of
               [] \<Rightarrow> None
             | path # rest \<Rightarrow>
                 (case cy_pool g of
                    [] \<Rightarrow> None
                  | sid # sids \<Rightarrow>
                      Some (g\<lparr>cy_pool := sids,
                              cy_proxies := (cy_proxies g)[i := p\<lparr>px_todo := rest, px_pc := QUse sid path PSend []\<rparr>]\<rparr>)))
        | QUse sid path pc calls \<Rightarrow>
            (case pc of
               PDone r \<Rightarrow>
                 Some (g\<lparr>cy_pool := cy_pool g @ [sid],
                         cy_proxies := (cy_proxies g)[i := p\<lparr>px_pc := QIdle, px_done := px_done p @ [(path, calls, r)]\<rparr>]\<rparr>)
             | _ \<Rightarrow>
                 if pc = PSend \<and> cap \<le> length (cy_mq g) then None
                 else (case handle_with_cache env path (seg_xfer (cy_segs g sid) [] pc CIdle calls) of
                         None \<Rightarrow> None
                       | Some x \<Rightarrow>
                           Some (g\<lparr>cy_segs := (cy_segs g)(sid := xfer_seg x),
                                   cy_mq := cy_mq g @ map (Pair sid) (x_mq x),
                                   cy_proxies := (cy_proxies g)[i := p\<lparr>px_pc := QUse sid path (x_proxy x) (x_calls x)\<rparr>]\<rparr>)))))"

text \<open>
  A step of cache thread \<open>k\<close>: it receives the first message, does a step of the exchange, or goes
  back to the top of its loop.
\<close>

definition cache_step :: "cache_env \<Rightarrow> nat \<Rightarrow> cache_sys \<Rightarrow> cache_sys option" where
  "cache_step env k g =
     (if length (cy_caches g) \<le> k then None
      else (case cy_caches g ! k of
          None \<Rightarrow>
            (case cy_mq g of
               [] \<Rightarrow> None
             | (sid, path) # m \<Rightarrow> Some (g\<lparr>cy_mq := m, cy_caches := (cy_caches g)[k := Some (sid, CGet path)]\<rparr>))
        | Some (sid, CDone) \<Rightarrow> Some (g\<lparr>cy_caches := (cy_caches g)[k := None]\<rparr>)
        | Some (sid, c) \<Rightarrow>
            (case cache_worker env (seg_xfer (cy_segs g sid) [] PSend c []) of
               None \<Rightarrow> None
             | Some x \<Rightarrow>
                 Some (g\<lparr>cy_segs := (cy_segs g)(sid := xfer_seg x),
                         cy_caches := (cy_caches g)[k := Some (sid, x_cache x)]\<rparr>))))"

datatype sys_act = AProxy nat | ACache nat

fun sys_step :: "cache_env \<Rightarrow> nat \<Rightarrow> sys_act \<Rightarrow> cache_sys \<Rightarrow> cache_sys option" where
  "sys_step env cap (AProxy i) g = proxy_step env cap i g"
| "sys_step env cap (ACache k) g = cache_step env k g"

fun sys_exec :: "cache_env \<Rightarrow> nat \<Rightarrow> sys_act list \<Rightarrow> cache_sys \<Rightarrow> cache_sys option" where
  "sys_exec env cap [] g = Some g"
| "sys_exec env cap (a # as) g =
     (case sys_step env cap a g of None \<Rightarrow> None | Some g' \<Rightarrow> sys_exec env cap as g')"

definition sys_stuck :: "cache_env \<Rightarrow> nat \<Rightarrow> cache_sys \<Rightarrow> bool" where
  "sys_stuck env cap g \<longleftrightarrow> (\<forall>a. sys_step env cap a g = None)"

lemma proxy_step_use:
  assumes "i < length (cy_proxies g)" "px_pc (cy_proxies g ! i) = QUse sid path pc calls" "\<forall>r. pc \<noteq> PDone r"
  shows "proxy_step env cap i g =
    (if pc = PSend \<and> cap \<le> length (cy_mq g) then None
     else (case handle_with_cache env path (seg_xfer (cy_segs g sid) [] pc CIdle calls) of
             None \<Rightarrow> None
           | Some x \<Rightarrow>
               Some (g\<lparr>cy_segs := (cy_segs g)(sid := xfer_seg x), cy_mq := cy_mq g @ map (Pair sid) (x_mq x),
                       cy_proxies := (cy_proxies g)[i := (cy_proxies g ! i)\<lparr>px_pc := QUse sid path (x_proxy x) (x_calls x)\<rparr>]\<rparr>)))"
  using assms(1,3) unfolding proxy_step_def Let_def assms(2) qpc.case
  by (cases pc) (simp_all del: option.case_eq_if)

lemma proxy_step_return:
  "i < length (cy_proxies g) \<Longrightarrow> px_pc (cy_proxies g ! i) = QUse sid path (PDone r) calls \<Longrightarrow>
   proxy_step env cap i g \<noteq> None"
  by (simp add: proxy_step_def Let_def)

lemma cache_step_work:
  assumes "k < length (cy_caches g)" "cy_caches g ! k = Some (sid, c)" "c \<noteq> CDone"
  shows "cache_step env k g =
    (case cache_worker env (seg_xfer (cy_segs g sid) [] PSend c []) of
       None \<Rightarrow> None
     | Some x \<Rightarrow> Some (g\<lparr>cy_segs := (cy_segs g)(sid := xfer_seg x), cy_caches := (cy_caches g)[k := Some (sid, x_cache x)]\<rparr>))"
  using assms(1,3) unfolding cache_step_def assms(2) option.case prod.case
  by (cases c) simp_all

lemma cache_step_loop:
  "k < length (cy_caches g) \<Longrightarrow> cy_caches g ! k = Some (sid, CDone) \<Longrightarrow>
   cache_step env k g = Some (g\<lparr>cy_caches := (cy_caches g)[k := None]\<rparr>)"
  by (simp add: cache_step_def)

section \<open>Lists of threads\<close>

lemma concat_map_split:
  assumes "k < length xs"
  shows "concat (map f xs) = concat (map f (take k xs)) @ f (xs ! k) @ concat (map f (drop (Suc k) xs))"
  by (subst id_take_nth_drop [OF assms]) (simp only: map_append list.map concat_append concat.simps)

lemma concat_map_update:
  "k < length xs \<Longrightarrow>
   concat (map f (xs[k := y])) = concat (map f (take k xs)) @ f y @ concat (map f (drop (Suc k) xs))"
  by (simp add: upd_conv_take_nth_drop)

lemma concat_map_unique:
  assumes "distinct (concat (map f xs))" "i < length xs" "j < length xs" "a \<in> set (f (xs ! i))" "a \<in> set (f (xs ! j))"
  shows "i = j"
proof (rule ccontr)
  assume "i \<noteq> j"
  have *: False if "i < j" "j < length xs" "a \<in> set (f (xs ! i))" "a \<in> set (f (xs ! j))" for i j
  proof -
    have i: "xs ! i \<in> set (take j xs)"
      using that(1,2) by (metis length_take min.absorb4 nth_mem nth_take)
    have "concat (map f xs) = concat (map f (take j xs)) @ f (xs ! j) @ concat (map f (drop (Suc j) xs))"
      by (rule concat_map_split [OF that(2)])
    with assms(1) have "set (concat (map f (take j xs))) \<inter> set (f (xs ! j)) = {}"
      by (simp only: distinct_append set_append) blast
    moreover have "a \<in> set (concat (map f (take j xs)))" using i that(3) by auto
    ultimately show False using that(4) by blast
  qed
  from \<open>i \<noteq> j\<close> assms(2-5) * [of i j] * [of j i] show False by linarith
qed

section \<open>What belongs to a request\<close>

text \<open>A cache thread that will not touch its segment any more.\<close>

fun quiet :: "cache_env \<Rightarrow> cpc \<Rightarrow> bool" where
  "quiet env CDone = True"
| "quiet env (CRead fd off) = (case ce_pread env fd SEG_CHUNK (int off) of None \<Rightarrow> True | Some d \<Rightarrow> d = [])"
| "quiet env c = False"

fun working :: "cache_env \<Rightarrow> nat \<Rightarrow> (nat \<times> cpc) option \<Rightarrow> cpc list" where
  "working env sid None = []"
| "working env sid (Some (j, c)) = (if j = sid \<and> \<not> quiet env c then [c] else [])"

definition busy :: "cache_env \<Rightarrow> nat \<Rightarrow> cache_sys \<Rightarrow> cpc list" where
  "busy env sid g = concat (map (working env sid) (cy_caches g))"

definition msgs :: "nat \<Rightarrow> cache_sys \<Rightarrow> string list" where
  "msgs sid g = map snd (filter (\<lambda>m. fst m = sid) (cy_mq g))"

definition cache_side :: "cache_env \<Rightarrow> nat \<Rightarrow> ppc \<Rightarrow> cache_sys \<Rightarrow> cpc" where
  "cache_side env sid pc g =
     (case busy env sid g of
        c # cs \<Rightarrow> c
      | [] \<Rightarrow> if msgs sid g \<noteq> [] \<or> pc = PSend then CIdle else CDone)"

definition request_view :: "cache_env \<Rightarrow> nat \<Rightarrow> ppc \<Rightarrow> reply list \<Rightarrow> cache_sys \<Rightarrow> xfer" where
  "request_view env sid pc calls g =
     seg_xfer (cy_segs g sid) (msgs sid g) pc (cache_side env sid pc g) calls"

fun uses :: "qpc \<Rightarrow> nat list" where
  "uses QIdle = []" | "uses (QUse sid path pc calls) = [sid]"

definition in_use :: "cache_sys \<Rightarrow> nat list" where
  "in_use g = concat (map (\<lambda>p. uses (px_pc p)) (cy_proxies g))"

text \<open>The requests of a proxy thread, served, current and to come.\<close>

fun current :: "qpc \<Rightarrow> string list" where
  "current QIdle = []" | "current (QUse sid path pc calls) = [path]"

definition requests :: "proxy_thread \<Rightarrow> string list" where
  "requests p = map fst (px_done p) @ current (px_pc p) @ px_todo p"

definition same_at :: "cache_env \<Rightarrow> cache_sys \<Rightarrow> cache_sys \<Rightarrow> nat \<Rightarrow> bool" where
  "same_at env g g' sid \<longleftrightarrow> cy_segs g' sid = cy_segs g sid \<and> msgs sid g' = msgs sid g \<and> busy env sid g' = busy env sid g"

definition untouched :: "cache_env \<Rightarrow> nat \<Rightarrow> cache_sys \<Rightarrow> bool" where
  "untouched env sid g \<longleftrightarrow> msgs sid g = [] \<and> busy env sid g = []"

lemma working_Some: "c \<in> set (working env sid w) \<Longrightarrow> w = Some (sid, c) \<and> \<not> quiet env c"
  by (cases "(env, sid, w)" rule: working.cases) (auto split: if_splits)

lemma busy_working:
  assumes "c \<in> set (busy env sid g)"
  shows "Some (sid, c) \<in> set (cy_caches g)" "\<not> quiet env c"
  using assms working_Some unfolding busy_def by fastforce+

text \<open>What a step of cache thread \<open>k\<close> does to the threads that work for a segment.\<close>

lemma busy_kept:
  assumes "k < length (cy_caches g)" "cy_caches g' = (cy_caches g)[k := y]"
    and "working env j y = working env j (cy_caches g ! k)"
  shows "busy env j g' = busy env j g"
  unfolding busy_def assms(2) concat_map_update [OF assms(1)] concat_map_split [OF assms(1), of "working env j"] assms(3) ..

lemma append_around: "a @ w @ b = w \<longleftrightarrow> a = [] \<and> b = []"
  by (auto dest: arg_cong [of _ _ length])

lemma busy_own:
  assumes "k < length (cy_caches g)" "cy_caches g' = (cy_caches g)[k := y]"
    and "busy env sid g = working env sid (cy_caches g ! k)"
  shows "busy env sid g' = working env sid y"
  using assms(3) unfolding busy_def assms(2) concat_map_update [OF assms(1)] concat_map_split [OF assms(1), of "working env sid"]
    append_around
  by (elim conjE) simp

text \<open>At most one message or working cache thread, and that is not waiting for a message.\<close>

definition single :: "cache_env \<Rightarrow> nat \<Rightarrow> cache_sys \<Rightarrow> bool" where
  "single env sid g \<longleftrightarrow> length (msgs sid g) + length (busy env sid g) \<le> 1 \<and> CIdle \<notin> set (busy env sid g)"

lemma single_same: "same_at env g g' sid \<Longrightarrow> single env sid g \<Longrightarrow> single env sid g'"
  by (simp add: same_at_def single_def)

lemma seg_xfer_sel [simp]:
  "x_msg (seg_xfer m q pc c calls) = sh_msg m" "x_sem1 (seg_xfer m q pc c calls) = sh_sem1 m"
  "x_sem2 (seg_xfer m q pc c calls) = sh_sem2 m" "x_mq (seg_xfer m q pc c calls) = q"
  "x_proxy (seg_xfer m q pc c calls) = pc" "x_cache (seg_xfer m q pc c calls) = c"
  "x_calls (seg_xfer m q pc c calls) = calls" "xfer_seg (seg_xfer m q pc c calls) = m"
  by (simp_all add: seg_xfer_def xfer_seg_def)

lemma seg_xfer_collapse: "seg_xfer (xfer_seg x) (x_mq x) (x_proxy x) (x_cache x) (x_calls x) = x"
  by (simp add: seg_xfer_def xfer_seg_def)

lemma xfer_seg_update [simp]:
  "xfer_seg (x\<lparr>x_mq := q\<rparr>) = xfer_seg x" "xfer_seg (x\<lparr>x_cache := c\<rparr>) = xfer_seg x"
  "xfer_seg (x\<lparr>x_proxy := pc\<rparr>) = xfer_seg x" "xfer_seg (x\<lparr>x_calls := calls\<rparr>) = xfer_seg x"
  by (simp_all add: xfer_seg_def)

lemma request_view_same: "same_at env g g' sid \<Longrightarrow> request_view env sid pc calls g' = request_view env sid pc calls g"
  by (simp add: same_at_def request_view_def cache_side_def)

text \<open>A side does its step whatever the other side's place is.\<close>

lemma handle_frame:
  assumes "handle_with_cache env path (seg_xfer m [] pc CIdle calls) = Some x" "pc \<noteq> PSend"
  shows "x_mq x = []" "x_proxy x \<noteq> PSend"
    and "handle_with_cache env path (seg_xfer m q pc c calls) = Some (x\<lparr>x_mq := q, x_cache := c\<rparr>)"
  using assms by (auto simp: handle_with_cache_def seg_xfer_def Let_def split: ppc.splits if_splits)

lemma handle_None:
  "handle_with_cache env path (seg_xfer m q pc c calls) = None \<longleftrightarrow>
   handle_with_cache env path (seg_xfer m [] pc CIdle calls) = None"
  by (simp add: handle_with_cache_def seg_xfer_def Let_def split: ppc.splits)

lemma cache_worker_frame:
  assumes "cache_worker env (seg_xfer m [] PSend c []) = Some x" "c \<noteq> CIdle"
  shows "x_cache x \<noteq> CIdle"
    and "cache_worker env (seg_xfer m q pc c calls) = Some (x\<lparr>x_mq := q, x_proxy := pc, x_calls := calls\<rparr>)"
  using assms by (auto simp: cache_worker_def seg_xfer_def split: cpc.splits option.splits if_splits)

lemma cache_worker_None:
  "c \<noteq> CIdle \<Longrightarrow> cache_worker env (seg_xfer m q pc c calls) = None \<longleftrightarrow>
   cache_worker env (seg_xfer m [] PSend c []) = None"
  by (simp add: cache_worker_def seg_xfer_def split: cpc.splits option.splits)

lemma cache_worker_receive:
  "cache_worker env (seg_xfer m (path # q) pc CIdle calls) = Some (seg_xfer m q pc (CGet path) calls)"
  by (simp add: cache_worker_def seg_xfer_def)

lemma cache_worker_quiet:
  assumes "quiet env c"
  shows "c = CDone \<or> cache_worker env (seg_xfer m q pc c calls) = Some (seg_xfer m q pc CDone calls)"
  using assms by (cases c) (auto simp: cache_worker_def seg_xfer_def split: option.splits)

section \<open>Weights\<close>

text \<open>
  The steps that are left at most: a request pays for the places of the proxy, the message and the
  places of the cache thread. The files have at most \<open>L\<close> bytes.
\<close>

definition use_weight :: "nat \<Rightarrow> ppc \<Rightarrow> nat" where
  "use_weight L pc = proxy_weight L pc + (if pc = PSend then cache_weight L CIdle + 1 else 0)"

definition request_weight :: "nat \<Rightarrow> nat" where
  "request_weight L = use_weight L PSend + 2"

definition proxy_thread_weight :: "nat \<Rightarrow> proxy_thread \<Rightarrow> nat" where
  "proxy_thread_weight L p = length (px_todo p) * request_weight L +
     (case px_pc p of QIdle \<Rightarrow> 0 | QUse sid path pc calls \<Rightarrow> Suc (use_weight L pc))"

fun cache_thread_weight :: "nat \<Rightarrow> (nat \<times> cpc) option \<Rightarrow> nat" where
  "cache_thread_weight L None = 0"
| "cache_thread_weight L (Some (sid, c)) = Suc (cache_weight L c)"

definition sys_weight :: "nat \<Rightarrow> cache_sys \<Rightarrow> nat" where
  "sys_weight L g = sum_list (map (proxy_thread_weight L) (cy_proxies g)) +
     length (cy_mq g) * (cache_weight L CIdle + 1) + sum_list (map (cache_thread_weight L) (cy_caches g))"

lemma sum_list_update_nat:
  "k < length xs \<Longrightarrow> sum_list (map f (xs[k := y])) + f (xs ! k) = sum_list (map f xs) + (f y :: nat)"
  by (induction xs arbitrary: k) (auto split: nat.splits)

section \<open>The composition\<close>

text \<open>
  What the composition relies on: a relation between a path and a state of the exchange over one
  segment that both sides keep, in which the exchange cannot stop before the proxy is done, the
  segment is then as new, and each step lowers a weight.
\<close>

locale exchange =
  fixes env :: cache_env
    and R :: "string \<Rightarrow> xfer \<Rightarrow> bool"
    and ok :: "string \<Rightarrow> bool"
    and good :: "string \<Rightarrow> reply list \<Rightarrow> int \<Rightarrow> bool"
    and L :: nat
  assumes R_start: "ok path \<Longrightarrow> R path xfer_start"
    and R_proxy: "R path x \<Longrightarrow> handle_with_cache env path x = Some x' \<Longrightarrow> R path x'"
    and R_cache: "R path x \<Longrightarrow> cache_worker env x = Some x' \<Longrightarrow> R path x'"
    and R_mq: "R path x \<Longrightarrow> x_mq x = (if x_cache x = CIdle \<and> x_proxy x \<noteq> PSend then [path] else [])"
    and R_send: "R path x \<Longrightarrow> x_proxy x = PSend \<Longrightarrow> x_cache x = CIdle"
    and R_done: "R path x \<Longrightarrow> x_proxy x = PDone r \<Longrightarrow>
        x_cache x \<noteq> CIdle \<and> quiet env (x_cache x) \<and> xfer_seg x = segmem_new \<and> good path (x_calls x) r"
    and R_stuck: "R path x \<Longrightarrow> xfer_stuck env path x \<Longrightarrow> \<exists>r. x_proxy x = PDone r"
    and R_proxy_weight: "R path x \<Longrightarrow> handle_with_cache env path x = Some x' \<Longrightarrow>
        proxy_weight L (x_proxy x') < proxy_weight L (x_proxy x)"
    and R_cache_weight: "R path x \<Longrightarrow> cache_worker env x = Some x' \<Longrightarrow>
        cache_weight L (x_cache x') < cache_weight L (x_cache x)"
begin

definition proxy_ok :: "cache_sys \<Rightarrow> proxy_thread \<Rightarrow> bool" where
  "proxy_ok g p \<longleftrightarrow>
     (\<forall>sid path pc calls. px_pc p = QUse sid path pc calls \<longrightarrow> R path (request_view env sid pc calls g)) \<and>
     (\<forall>(path, calls, r)\<in>set (px_done p). good path calls r) \<and> (\<forall>path\<in>set (px_todo p). ok path)"

definition sys_inv :: "nat \<Rightarrow> string list list \<Rightarrow> cache_sys \<Rightarrow> bool" where
  "sys_inv n reqs g \<longleftrightarrow>
     mset (cy_pool g) + mset (in_use g) = mset [0..<n] \<and>
     (\<forall>sid. single env sid g) \<and>
     (\<forall>sid. sid \<notin> set (in_use g) \<longrightarrow> untouched env sid g) \<and>
     (\<forall>sid\<in>set (cy_pool g). cy_segs g sid = segmem_new) \<and>
     (\<forall>p\<in>set (cy_proxies g). proxy_ok g p) \<and>
     map requests (cy_proxies g) = reqs"

lemma sys_inv_ids:
  assumes "sys_inv n reqs g"
  shows "distinct (in_use g)" "distinct (cy_pool g)" "set (cy_pool g) \<inter> set (in_use g) = {}"
proof -
  have "mset (cy_pool g @ in_use g) = mset [0..<n]" using assms by (simp add: sys_inv_def)
  then have "distinct (cy_pool g @ in_use g)" by (rule mset_eq_imp_distinct_iff [THEN iffD2]) simp
  then show "distinct (in_use g)" "distinct (cy_pool g)" "set (cy_pool g) \<inter> set (in_use g) = {}" by simp_all
qed

lemma in_useI: "p \<in> set (cy_proxies g) \<Longrightarrow> sid \<in> set (uses (px_pc p)) \<Longrightarrow> sid \<in> set (in_use g)"
  by (auto simp: in_use_def)

lemma proxy_ok_same:
  "proxy_ok g p \<Longrightarrow> \<forall>sid\<in>set (uses (px_pc p)). same_at env g g' sid \<Longrightarrow> proxy_ok g' p"
  by (auto simp: proxy_ok_def request_view_same)

text \<open>A step of proxy thread \<open>i\<close> touches one segment only.\<close>

lemma sys_inv_frame:
  assumes inv: "sys_inv n reqs g" and i: "i < length (cy_proxies g)" and p: "p = cy_proxies g ! i"
    and g': "cy_proxies g' = (cy_proxies g)[i := p']"
    and pool: "mset (cy_pool g') + mset (uses (px_pc p')) = mset (cy_pool g) + mset (uses (px_pc p))"
    and ids: "set (uses (px_pc p)) \<union> set (uses (px_pc p')) = {sid}"
    and same: "\<And>j. j \<noteq> sid \<Longrightarrow> same_at env g g' j"
    and len: "single env sid g'"
    and free: "uses (px_pc p') = [] \<Longrightarrow> untouched env sid g' \<and> cy_segs g' sid = segmem_new"
    and ok: "proxy_ok g' p'" and rq: "requests p' = requests p"
  shows "sys_inv n reqs g'"
proof -
  let ?f = "\<lambda>p. uses (px_pc p)"
  define A where "A = concat (map ?f (take i (cy_proxies g)))"
  define B where "B = concat (map ?f (drop (Suc i) (cy_proxies g)))"
  have ab: "in_use g = A @ ?f p @ B" "in_use g' = A @ ?f p' @ B"
    unfolding in_use_def g' p A_def B_def by (rule concat_map_split [OF i] concat_map_update [OF i])+
  have ids': "mset (cy_pool g') + mset (in_use g') = mset [0..<n]"
  proof -
    have "mset (cy_pool g) + mset (in_use g) = mset [0..<n]" using inv by (simp add: sys_inv_def)
    moreover have "mset (cy_pool g') + mset (in_use g') = mset (cy_pool g) + mset (in_use g)"
      using arg_cong [OF pool, of "\<lambda>m. m + mset (A @ B)"] unfolding ab mset_append by (simp only: ac_simps)
    ultimately show ?thesis by simp
  qed
  then have "mset (cy_pool g' @ in_use g') = mset [0..<n]" by simp
  then have dist: "distinct (cy_pool g' @ in_use g')" by (rule mset_eq_imp_distinct_iff [THEN iffD2]) simp
  have dist0: "distinct (in_use g)" by (rule sys_inv_ids(1) [OF inv])
  have AB: "sid \<notin> set A \<union> set B"
  proof -
    have "sid \<in> set (?f p) \<or> sid \<in> set (?f p')" using ids by blast
    moreover have "distinct (A @ ?f p @ B)" using dist0 unfolding ab .
    moreover have "distinct (A @ ?f p' @ B)" using dist unfolding ab distinct_append by (elim conjE) (intro conjI)
    ultimately show ?thesis by (metis IntI UnE distinct_append empty_iff set_append UnI1 UnI2)
  qed
  have used: "j \<in> set (in_use g) \<longleftrightarrow> j \<in> set (in_use g')" if "j \<noteq> sid" for j
    using that ids unfolding ab by (simp only: set_append) blast
  have pool': "j \<in> set (cy_pool g')" "j \<noteq> sid \<Longrightarrow> j \<in> set (cy_pool g)" if "j \<in> set (cy_pool g')" for j
  proof -
    assume "j \<noteq> sid"
    moreover have "j \<in># mset (cy_pool g) + mset (?f p)"
      unfolding pool [symmetric] using that by simp
    ultimately show "j \<in> set (cy_pool g)" using ids by auto
  qed (rule that)
  have others: "proxy_ok g' q" if q: "q \<in> set (cy_proxies g')" "q \<noteq> p'" for q
  proof -
    obtain j where "j < length (cy_proxies g')" "cy_proxies g' ! j = q" using q(1) unfolding in_set_conv_nth by blast
    with q(2) have j: "j < length (cy_proxies g)" "q = cy_proxies g ! j" "j \<noteq> i"
      unfolding g' by (auto simp: nth_list_update [OF i] split: if_splits)
    have d: "distinct (concat (map ?f (cy_proxies g)))" using dist0 unfolding in_use_def .
    have d': "distinct (concat (map ?f (cy_proxies g')))" using dist unfolding in_use_def distinct_append by blast
    have n': "cy_proxies g' ! j = q" "cy_proxies g' ! i = p'" "length (cy_proxies g') = length (cy_proxies g)"
      unfolding g' using i j by simp_all
    have "sid \<notin> set (?f q)"
    proof
      assume s: "sid \<in> set (?f q)"
      consider "sid \<in> set (?f p)" | "sid \<in> set (?f p')" using ids by blast
      then have "j = i"
      proof cases
        case 1
        show ?thesis by (rule concat_map_unique [OF d j(1) i]) (use s 1 j(2) p in blast)+
      next
        case 2
        show ?thesis by (rule concat_map_unique [OF d']) (use s 2 i j(1) n' in \<open>simp_all only:\<close>)
      qed
      with j(3) show False ..
    qed
    then have "\<forall>j\<in>set (?f q). same_at env g g' j" by (intro ballI same) auto
    moreover have "q \<in> set (cy_proxies g)" using j(1,2) by simp
    then have "proxy_ok g q" using inv unfolding sys_inv_def by blast
    ultimately show ?thesis by (rule proxy_ok_same [rotated])
  qed
  show ?thesis
    unfolding sys_inv_def
  proof (intro conjI allI impI ballI)
    show "mset (cy_pool g') + mset (in_use g') = mset [0..<n]" by (rule ids')
    show "single env j g'" for j
      using len same [of j] inv single_same unfolding sys_inv_def by (cases "j = sid") blast+
    show "untouched env j g'" if "j \<notin> set (in_use g')" for j
    proof (cases "j = sid")
      case True
      with that ids have "sid \<notin> set (?f p')" unfolding ab by simp
      then have "?f p' = []" using ids by (cases "px_pc p'") auto
      with free True show ?thesis by simp
    next
      case False
      with that used same [OF False] inv show ?thesis by (auto simp: sys_inv_def same_at_def untouched_def)
    qed
    show "cy_segs g' j = segmem_new" if "j \<in> set (cy_pool g')" for j
    proof (cases "j = sid")
      case True
      with that dist have "sid \<notin> set (in_use g')" by auto
      then have "sid \<notin> set (?f p')" unfolding ab by simp
      then have "uses (px_pc p') = []" using ids by (cases "px_pc p'") auto
      with free True show ?thesis by simp
    next
      case False
      with pool'(2) [OF that False] same [OF False] inv show ?thesis by (auto simp: sys_inv_def same_at_def)
    qed
    show "proxy_ok g' q" if "q \<in> set (cy_proxies g')" for q
      using others [OF that] ok by blast
    show "map requests (cy_proxies g') = reqs"
    proof -
      have "map requests (cy_proxies g') = map requests (cy_proxies g)"
        unfolding g' map_update rq p by (metis i list_update_id nth_map)
      with inv show ?thesis by (simp add: sys_inv_def)
    qed
  qed
qed

text \<open>A step of a cache thread touches the segment of one request.\<close>

lemma sys_inv_frame_cache:
  assumes inv: "sys_inv n reqs g" and g': "cy_proxies g' = cy_proxies g" "cy_pool g' = cy_pool g"
    and same: "\<And>j. j \<noteq> sid \<Longrightarrow> same_at env g g' j"
    and used: "sid \<in> set (in_use g)"
    and len: "single env sid g'"
    and ok: "\<And>p path pc calls. p \<in> set (cy_proxies g) \<Longrightarrow> px_pc p = QUse sid path pc calls \<Longrightarrow>
      R path (request_view env sid pc calls g')"
  shows "sys_inv n reqs g'"
  unfolding sys_inv_def
proof (intro conjI allI impI ballI)
  have u: "in_use g' = in_use g" by (simp add: in_use_def g')
  note i = inv [unfolded sys_inv_def]
  show "mset (cy_pool g') + mset (in_use g') = mset [0..<n]" using i unfolding u g' by blast
  show "map requests (cy_proxies g') = reqs" using i unfolding g' by blast
  show "single env j g'" for j
    using len same [of j] i single_same by (cases "j = sid") blast+
  show "untouched env j g'" if "j \<notin> set (in_use g')" for j
    using that used same [of j] i unfolding u same_at_def untouched_def by (cases "j = sid") auto
  show "cy_segs g' j = segmem_new" if "j \<in> set (cy_pool g')" for j
  proof -
    have "j \<noteq> sid" using that used sys_inv_ids(3) [OF inv] unfolding g' by blast
    with same [of j] i that show ?thesis unfolding g' same_at_def by auto
  qed
  show "proxy_ok g' p" if "p \<in> set (cy_proxies g')" for p
  proof -
    have p: "proxy_ok g p" "p \<in> set (cy_proxies g)" using i that unfolding g' by blast+
    have "R path (request_view env j pc calls g')" if "px_pc p = QUse j path pc calls" for j path pc calls
    proof (cases "j = sid")
      case True
      with ok p(2) that show ?thesis by blast
    next
      case False
      with p(1) that show ?thesis by (simp add: proxy_ok_def request_view_same [OF same])
    qed
    with p(1) show ?thesis unfolding proxy_ok_def by blast
  qed
qed

lemma sys_inv_request:
  assumes "sys_inv n reqs g" "p \<in> set (cy_proxies g)" "px_pc p = QUse sid path pc calls"
  shows "R path (request_view env sid pc calls g)" "sid \<in> set (in_use g)" "sid \<notin> set (cy_pool g)"
proof -
  show "R path (request_view env sid pc calls g)"
    using assms unfolding sys_inv_def proxy_ok_def by blast
  show "sid \<in> set (in_use g)" by (rule in_useI [OF assms(2)]) (simp add: assms(3))
  with sys_inv_ids(3) [OF assms(1)] show "sid \<notin> set (cy_pool g)" by blast
qed

lemma request_view_sel:
  "x_proxy (request_view env sid pc calls g) = pc" "x_calls (request_view env sid pc calls g) = calls"
  "x_mq (request_view env sid pc calls g) = msgs sid g"
  "x_cache (request_view env sid pc calls g) = cache_side env sid pc g"
  "xfer_seg (request_view env sid pc calls g) = cy_segs g sid"
  by (simp_all add: request_view_def)

text \<open>The places of the two sides of a request, with what is under way between them.\<close>

lemma request_busy:
  assumes "sys_inv n reqs g" "c \<in> set (busy env sid g)"
  shows "busy env sid g = [c]" "msgs sid g = []" "cache_side env sid pc g = c"
proof -
  have "length (msgs sid g) + length (busy env sid g) \<le> 1" using assms(1) by (simp add: sys_inv_def single_def)
  with assms(2) show "busy env sid g = [c]" "msgs sid g = []"
    by (cases "busy env sid g"; cases "msgs sid g"; auto)+
  then show "cache_side env sid pc g = c" by (simp add: cache_side_def)
qed

lemma request_view_untouched:
  assumes "untouched env sid g" "cy_segs g sid = segmem_new"
  shows "request_view env sid PSend [] g = xfer_start"
  using assms by (simp add: request_view_def cache_side_def untouched_def seg_xfer_def segmem_new_def xfer_start_def)

lemma request_done:
  assumes "sys_inv n reqs g" "p \<in> set (cy_proxies g)" "px_pc p = QUse sid path (PDone r) calls"
  shows "untouched env sid g" "cy_segs g sid = segmem_new" "good path calls r"
proof -
  note d = R_done [OF sys_inv_request(1) [OF assms], unfolded request_view_sel, OF refl]
  then show "cy_segs g sid = segmem_new" "good path calls r" by blast+
  have "busy env sid g = []"
  proof (rule ccontr)
    assume "busy env sid g \<noteq> []"
    then obtain c where c: "c \<in> set (busy env sid g)" by (cases "busy env sid g") auto
    from d request_busy(3) [OF assms(1) c] busy_working(2) [OF c] show False by simp
  qed
  with d show "untouched env sid g" by (simp add: untouched_def cache_side_def split: if_splits)
qed

text \<open>The step of the proxy in the exchange.\<close>

lemma request_move:
  assumes rv: "R path (request_view env sid pc calls g)" and sg: "single env sid g"
    and x: "handle_with_cache env path (seg_xfer (cy_segs g sid) [] pc CIdle calls) = Some x"
    and g': "cy_segs g' sid = xfer_seg x" "msgs sid g' = msgs sid g @ x_mq x" "busy env sid g' = busy env sid g"
  shows "R path (request_view env sid (x_proxy x) (x_calls x) g') \<and> single env sid g'"
proof (cases "pc = PSend")
  case True
  have c: "cache_side env sid PSend g = CIdle" "msgs sid g = []"
    using R_send [OF rv] R_mq [OF rv] True by (simp_all add: request_view_sel)
  have b: "busy env sid g = []"
    using c(1) sg by (cases "busy env sid g") (auto simp: cache_side_def single_def)
  have rx: "R path x" using R_proxy [OF rv] x True c by (simp add: request_view_def)
  have "x_cache x = CIdle" "x_proxy x \<noteq> PSend"
    using x True by (auto simp: handle_with_cache_def split: if_splits)
  with R_mq [OF rx] have q: "x_mq x = [path]" "x_cache x = CIdle" by simp_all
  have "request_view env sid (x_proxy x) (x_calls x) g' =
      seg_xfer (xfer_seg x) (x_mq x) (x_proxy x) (x_cache x) (x_calls x)"
    using q b c g' by (simp add: request_view_def cache_side_def)
  then have "request_view env sid (x_proxy x) (x_calls x) g' = x" unfolding seg_xfer_collapse .
  with rx q b c g' show ?thesis by (simp add: single_def)
next
  case False
  note h = handle_frame [OF x False]
  have "R path (x\<lparr>x_mq := msgs sid g, x_cache := cache_side env sid pc g\<rparr>)"
    by (rule R_proxy [OF rv]) (simp add: request_view_def h(3))
  moreover have "cache_side env sid (x_proxy x) g' = cache_side env sid pc g"
    using False h g' by (simp add: cache_side_def)
  then have "request_view env sid (x_proxy x) (x_calls x) g' = x\<lparr>x_mq := msgs sid g, x_cache := cache_side env sid pc g\<rparr>"
    using g' h(1) by (simp add: request_view_def seg_xfer_def xfer_seg_def)
  ultimately show ?thesis using sg g' h(1) by (simp add: single_def)
qed

lemma sys_inv_proxy_move:
  assumes inv: "sys_inv n reqs g" and i: "i < length (cy_proxies g)" and p: "p = cy_proxies g ! i"
    and pc: "px_pc p = QUse sid path pc calls"
    and x: "handle_with_cache env path (seg_xfer (cy_segs g sid) [] pc CIdle calls) = Some x"
    and g': "g' = g\<lparr>cy_segs := (cy_segs g)(sid := xfer_seg x), cy_mq := cy_mq g @ map (Pair sid) (x_mq x),
      cy_proxies := (cy_proxies g)[i := p\<lparr>px_pc := QUse sid path (x_proxy x) (x_calls x)\<rparr>]\<rparr>"
  shows "sys_inv n reqs g'"
proof -
  have pin: "p \<in> set (cy_proxies g)" using i by (simp add: p)
  have pok: "proxy_ok g p" and sg: "single env sid g" using inv pin by (simp_all add: sys_inv_def)
  have same: "same_at env g g' j" if "j \<noteq> sid" for j
    using that by (simp add: g' same_at_def msgs_def busy_def filter_map o_def)
  have own: "cy_segs g' sid = xfer_seg x" "msgs sid g' = msgs sid g @ x_mq x" "busy env sid g' = busy env sid g"
    by (simp_all add: g' msgs_def busy_def filter_map o_def)
  note m = request_move [OF sys_inv_request(1) [OF inv pin pc] sg x own]
  show ?thesis
    by (rule sys_inv_frame [OF inv i p, where sid = sid])
      (use same m pok pc in \<open>auto simp: g' proxy_ok_def requests_def\<close>)
qed

lemma sys_inv_proxy_step:
  assumes inv: "sys_inv n reqs g" and step: "proxy_step env cap i g = Some g'"
  shows "sys_inv n reqs g'"
proof -
  define p where "p = cy_proxies g ! i"
  have i: "i < length (cy_proxies g)" using step by (simp add: proxy_step_def split: if_splits)
  then have pin: "p \<in> set (cy_proxies g)" by (simp add: p_def)
  have pok: "proxy_ok g p" using inv pin by (simp add: sys_inv_def)
  have single: "single env j g" for j using inv by (simp add: sys_inv_def)
  note st = step [unfolded proxy_step_def Let_def p_def [symmetric]]
  show ?thesis
  proof (cases "px_pc p")
    case QIdle
    then obtain path rest sid sids where pr: "px_todo p = path # rest" "cy_pool g = sid # sids"
      and g': "g' = g\<lparr>cy_pool := sids, cy_proxies := (cy_proxies g)[i := p\<lparr>px_todo := rest, px_pc := QUse sid path PSend []\<rparr>]\<rparr>"
      using st i by (auto split: list.splits)
    have same: "same_at env g g' j" for j by (simp add: g' same_at_def msgs_def busy_def)
    have "sid \<notin> set (in_use g)" using sys_inv_ids(3) [OF inv] pr by auto
    with inv pr have "untouched env sid g" "cy_segs g sid = segmem_new" by (auto simp: sys_inv_def)
    from request_view_untouched [OF this] have v: "request_view env sid PSend [] g' = xfer_start"
      by (simp add: request_view_same [OF same])
    have sg: "single env sid g'" by (rule single_same [OF same single])
    show ?thesis
      by (rule sys_inv_frame [OF inv i p_def, where sid = sid])
        (use same sg pr pok R_start v QIdle in \<open>auto simp: g' proxy_ok_def requests_def\<close>)
  next
    case (QUse sid path pc calls)
    note rq = sys_inv_request [OF inv pin QUse]
    show ?thesis
    proof (cases "\<exists>r. pc = PDone r")
      case True
      then obtain r where pc: "pc = PDone r" by blast
      then have g': "g' = g\<lparr>cy_pool := cy_pool g @ [sid],
          cy_proxies := (cy_proxies g)[i := p\<lparr>px_pc := QIdle, px_done := px_done p @ [(path, calls, r)]\<rparr>]\<rparr>"
        using st i QUse by simp
      have same: "same_at env g g' j" for j by (simp add: g' same_at_def msgs_def busy_def)
      note d = request_done [OF inv pin QUse [unfolded pc]]
      have "untouched env sid g'" "cy_segs g' sid = segmem_new"
        using d(1,2) same [of sid] by (simp_all add: untouched_def same_at_def)
      moreover have "single env sid g'" by (rule single_same [OF same single])
      ultimately show ?thesis
        by (intro sys_inv_frame [OF inv i p_def, where sid = sid])
          (use same pok d(3) QUse in \<open>auto simp: g' proxy_ok_def requests_def\<close>)
    next
      case False
      then obtain x where x: "handle_with_cache env path (seg_xfer (cy_segs g sid) [] pc CIdle calls) = Some x"
        and g': "g' = g\<lparr>cy_segs := (cy_segs g)(sid := xfer_seg x), cy_mq := cy_mq g @ map (Pair sid) (x_mq x),
          cy_proxies := (cy_proxies g)[i := p\<lparr>px_pc := QUse sid path (x_proxy x) (x_calls x)\<rparr>]\<rparr>"
        using step unfolding proxy_step_use [OF i QUse [unfolded p_def] False [simplified]]
        by (auto simp: p_def split: if_splits option.splits)
      show ?thesis
        by (rule sys_inv_proxy_move [OF inv i p_def QUse x g'])
    qed
  qed
qed

lemma sys_inv_same:
  assumes "sys_inv n reqs g" "cy_proxies g' = cy_proxies g" "cy_pool g' = cy_pool g" "\<And>j. same_at env g g' j"
  shows "sys_inv n reqs g'"
proof -
  have u: "in_use g' = in_use g" by (simp add: in_use_def assms(2))
  note i = assms(1) [unfolded sys_inv_def] and same = assms(4) [unfolded same_at_def]
  have "untouched env j g'" if "j \<notin> set (in_use g)" for j
    using i that same [of j] by (simp add: untouched_def)
  moreover have "proxy_ok g' p" if "p \<in> set (cy_proxies g)" for p
    by (rule proxy_ok_same) (use i that assms(4) in blast)+
  moreover have "cy_segs g' j = segmem_new" if "j \<in> set (cy_pool g)" for j using i that same [of j] by simp
  moreover have "single env j g'" for j using i single_same [OF assms(4)] by blast
  ultimately show ?thesis using i unfolding sys_inv_def u assms(2,3) by blast
qed

lemma R_quiet: "R path x \<Longrightarrow> quiet env (x_cache x) \<Longrightarrow> R path (x\<lparr>x_cache := CDone\<rparr>)"
proof -
  assume r: "R path x" and q: "quiet env (x_cache x)"
  have x: "seg_xfer (xfer_seg x) (x_mq x) (x_proxy x) CDone (x_calls x) = x\<lparr>x_cache := CDone\<rparr>"
    by (simp add: seg_xfer_def xfer_seg_def)
  show ?thesis
  proof (cases "x_cache x = CDone")
    case True
    with x r show ?thesis by (metis seg_xfer_collapse)
  next
    case False
    with cache_worker_quiet [OF q, of "xfer_seg x" "x_mq x" "x_proxy x" "x_calls x"] R_cache [OF r] show ?thesis
      unfolding seg_xfer_collapse x by blast
  qed
qed

lemma sys_inv_receive:
  assumes inv: "sys_inv n reqs g" and k: "k < length (cy_caches g)" "cy_caches g ! k = None"
    and mq: "cy_mq g = (sid, path) # m"
    and g': "g' = g\<lparr>cy_mq := m, cy_caches := (cy_caches g)[k := Some (sid, CGet path)]\<rparr>"
  shows "sys_inv n reqs g'"
proof -
  have "single env sid g" using inv by (simp add: sys_inv_def)
  then have own: "msgs sid g = [path]" "msgs sid g' = []" "busy env sid g = []"
    by (auto simp: single_def msgs_def mq g')
  have b: "busy env sid g' = [CGet path]"
    using busy_own [OF k(1), of g' "Some (sid, CGet path)" env sid] k(2) own(3) by (simp add: g')
  have used: "sid \<in> set (in_use g)" using inv own(1) by (auto simp: sys_inv_def untouched_def)
  have same: "same_at env g g' j" if "j \<noteq> sid" for j
    using that busy_kept [OF k(1), of g' "Some (sid, CGet path)" env j] k(2)
    by (simp add: g' same_at_def msgs_def mq)
  show ?thesis
  proof (rule sys_inv_frame_cache [OF inv _ _ same used])
    fix p path' pc calls
    assume p: "p \<in> set (cy_proxies g)" "px_pc p = QUse sid path' pc calls"
    have "cache_worker env (request_view env sid pc calls g) = Some (request_view env sid pc calls g')"
      using own b by (simp add: request_view_def cache_side_def cache_worker_receive) (simp add: g')
    from R_cache [OF sys_inv_request(1) [OF inv p] this] show "R path' (request_view env sid pc calls g')" .
  qed (use own b in \<open>simp_all add: g' single_def\<close>)
qed

lemma sys_inv_work:
  assumes inv: "sys_inv n reqs g" and k: "k < length (cy_caches g)" "cy_caches g ! k = Some (sid, c)"
    and nq: "\<not> quiet env c"
    and x: "cache_worker env (seg_xfer (cy_segs g sid) [] PSend c []) = Some x"
    and g': "g' = g\<lparr>cy_segs := (cy_segs g)(sid := xfer_seg x), cy_caches := (cy_caches g)[k := Some (sid, x_cache x)]\<rparr>"
  shows "sys_inv n reqs g'"
proof -
  have "c \<in> set (working env sid (cy_caches g ! k))" using nq by (simp add: k(2))
  then have c: "c \<in> set (busy env sid g)" unfolding busy_def using k(1) by auto
  note b = request_busy [OF inv c]
  have used: "sid \<in> set (in_use g)" using inv b(1) by (auto simp: sys_inv_def untouched_def)
  have ci: "c \<noteq> CIdle" using inv c by (auto simp: sys_inv_def single_def)
  have b': "busy env sid g' = working env sid (Some (sid, x_cache x))"
    by (rule busy_own [OF k(1)]) (use b(1) nq in \<open>simp_all add: g' k(2)\<close>)
  have m': "msgs sid g' = []" using b(2) by (simp add: g' msgs_def)
  have same: "same_at env g g' j" if "j \<noteq> sid" for j
    using that busy_kept [OF k(1), of g' "Some (sid, x_cache x)" env j] k(2)
    by (simp add: g' same_at_def msgs_def)
  show ?thesis
  proof (rule sys_inv_frame_cache [OF inv _ _ same used])
    fix p path pc calls
    assume p: "p \<in> set (cy_proxies g)" "px_pc p = QUse sid path pc calls"
    let ?y = "x\<lparr>x_mq := [], x_proxy := pc, x_calls := calls\<rparr>"
    note rv = sys_inv_request(1) [OF inv p]
    have v: "request_view env sid pc calls g = seg_xfer (cy_segs g sid) [] pc c calls"
      by (simp add: request_view_def b)
    from R_cache [OF rv, unfolded v, OF cache_worker_frame(2) [OF x ci]] have ry: "R path ?y" .
    have pc: "pc \<noteq> PSend" using R_send [OF rv] ci unfolding v by auto
    show "R path (request_view env sid pc calls g')"
    proof (cases "quiet env (x_cache x)")
      case True
      then have "request_view env sid pc calls g' = ?y\<lparr>x_cache := CDone\<rparr>"
        using b' m' pc by (simp add: request_view_def cache_side_def g' seg_xfer_def xfer_seg_def)
      with R_quiet [OF ry] True show ?thesis by simp
    next
      case False
      then have "request_view env sid pc calls g' = ?y"
        using b' m' by (simp add: request_view_def cache_side_def g' seg_xfer_def xfer_seg_def)
      with ry show ?thesis by simp
    qed
  qed (use m' b' cache_worker_frame(1) [OF x ci] in \<open>auto simp: g' single_def\<close>)
qed

lemma sys_inv_cache_step:
  assumes inv: "sys_inv n reqs g" and step: "cache_step env k g = Some g'"
  shows "sys_inv n reqs g'"
proof -
  have k: "k < length (cy_caches g)" using step by (simp add: cache_step_def split: if_splits)
  show ?thesis
  proof (cases "cy_caches g ! k")
    case None
    with step k obtain sid path m where mq: "cy_mq g = (sid, path) # m"
      and g': "g' = g\<lparr>cy_mq := m, cy_caches := (cy_caches g)[k := Some (sid, CGet path)]\<rparr>"
      by (auto simp: cache_step_def split: list.splits)
    show ?thesis by (rule sys_inv_receive [OF inv k None mq g'])
  next
    case (Some w)
    obtain sid c where w: "w = (sid, c)" by force
    show ?thesis
    proof (cases "quiet env c")
      case True
      have "g' = g\<lparr>cy_caches := (cy_caches g)[k := if c = CDone then None else Some (sid, CDone)]\<rparr>"
      proof (cases "c = CDone")
        case True
        with step cache_step_loop [OF k] Some w show ?thesis by simp
      next
        case False
        with step cache_step_work [OF k Some [unfolded w] False]
          cache_worker_quiet [OF True, of "cy_segs g sid" "[]" PSend "[]"] show ?thesis by simp
      qed
      note g' = this
      have "same_at env g g' j" for j
        using busy_kept [OF k, of g' _ env j] Some w True by (simp add: g' same_at_def msgs_def)
      then show ?thesis by (intro sys_inv_same [OF inv]) (simp_all add: g')
    next
      case False
      then obtain x where "cache_worker env (seg_xfer (cy_segs g sid) [] PSend c []) = Some x"
        "g' = g\<lparr>cy_segs := (cy_segs g)(sid := xfer_seg x), cy_caches := (cy_caches g)[k := Some (sid, x_cache x)]\<rparr>"
        using step cache_step_work [OF k Some [unfolded w]] by (cases "c = CDone") (auto split: option.splits)
      then show ?thesis by (rule sys_inv_work [OF inv k Some [unfolded w] False])
    qed
  qed
qed

lemma sys_inv_start:
  assumes "\<forall>ps\<in>set reqs. \<forall>path\<in>set ps. ok path"
  shows "sys_inv n reqs (sys_start n k reqs)"
proof -
  let ?g = "sys_start n k reqs"
  have e: "untouched env j ?g" for j by (simp add: untouched_def msgs_def busy_def sys_start_def)
  then have "single env j ?g" for j by (simp add: untouched_def single_def)
  moreover have "in_use ?g = []" by (simp add: in_use_def sys_start_def)
  moreover have "map requests (cy_proxies ?g) = reqs" by (simp add: sys_start_def requests_def o_def)
  moreover have "proxy_ok ?g p" if "p \<in> set (cy_proxies ?g)" for p
    using that assms by (auto simp: sys_start_def proxy_ok_def)
  ultimately show ?thesis using e by (simp add: sys_inv_def) (simp add: sys_start_def)
qed

lemma sys_inv_step: "sys_inv n reqs g \<Longrightarrow> sys_step env cap a g = Some g' \<Longrightarrow> sys_inv n reqs g'"
  by (cases a) (simp_all only: sys_step.simps; erule (1) sys_inv_proxy_step sys_inv_cache_step)+

lemma sys_inv_exec: "sys_exec env cap as g = Some g' \<Longrightarrow> sys_inv n reqs g \<Longrightarrow> sys_inv n reqs g'"
  using sys_inv_step by (induction as arbitrary: g) (auto split: option.splits)

section \<open>No deadlock\<close>

lemma proxy_waits:
  assumes "proxy_step env cap i g = None" "i < length (cy_proxies g)" "px_pc (cy_proxies g ! i) = QUse sid path pc calls"
  shows "pc \<noteq> PDone r" "pc = PSend \<Longrightarrow> cap \<le> length (cy_mq g)"
    "pc \<noteq> PSend \<Longrightarrow> handle_with_cache env path (seg_xfer (cy_segs g sid) [] pc CIdle calls) = None"
proof -
  have nd: "pc \<noteq> PDone r" for r using proxy_step_return [OF assms(2)] assms(1,3) by blast
  then show "pc \<noteq> PDone r" .
  note st = assms(1) [unfolded proxy_step_use [OF assms(2,3) allI [OF nd]]]
  show "cap \<le> length (cy_mq g)" if "pc = PSend"
  proof (rule ccontr)
    assume "\<not> cap \<le> length (cy_mq g)"
    then have "handle_with_cache env path (seg_xfer (cy_segs g sid) [] PSend CIdle calls) = None"
      using st that by (simp split: option.splits)
    then show False by (simp add: handle_with_cache_def split: if_splits)
  qed
  show "handle_with_cache env path (seg_xfer (cy_segs g sid) [] pc CIdle calls) = None" if "pc \<noteq> PSend"
    using st that by (simp split: option.splits)
qed

lemma request_waits:
  assumes inv: "sys_inv n reqs g" and stuck: "proxy_step env cap i g = None"
    and i: "i < length (cy_proxies g)" "px_pc (cy_proxies g ! i) = QUse sid path pc calls"
    and pc: "pc \<noteq> PSend" and c: "cache_worker env (request_view env sid pc calls g) = None"
  shows False
proof -
  have "handle_with_cache env path (request_view env sid pc calls g) = None"
    using proxy_waits(3) [OF stuck i pc] by (simp add: request_view_def handle_None [of _ _ _ "msgs sid g"])
  with c have "xfer_stuck env path (request_view env sid pc calls g)" by (simp add: xfer_stuck_def)
  from R_stuck [OF sys_inv_request(1) [OF inv nth_mem [OF i(1)] i(2)] this] proxy_waits(1) [OF stuck i]
  show False by (simp add: request_view_sel)
qed

lemma stuck_proxy: "sys_stuck env cap g \<Longrightarrow> proxy_step env cap i g = None"
  and stuck_cache: "sys_stuck env cap g \<Longrightarrow> cache_step env k g = None"
  unfolding sys_stuck_def by (metis sys_step.simps(1)) (metis sys_step.simps(2))

lemma in_useE:
  assumes "sid \<in> set (in_use g)"
  obtains i path pc calls where "i < length (cy_proxies g)" "px_pc (cy_proxies g ! i) = QUse sid path pc calls"
proof -
  obtain p where "p \<in> set (cy_proxies g)" "sid \<in> set (uses (px_pc p))"
    using assms unfolding in_use_def by auto
  then obtain i where i: "i < length (cy_proxies g)" "sid \<in> set (uses (px_pc (cy_proxies g ! i)))"
    unfolding in_set_conv_nth [of p] by blast
  from i(2) show thesis by (cases "px_pc (cy_proxies g ! i)") (use that i(1) in auto)
qed

lemma cache_idle:
  assumes inv: "sys_inv n reqs g" and stuck: "sys_stuck env cap g" and k: "k < length (cy_caches g)"
  shows "cy_caches g ! k = None"
proof (rule ccontr)
  assume "cy_caches g ! k \<noteq> None"
  then obtain sid c where w: "cy_caches g ! k = Some (sid, c)" by auto
  note st = stuck_cache [OF stuck, of k]
  have c0: "c \<noteq> CDone"
  proof
    assume "c = CDone"
    with cache_step_loop [OF k, of sid env] w st show False by simp
  qed
  have c1: "cache_worker env (seg_xfer (cy_segs g sid) [] PSend c []) = None"
    using st unfolding cache_step_work [OF k w c0] by (simp split: option.splits)
  have nq: "\<not> quiet env c"
    using cache_worker_quiet [of env c "cy_segs g sid" "[]" PSend "[]"] c0 c1 by auto
  then have "c \<in> set (working env sid (cy_caches g ! k))" by (simp add: w)
  then have c: "c \<in> set (busy env sid g)" unfolding busy_def using k by auto
  note b = request_busy [OF inv c]
  have ci: "c \<noteq> CIdle" using inv c by (auto simp: sys_inv_def single_def)
  have "sid \<in> set (in_use g)" using inv b(1) by (auto simp: sys_inv_def untouched_def)
  then obtain i path pc calls where i: "i < length (cy_proxies g)" "px_pc (cy_proxies g ! i) = QUse sid path pc calls"
    by (rule in_useE)
  have rv: "R path (request_view env sid pc calls g)" by (rule sys_inv_request(1) [OF inv nth_mem [OF i(1)] i(2)])
  have v: "request_view env sid pc calls g = seg_xfer (cy_segs g sid) [] pc c calls"
    by (simp add: request_view_def b)
  have pc: "pc \<noteq> PSend" using R_send [OF rv] ci unfolding v by auto
  have cw: "cache_worker env (request_view env sid pc calls g) = None"
    unfolding v by (rule cache_worker_None [OF ci, THEN iffD2]) (rule c1)
  show False by (rule request_waits [OF inv stuck_proxy [OF stuck] i pc cw])
qed

lemma sys_stuck_finished:
  assumes inv: "sys_inv n reqs g" and stuck: "sys_stuck env cap g"
    and pos: "0 < n" "0 < cap" "0 < length (cy_caches g)"
  shows "in_use g = []" "cy_mq g = []" "\<forall>p\<in>set (cy_proxies g). px_pc p = QIdle \<and> px_todo p = []"
proof -
  note idle = cache_idle [OF inv stuck]
  show mq: "cy_mq g = []" using stuck_cache [OF stuck, of 0] idle [OF pos(3)] pos(3) by (auto simp: cache_step_def split: list.splits)
  have "working env j w = []" if "w \<in> set (cy_caches g)" for j w
    using idle that by (auto simp: in_set_conv_nth)
  then have un: "untouched env j g" for j using mq by (auto simp: untouched_def msgs_def busy_def)
  note ps = stuck_proxy [OF stuck]
  have pi: "px_pc (cy_proxies g ! i) = QIdle" if i: "i < length (cy_proxies g)" for i
  proof (rule ccontr)
    assume "px_pc (cy_proxies g ! i) \<noteq> QIdle"
    then obtain sid path pc calls where q: "px_pc (cy_proxies g ! i) = QUse sid path pc calls"
      by (cases "px_pc (cy_proxies g ! i)") auto
    have pc: "pc \<noteq> PSend" using proxy_waits(2) [OF ps i q] mq pos(2) by auto
    then have "cache_worker env (request_view env sid pc calls g) = None"
      using un [of sid] by (simp add: request_view_def cache_side_def untouched_def cache_worker_def)
    from request_waits [OF inv ps i q pc this] show False .
  qed
  then have pa: "px_pc p = QIdle" if "p \<in> set (cy_proxies g)" for p using that by (auto simp: in_set_conv_nth)
  then show u: "in_use g = []" by (auto simp: in_use_def)
  then have "mset (cy_pool g) = mset [0..<n]" using inv by (simp add: sys_inv_def)
  from arg_cong [OF this, of size] have "length (cy_pool g) = n" by simp
  with pos(1) obtain a as where pool: "cy_pool g = a # as" by (cases "cy_pool g") auto
  have "px_todo (cy_proxies g ! i) = []" if i: "i < length (cy_proxies g)" for i
    using ps [of i] pi [OF i] i pool by (auto simp: proxy_step_def Let_def split: list.splits)
  with pa show "\<forall>p\<in>set (cy_proxies g). px_pc p = QIdle \<and> px_todo p = []" by (metis in_set_conv_nth)
qed

section \<open>Every execution ends\<close>

lemma request_move_weight:
  assumes rv: "R path (request_view env sid pc calls g)"
    and x: "handle_with_cache env path (seg_xfer (cy_segs g sid) [] pc CIdle calls) = Some x"
  shows "use_weight L (x_proxy x) + length (x_mq x) * (cache_weight L CIdle + 1) < use_weight L pc"
proof (cases "pc = PSend")
  case True
  have c: "cache_side env sid PSend g = CIdle" "msgs sid g = []"
    using R_send [OF rv] R_mq [OF rv] True by (simp_all add: request_view_sel)
  have "proxy_weight L (x_proxy x) < proxy_weight L PSend"
    using R_proxy_weight [OF rv] x True c by (simp add: request_view_def)
  moreover have ns: "x_proxy x \<noteq> PSend" and "length (x_mq x) \<le> 1"
    using x True by (auto simp: handle_with_cache_def split: if_splits)
  then have "length (x_mq x) * (cache_weight L CIdle + 1) \<le> cache_weight L CIdle + 1"
    by (cases "x_mq x") simp_all
  moreover have "use_weight L (x_proxy x) = proxy_weight L (x_proxy x)"
    "use_weight L pc = proxy_weight L PSend + (cache_weight L CIdle + 1)"
    using ns True by (simp_all add: use_weight_def)
  ultimately show ?thesis by linarith
next
  case False
  note h = handle_frame [OF x False]
  have "proxy_weight L (x_proxy x) < proxy_weight L pc"
    using R_proxy_weight [OF rv, of "x\<lparr>x_mq := msgs sid g, x_cache := cache_side env sid pc g\<rparr>"] h(3)
    by (simp add: request_view_def)
  with h False show ?thesis by (simp add: use_weight_def)
qed

lemma proxy_step_weight:
  assumes inv: "sys_inv n reqs g" and step: "proxy_step env cap i g = Some g'"
  shows "sys_weight L g' < sys_weight L g"
proof -
  define p where "p = cy_proxies g ! i"
  have i: "i < length (cy_proxies g)" using step by (simp add: proxy_step_def split: if_splits)
  have pin: "p \<in> set (cy_proxies g)" using i by (simp add: p_def)
  note upd = sum_list_update_nat [OF i, of "proxy_thread_weight L", folded p_def]
  note st = step [unfolded proxy_step_def Let_def p_def [symmetric]]
  show ?thesis
  proof (cases "px_pc p")
    case QIdle
    then obtain path rest sid sids where "px_todo p = path # rest"
      and "g' = g\<lparr>cy_pool := sids, cy_proxies := (cy_proxies g)[i := p\<lparr>px_todo := rest, px_pc := QUse sid path PSend []\<rparr>]\<rparr>"
      using st i by (auto split: list.splits)
    with upd [of "p\<lparr>px_todo := rest, px_pc := QUse sid path PSend []\<rparr>"] QIdle show ?thesis
      by (simp add: sys_weight_def proxy_thread_weight_def request_weight_def)
  next
    case (QUse sid path pc calls)
    show ?thesis
    proof (cases "\<exists>r. pc = PDone r")
      case True
      then obtain r where pc: "pc = PDone r" by blast
      then have "g' = g\<lparr>cy_pool := cy_pool g @ [sid],
          cy_proxies := (cy_proxies g)[i := p\<lparr>px_pc := QIdle, px_done := px_done p @ [(path, calls, r)]\<rparr>]\<rparr>"
        using st i QUse by simp
      with upd [of "p\<lparr>px_pc := QIdle, px_done := px_done p @ [(path, calls, r)]\<rparr>"] QUse show ?thesis
        by (simp add: sys_weight_def proxy_thread_weight_def)
    next
      case False
      then obtain x where x: "handle_with_cache env path (seg_xfer (cy_segs g sid) [] pc CIdle calls) = Some x"
        and g': "g' = g\<lparr>cy_segs := (cy_segs g)(sid := xfer_seg x), cy_mq := cy_mq g @ map (Pair sid) (x_mq x),
          cy_proxies := (cy_proxies g)[i := p\<lparr>px_pc := QUse sid path (x_proxy x) (x_calls x)\<rparr>]\<rparr>"
        using step unfolding proxy_step_use [OF i QUse [unfolded p_def] False [simplified]]
        by (auto simp: p_def split: if_splits option.splits)
      have w: "use_weight L (x_proxy x) + length (x_mq x) * (cache_weight L CIdle + 1) < use_weight L pc"
        by (rule request_move_weight [OF sys_inv_request(1) [OF inv pin QUse] x])
      from upd [of "p\<lparr>px_pc := QUse sid path (x_proxy x) (x_calls x)\<rparr>"] w show ?thesis
        by (simp add: sys_weight_def proxy_thread_weight_def QUse g' add_mult_distrib)
    qed
  qed
qed

lemma cache_step_weight:
  assumes inv: "sys_inv n reqs g" and step: "cache_step env k g = Some g'"
  shows "sys_weight L g' < sys_weight L g"
proof -
  have k: "k < length (cy_caches g)" using step by (simp add: cache_step_def split: if_splits)
  note upd = sum_list_update_nat [OF k, of "cache_thread_weight L"]
  show ?thesis
  proof (cases "cy_caches g ! k")
    case None
    with step k obtain sid path m where "cy_mq g = (sid, path) # m"
      and "g' = g\<lparr>cy_mq := m, cy_caches := (cy_caches g)[k := Some (sid, CGet path)]\<rparr>"
      by (auto simp: cache_step_def split: list.splits)
    with upd [of "Some (sid, CGet path)"] None show ?thesis by (simp add: sys_weight_def)
  next
    case (Some w)
    obtain sid c where w: "cy_caches g ! k = Some (sid, c)" using Some by force
    show ?thesis
    proof (cases "c = CDone")
      case True
      with step cache_step_loop [OF k] w have "g' = g\<lparr>cy_caches := (cy_caches g)[k := None]\<rparr>" by simp
      with upd [of None] w True show ?thesis by (simp add: sys_weight_def)
    next
      case False
      then obtain x where x: "cache_worker env (seg_xfer (cy_segs g sid) [] PSend c []) = Some x"
        and g': "g' = g\<lparr>cy_segs := (cy_segs g)(sid := xfer_seg x), cy_caches := (cy_caches g)[k := Some (sid, x_cache x)]\<rparr>"
        using step cache_step_work [OF k w] by (auto split: option.splits)
      have "cache_weight L (x_cache x) < cache_weight L c"
      proof (cases "quiet env c")
        case True
        with cache_worker_quiet [OF True, of "cy_segs g sid" "[]" PSend "[]"] False x have "x_cache x = CDone" by auto
        with True False show ?thesis by (cases c) simp_all
      next
        case False
        then have "c \<in> set (working env sid (cy_caches g ! k))" by (simp add: w)
        then have c: "c \<in> set (busy env sid g)" unfolding busy_def using k by auto
        note b = request_busy [OF inv c]
        have ci: "c \<noteq> CIdle" using inv c by (auto simp: sys_inv_def single_def)
        have "sid \<in> set (in_use g)" using inv b(1) by (auto simp: sys_inv_def untouched_def)
        then obtain i path pc calls where i: "i < length (cy_proxies g)" "px_pc (cy_proxies g ! i) = QUse sid path pc calls"
          by (rule in_useE)
        have v: "request_view env sid pc calls g = seg_xfer (cy_segs g sid) [] pc c calls"
          by (simp add: request_view_def b)
        from R_cache_weight [OF sys_inv_request(1) [OF inv nth_mem [OF i(1)] i(2)], unfolded v,
            OF cache_worker_frame(2) [OF x ci]]
        show ?thesis by simp
      qed
      with upd [of "Some (sid, x_cache x)"] w g' show ?thesis by (simp add: sys_weight_def)
    qed
  qed
qed

lemma sys_exec_weight:
  "sys_exec env cap as g = Some g' \<Longrightarrow> sys_inv n reqs g \<Longrightarrow> length as + sys_weight L g' \<le> sys_weight L g"
proof (induction as arbitrary: g)
  case (Cons a as)
  then obtain g1 where g1: "sys_step env cap a g = Some g1" "sys_exec env cap as g1 = Some g'"
    by (auto split: option.splits)
  have "sys_weight L g1 < sys_weight L g"
    using g1(1) proxy_step_weight [OF Cons.prems(2)] cache_step_weight [OF Cons.prems(2)] by (cases a) simp_all
  moreover have "length as + sys_weight L g' \<le> sys_weight L g1"
    by (rule Cons.IH [OF g1(2) sys_inv_step [OF Cons.prems(2) g1(1)]])
  ultimately show ?case by simp
qed simp

end


section \<open>The exchange of CacheIPC as the contract\<close>

text \<open>A request that can be served: a file of at most \<open>L\<close> bytes, or a path that the cache does not have.\<close>

definition servable :: "cache_env \<Rightarrow> nat \<Rightarrow> string \<Rightarrow> bool" where
  "servable env L path \<longleftrightarrow> length path < MSG_PATH \<and>
     (ce_get env path = -1 \<or> (\<exists>data. cached_file env path (ce_get env path) data \<and> length data \<le> L))"

text \<open>The answer to a request: the calls on the connection and the value returned.\<close>

definition answered :: "cache_env \<Rightarrow> string \<Rightarrow> reply list \<Rightarrow> int \<Rightarrow> bool" where
  "answered env path calls r \<longleftrightarrow> r = ce_header env \<and>
     (if ce_get env path = -1 then calls = [SendHeader GFS_FILE_NOT_FOUND 0]
      else (\<exists>data ds. cached_file env path (ce_get env path) data \<and> concat ds = data \<and>
              calls = SendHeader GFS_OK (int (length data)) # map SendData ds))"

definition request_rel :: "cache_env \<Rightarrow> nat \<Rightarrow> string \<Rightarrow> xfer \<Rightarrow> bool" where
  "request_rel env L path x \<longleftrightarrow>
     ce_get env path = -1 \<and> length path < MSG_PATH \<and> miss_inv path env x \<or>
     (\<exists>data. cached_file env path (ce_get env path) data \<and> length data \<le> L \<and>
        xfer_inv env path (ce_get env path) data x \<and> done_inv env x)"

lemma xfer_seg_new: "x_msg x = zero_message \<Longrightarrow> x_sem1 x = 0 \<Longrightarrow> x_sem2 x = 1 \<Longrightarrow> xfer_seg x = segmem_new"
  by (simp add: xfer_seg_def segmem_new_def)

lemma xfer_inv_done:
  assumes inv: "xfer_inv env path fd data x" and d: "done_inv env x" and cf: "cached_file env path fd data"
    and p: "x_proxy x = PDone r"
  shows "x_cache x \<noteq> CIdle \<and> quiet env (x_cache x) \<and> xfer_seg x = segmem_new \<and> r = ce_header env \<and>
    (\<exists>ds. concat ds = data \<and> x_calls x = SendHeader GFS_OK (int (length data)) # map SendData ds)"
proof -
  note sync = sync_invD [OF inv]
  have at: "cache_at env path fd data x (x_cache x)" and calls: "calls_ok data x" using inv by (simp_all add: xfer_inv_def)
  have q: "posted (length data) (x_cache x) = length data" "header_posted (x_cache x)" using sync(1-3) p by auto
  have quiet: "quiet env (x_cache x)" "x_cache x \<noteq> CIdle" "\<not> cache_holds (x_cache x)"
    using q at cf by (cases "x_cache x"; auto simp: cached_file_def file_reads_def)+
  have "x_sem1 x = 0" "x_sem2 x = 1" using sync(4,5) p q quiet(3) by (auto simp: chunk_ready_def split: if_splits)
  moreover have "x_msg x = zero_message" "r = ce_header env" using d p by (simp_all add: done_inv_def)
  moreover have "\<exists>ds. concat ds = data \<and> x_calls x = SendHeader GFS_OK (int (length data)) # map SendData ds"
    using calls p by (auto simp: calls_ok_def)
  ultimately show ?thesis using quiet xfer_seg_new by simp
qed

lemma xfer_inv_mq:
  "xfer_inv env path fd data x \<Longrightarrow> x_mq x = (if x_cache x = CIdle \<and> x_proxy x \<noteq> PSend then [path] else [])"
  unfolding xfer_inv_def by (cases "x_cache x") auto

lemma miss_inv_mq:
  "miss_inv path env x \<Longrightarrow> x_mq x = (if x_cache x = CIdle \<and> x_proxy x \<noteq> PSend then [path] else [])"
  by (cases "x_proxy x"; cases "x_cache x") (auto simp: miss_inv_def xfer_finished_def)

lemma miss_inv_done:
  "miss_inv path env x \<Longrightarrow> x_proxy x = PDone r \<Longrightarrow> x_cache x = CDone \<and> xfer_seg x = segmem_new \<and>
     r = ce_header env \<and> x_calls x = [SendHeader GFS_FILE_NOT_FOUND 0]"
  by (simp add: miss_inv_def xfer_finished_def xfer_seg_new)

lemma miss_proxy_weight:
  "miss_inv path env x \<Longrightarrow> handle_with_cache env path x = Some x' \<Longrightarrow>
     proxy_weight L (x_proxy x') < proxy_weight L (x_proxy x)"
  by (cases "x_proxy x") (auto simp: miss_inv_def handle_with_cache_def split: if_splits)

lemma miss_cache_weight:
  "miss_inv path env x \<Longrightarrow> cache_worker env x = Some x' \<Longrightarrow> ce_get env path = -1 \<Longrightarrow>
     cache_weight L (x_cache x') < cache_weight L (x_cache x)"
  by (cases "x_proxy x"; cases "x_cache x")
    (auto simp: miss_inv_def cache_worker_def xfer_finished_def split: list.splits)

interpretation sy: exchange env "request_rel env L" "servable env L" "answered env" L for env L
proof
  fix path
  assume "servable env L path"
  then show "request_rel env L path xfer_start"
    using xfer_start_inv [of env path]
    by (auto simp: servable_def request_rel_def done_inv_def miss_inv_def) (auto simp: xfer_start_def)
next
  fix path x x'
  assume r: "request_rel env L path x"
  show "request_rel env L path x'" if "handle_with_cache env path x = Some x'"
    using r miss_proxy [OF _ that] proxy_inv [OF _ that] done_inv_proxy [OF that]
    unfolding request_rel_def cached_file_def by blast
  show "request_rel env L path x'" if "cache_worker env x = Some x'"
    using r miss_cache [OF _ that] cache_inv [OF _ that] done_inv_cache [OF _ _ that]
    unfolding request_rel_def cached_file_def by blast
  show "x_mq x = (if x_cache x = CIdle \<and> x_proxy x \<noteq> PSend then [path] else [])"
    using r miss_inv_mq xfer_inv_mq unfolding request_rel_def by blast
  show "x_cache x = CIdle" if "x_proxy x = PSend"
    using r that sync_invD(9) [of env path _ _ x] unfolding request_rel_def by (auto simp: miss_inv_def)
  show "x_cache x \<noteq> CIdle \<and> quiet env (x_cache x) \<and> xfer_seg x = segmem_new \<and> answered env path (x_calls x) s"
    if "x_proxy x = PDone s" for s
    using r unfolding request_rel_def
  proof (elim disjE conjE exE)
    assume "miss_inv path env x" "ce_get env path = -1"
    with miss_inv_done [OF _ that] show ?thesis by (simp add: answered_def)
  next
    fix data
    assume "xfer_inv env path (ce_get env path) data x" "done_inv env x" "cached_file env path (ce_get env path) data"
    with xfer_inv_done [OF _ _ _ that] show ?thesis unfolding answered_def cached_file_def by metis
  qed
  show "\<exists>s. x_proxy x = PDone s" if "xfer_stuck env path x"
    using r miss_stuck [OF _ that] xfer_stuck_finished [OF _ _ that] unfolding request_rel_def xfer_finished_def by blast
  show "proxy_weight L (x_proxy x') < proxy_weight L (x_proxy x)" if "handle_with_cache env path x = Some x'"
    using r miss_proxy_weight [OF _ that] proxy_weight_step [OF _ that] unfolding request_rel_def by blast
  show "cache_weight L (x_cache x') < cache_weight L (x_cache x)" if "cache_worker env x = Some x'"
    using r miss_cache_weight [OF _ that] cache_weight_step [OF _ that] unfolding request_rel_def by blast
qed


section \<open>Properties\<close>

lemma sys_step_threads:
  "sys_step env cap a g = Some g' \<Longrightarrow> length (cy_caches g') = length (cy_caches g)"
proof (cases a)
  case (ACache k)
  assume "sys_step env cap a g = Some g'"
  with ACache have step: "cache_step env k g = Some g'" by simp
  then have k: "k < length (cy_caches g)" by (simp add: cache_step_def split: if_splits)
  show ?thesis
  proof (cases "cy_caches g ! k")
    case None
    with step k show ?thesis by (auto simp: cache_step_def split: list.splits)
  next
    case (Some w)
    then obtain sid c where w: "cy_caches g ! k = Some (sid, c)" by force
    with step cache_step_loop [OF k] cache_step_work [OF k w] show ?thesis
      by (cases "c = CDone") (auto split: option.splits)
  qed
next
  case (AProxy i)
  assume "sys_step env cap a g = Some g'"
  with AProxy have step: "proxy_step env cap i g = Some g'" by simp
  then have i: "i < length (cy_proxies g)" by (simp add: proxy_step_def split: if_splits)
  show ?thesis
  proof (cases "px_pc (cy_proxies g ! i)")
    case QIdle
    with step i show ?thesis by (auto simp: proxy_step_def Let_def split: list.splits)
  next
    case (QUse sid path pc calls)
    show ?thesis
    proof (cases "\<exists>r. pc = PDone r")
      case True
      with step i QUse show ?thesis by (auto simp: proxy_step_def Let_def)
    next
      case False
      with step show ?thesis
        unfolding proxy_step_use [OF i QUse False [simplified]] by (auto split: if_splits option.splits)
    qed
  qed
qed

lemma sys_exec_threads: "sys_exec env cap as g = Some g' \<Longrightarrow> length (cy_caches g') = length (cy_caches g)"
  by (induction as arbitrary: g) (auto split: option.splits dest: sys_step_threads)

lemma sys_finished:
  assumes inv: "exchange.sys_inv env (request_rel env L) (servable env L) (answered env) n reqs g"
    and stuck: "sys_stuck env cap g" "0 < n" "0 < cap" "0 < length (cy_caches g)"
  shows "map (\<lambda>p. map fst (px_done p)) (cy_proxies g) = reqs" "cy_mq g = []" "mset (cy_pool g) = mset [0..<n]"
    "\<forall>i<n. cy_segs g i = segmem_new"
proof -
  note f = sy.sys_stuck_finished [OF inv stuck]
  note i = inv [unfolded sy.sys_inv_def]
  show "cy_mq g = []" by (rule f(2))
  show p: "mset (cy_pool g) = mset [0..<n]" using i f(1) by simp
  have "set (cy_pool g) = {0..<n}" using arg_cong [OF p, of set_mset] by simp
  with i show "\<forall>i<n. cy_segs g i = segmem_new" by auto
  have "map (\<lambda>p. map fst (px_done p)) (cy_proxies g) = map requests (cy_proxies g)"
    using f(3) by (simp add: requests_def)
  with i show "map (\<lambda>p. map fst (px_done p)) (cy_proxies g) = reqs" by simp
qed


text \<open>Two proxy threads, one segment and one cache thread: a file that the cache has and one that it does not.\<close>

definition demo_requests :: "string list list" where
  "demo_requests = [[''/a''], [''/b'']]"

definition demo_sys_acts :: "sys_act list" where
  "demo_sys_acts =
    [AProxy 1, AProxy 1, ACache 0, ACache 0, ACache 0, ACache 0, ACache 0, AProxy 1, AProxy 1, AProxy 1,
     AProxy 0, AProxy 0, ACache 0, ACache 0, ACache 0, ACache 0, ACache 0, ACache 0, ACache 0, ACache 0,
     ACache 0, ACache 0, AProxy 0, AProxy 0, AProxy 0, AProxy 0, AProxy 0, AProxy 0, ACache 0, ACache 0,
     ACache 0, ACache 0, ACache 0, AProxy 0, AProxy 0, AProxy 0, AProxy 0, AProxy 0, AProxy 0, AProxy 0]"

lemmas demo_sys_simps = proxy_step_def cache_step_def Let_def handle_with_cache_def cache_worker_def seg_xfer_def
  xfer_seg_def segmem_new_def MSG_PATH_def demo_cache_def SEG_CHUNK_def c_int_def

lemma demo_sys_runs:
  "\<exists>g. sys_exec demo_cache 1 demo_sys_acts (sys_start 1 1 demo_requests) = Some g \<and>
     map px_todo (cy_proxies g) = [[], []] \<and> map px_pc (cy_proxies g) = [QIdle, QIdle] \<and>
     cy_mq g = [] \<and> cy_caches g = [None]"
  by (simp add: demo_sys_acts_def demo_requests_def sys_start_def demo_sys_simps)

lemma sys_idle_stuck:
  assumes "map px_todo (cy_proxies g) = [[], []]" "map px_pc (cy_proxies g) = [QIdle, QIdle]"
    and "cy_mq g = []" "cy_caches g = [None]"
  shows "sys_stuck env cap g"
proof -
  obtain p q where "cy_proxies g = [p, q]" "px_todo p = []" "px_todo q = []" "px_pc p = QIdle" "px_pc q = QIdle"
    using assms(1,2) by (auto simp: map_eq_Cons_conv)
  then have "proxy_step env cap i g = None" for i
    by (cases "i < 2") (auto simp: proxy_step_def less_2_cases_iff)
  moreover have "cache_step env k g = None" for k using assms(3,4) by (cases k) (auto simp: cache_step_def)
  ultimately show ?thesis unfolding sys_stuck_def by (metis sys_step.elims)
qed

lemma demo_servable: "\<forall>ps\<in>set demo_requests. \<forall>path\<in>set ps. servable demo_cache 3 path"
proof -
  have "ce_get demo_cache ''/a'' = 3" "ce_get demo_cache ''/b'' = -1" by (simp_all add: demo_cache_def)
  moreover have "length ''abc'' \<le> 3" by simp
  ultimately show ?thesis using demo_cached
    by (auto simp: demo_requests_def servable_def MSG_PATH_def intro!: exI [of _ "''abc''"])
qed





end
