(* ===== verification/GetOpt.thy ===== *)
theory GetOpt
  imports Options
begin

text \<open>
  getopt\_long of the C library, as the mains call it: short options with or without an argument,
  long options with an argument after = or, when it is required, in the next element, unique
  abbreviations, and operands that are moved behind the options. An option that is not known or lacks its argument is a
  question mark. The flag member of the tables is NULL everywhere.
\<close>

section \<open>The table of options\<close>

text \<open>The string of short options, and the long ones: name, has\_arg, val.\<close>

datatype has_arg = no_argument | required_argument | optional_argument

type_synonym long_options = "(string \<times> has_arg \<times> char) list"

type_synonym optspec = "string \<times> long_options"

fun short_arg :: "string \<Rightarrow> char \<Rightarrow> bool option" where
  "short_arg [] c = None"
| "short_arg (x # xs) c =
     (if x = c \<and> c \<noteq> CHR '':'' \<and> c \<noteq> CHR '';'' then Some (xs \<noteq> [] \<and> hd xs = CHR '':'') else short_arg xs c)"

definition long_option :: "long_options \<Rightarrow> string \<Rightarrow> (has_arg \<times> char) option" where
  "long_option tbl name =
     (case map_of tbl name of
        Some x \<Rightarrow> Some x
      | None \<Rightarrow>
          (case filter (\<lambda>(n, x). take (length name) n = name) tbl of
             [] \<Rightarrow> None
           | (n, x) # others \<Rightarrow> if list_all (\<lambda>(n', y). y = x) others then Some x else None))"

section \<open>Reading the command line\<close>

abbreviation unknown_option :: "char \<times> string option" where
  "unknown_option \<equiv> (CHR ''?'', None)"

text \<open>An element with short options; the last may take the next element.\<close>

fun short_cluster :: "string \<Rightarrow> string \<Rightarrow> string list \<Rightarrow> opts \<times> string list" where
  "short_cluster shorts [] argv = ([], argv)"
| "short_cluster shorts (c # cs) argv =
     (case short_arg shorts c of
        None \<Rightarrow> (case short_cluster shorts cs argv of (os, r) \<Rightarrow> (unknown_option # os, r))
      | Some False \<Rightarrow> (case short_cluster shorts cs argv of (os, r) \<Rightarrow> ((c, None) # os, r))
      | Some True \<Rightarrow>
          if cs \<noteq> [] then ([(c, Some cs)], argv)
          else (case argv of [] \<Rightarrow> ([unknown_option], []) | a # r \<Rightarrow> ([(c, Some a)], r)))"

definition long_step ::
  "long_options \<Rightarrow> string \<Rightarrow> string list \<Rightarrow> (char \<times> string option) \<times> string list" where
  "long_step tbl s argv =
     (let name = takeWhile (\<lambda>c. c \<noteq> CHR ''='') s; tail = dropWhile (\<lambda>c. c \<noteq> CHR ''='') s in
      case long_option tbl name of
        None \<Rightarrow> (unknown_option, argv)
      | Some (arg, val) \<Rightarrow>
          if tail \<noteq> [] then (if arg = no_argument then unknown_option else (val, Some (tl tail)), argv)
          else if arg = required_argument
          then (case argv of [] \<Rightarrow> (unknown_option, []) | a # r \<Rightarrow> ((val, Some a), r))
          else ((val, None), argv))"

lemma short_cluster_shorter: "length (snd (short_cluster shorts cs argv)) \<le> length argv"
  by (induction shorts cs argv rule: short_cluster.induct)
    (auto split: option.splits bool.splits list.splits prod.splits)

lemma long_step_shorter: "length (snd (long_step tbl s argv)) \<le> length argv"
  by (auto simp: long_step_def Let_def split: option.splits list.splits prod.splits if_splits)

text \<open>The options in their order, and the operands.\<close>

function getopt_long :: "optspec \<Rightarrow> string list \<Rightarrow> opts \<times> string list" where
  "getopt_long sp [] = ([], [])"
| "getopt_long sp (a # argv) =
     (if a = ''--'' then ([], argv)
      else if take 2 a = ''--''
      then (let x = long_step (snd sp) (drop 2 a) argv; y = getopt_long sp (snd x) in (fst x # fst y, snd y))
      else if 2 \<le> length a \<and> hd a = CHR ''-''
      then (let x = short_cluster (fst sp) (tl a) argv; y = getopt_long sp (snd x) in (fst x @ fst y, snd y))
      else (let y = getopt_long sp argv in (fst y, a # snd y)))"
  by pat_completeness auto
termination
  by (relation "measure (length \<circ> snd)")
    (auto simp: less_Suc_eq_le short_cluster_shorter long_step_shorter)

section \<open>Writing a command line\<close>

text \<open>The ways to write one option; a long one with the name that is used.\<close>

datatype spelling = Short | ShortAttached | Long string | LongAttached string

fun spell :: "spelling \<Rightarrow> char \<times> string option \<Rightarrow> string list" where
  "spell Short (c, arg) = [[CHR ''-'', c]] @ (case arg of None \<Rightarrow> [] | Some v \<Rightarrow> [v])"
| "spell ShortAttached (c, arg) = [[CHR ''-'', c] @ (case arg of None \<Rightarrow> [] | Some v \<Rightarrow> v)]"
| "spell (Long n) (c, arg) = [''--'' @ n] @ (case arg of None \<Rightarrow> [] | Some v \<Rightarrow> [v])"
| "spell (LongAttached n) (c, arg) = [''--'' @ n @ (case arg of None \<Rightarrow> [] | Some v \<Rightarrow> CHR ''='' # v)]"

text \<open>What the table allows.\<close>

fun spelled :: "optspec \<Rightarrow> spelling \<Rightarrow> char \<times> string option \<Rightarrow> bool" where
  "spelled sp Short (c, arg) \<longleftrightarrow> c \<noteq> CHR ''-'' \<and> short_arg (fst sp) c = Some (arg \<noteq> None)"
| "spelled sp ShortAttached (c, arg) \<longleftrightarrow>
     c \<noteq> CHR ''-'' \<and> short_arg (fst sp) c = Some (arg \<noteq> None) \<and> arg \<noteq> Some []"
| "spelled sp (Long n) (c, arg) \<longleftrightarrow>
     (\<exists>h\<in>(if arg = None then {no_argument, optional_argument} else {required_argument}). map_of (snd sp) n = Some (h, c))"
| "spelled sp (LongAttached n) (c, arg) \<longleftrightarrow>
     (\<exists>h\<in>(if arg = None then {no_argument, optional_argument} else {required_argument, optional_argument}).
        map_of (snd sp) n = Some (h, c))"

definition spec_names_ok :: "optspec \<Rightarrow> bool" where
  "spec_names_ok sp \<longleftrightarrow> list_all (\<lambda>(n, x). n \<noteq> [] \<and> CHR ''='' \<notin> set n) (snd sp)"

definition operand :: "string \<Rightarrow> bool" where
  "operand a \<longleftrightarrow> a = [] \<or> a = ''-'' \<or> hd a \<noteq> CHR ''-''"

lemma getopt_operand: "operand a \<Longrightarrow> getopt_long sp (a # argv) = (fst (getopt_long sp argv), a # snd (getopt_long sp argv))"
  by (cases a) (auto simp: operand_def Let_def take_Cons')

lemma getopt_operands: "list_all operand args \<Longrightarrow> getopt_long sp args = ([], args)"
  by (induction args) (simp_all add: getopt_operand del: getopt_long.simps(2))

lemma names_ok_map_of:
  "spec_names_ok sp \<Longrightarrow> map_of (snd sp) n = Some x \<Longrightarrow> n \<noteq> [] \<and> CHR ''='' \<notin> set n"
  by (auto simp: spec_names_ok_def list_all_iff dest: map_of_SomeD)

lemma long_step_name:
  assumes "map_of tbl n = Some (h, c)" "CHR ''='' \<notin> set n"
  shows "long_step tbl n argv =
      (if h = required_argument then (case argv of [] \<Rightarrow> (unknown_option, []) | a # r \<Rightarrow> ((c, Some a), r))
       else ((c, None), argv))"
    and "long_step tbl (n @ CHR ''='' # v) argv =
      (if h = no_argument then unknown_option else (c, Some v), argv)"
proof -
  have n: "\<forall>x\<in>set n. x \<noteq> CHR ''=''" using assms(2) by auto
  then have t: "takeWhile (\<lambda>c. c \<noteq> CHR ''='') n = n" "dropWhile (\<lambda>c. c \<noteq> CHR ''='') n = []"
    by (simp_all add: takeWhile_eq_all_conv dropWhile_eq_Nil_conv)
  show "long_step tbl n argv =
      (if h = required_argument then (case argv of [] \<Rightarrow> (unknown_option, []) | a # r \<Rightarrow> ((c, Some a), r))
       else ((c, None), argv))"
    by (simp add: long_step_def long_option_def assms(1) t Let_def)
  show "long_step tbl (n @ CHR ''='' # v) argv =
      (if h = no_argument then unknown_option else (c, Some v), argv)"
    using takeWhile_append_stop [OF n, of "CHR ''=''" v] dropWhile_append_stop [OF n, of "CHR ''=''" v]
    by (simp add: long_step_def long_option_def assms(1) Let_def)
qed

lemma getopt_long_name:
  assumes "spec_names_ok sp" "map_of (snd sp) n = Some (h, c)"
  shows "getopt_long sp ((''--'' @ n) # argv) =
      (let x = long_step (snd sp) n argv; y = getopt_long sp (snd x) in (fst x # fst y, snd y))"
    and "getopt_long sp ((''--'' @ n @ CHR ''='' # v) # argv) =
      (let x = long_step (snd sp) (n @ CHR ''='' # v) argv; y = getopt_long sp (snd x) in (fst x # fst y, snd y))"
  using names_ok_map_of [OF assms] by simp_all

text \<open>One option, however it is written.\<close>

lemma getopt_spell:
  assumes "spec_names_ok sp" "spelled sp w ca"
  shows "getopt_long sp (spell w ca @ argv) = (ca # fst (getopt_long sp argv), snd (getopt_long sp argv))"
proof -
  obtain c arg where ca: "ca = (c, arg)" by force
  show ?thesis
  proof (cases w)
    case Short
    with assms ca show ?thesis by (cases arg) (auto simp: Let_def)
  next
    case ShortAttached
    with assms ca show ?thesis by (cases arg) (auto simp: Let_def)
  next
    case (Long n)
    with assms(2) ca obtain h where m: "map_of (snd sp) n = Some (h, c)"
      and h: "if arg = None then h \<noteq> required_argument else h = required_argument"
      by (auto split: if_splits)
    with Long ca getopt_long_name(1) [OF assms(1) m] long_step_name(1) [OF m] names_ok_map_of [OF assms(1) m]
    show ?thesis by (cases arg) (auto simp: Let_def simp del: getopt_long.simps(2))
  next
    case (LongAttached n)
    with assms(2) ca obtain h where m: "map_of (snd sp) n = Some (h, c)"
      and h: "if arg = None then h \<noteq> required_argument else h \<noteq> no_argument"
      by (auto split: if_splits)
    with LongAttached ca getopt_long_name [OF assms(1) m] long_step_name [OF m] names_ok_map_of [OF assms(1) m]
    show ?thesis by (cases arg) (auto simp: Let_def simp del: getopt_long.simps(2))
  qed
qed

lemma getopt_spelled:
  assumes "spec_names_ok sp" "list_all2 (spelled sp) ws os" "list_all operand args"
  shows "getopt_long sp (concat (map2 spell ws os) @ args) = (os, args)"
  using assms(2)
proof (induction ws os rule: list_all2_induct)
  case Nil
  show ?case using getopt_operands [OF assms(3)] by simp
next
  case (Cons w ws x os)
  then show ?case using getopt_spell [OF assms(1) Cons.hyps(1)] by simp
qed

end
