(* ===== verification/CRC.thy ===== *)
theory CRC
  imports Prelude
begin

text \<open>
  grpc/part2/src/CRC.h: the bit-by-bit and the table-driven computation of a CRC. CRCType is
  the word type, and the template argument CRCWidth is a field of the parameters. A byte is an
  8 word; it is converted to CRCType as C++ does it.
\<close>

unbundle bit_operations_syntax

section \<open>Parameters, reflection and the final step\<close>

record 'c crc_params =
  cp_width :: nat
  cp_polynomial :: 'c
  cp_initialValue :: 'c
  cp_finalXOR :: 'c
  cp_reflectInput :: bool
  cp_reflectOutput :: bool

definition CHAR_BIT :: nat where "CHAR_BIT = 8"

definition crc_BIT_MASK :: "nat \<Rightarrow> ('a::len) word" where
  "crc_BIT_MASK w = push_bit (w - 1) 1 OR (push_bit (w - 1) 1 - 1)"

primrec crc_reflect_loop :: "nat \<Rightarrow> ('a::len) word \<Rightarrow> 'a word \<Rightarrow> 'a word" where
  "crc_reflect_loop 0 rv v = rv"
| "crc_reflect_loop (Suc n) rv v = crc_reflect_loop n (push_bit 1 rv OR (v AND 1)) (drop_bit 1 v)"

definition crc_Reflect :: "('a::len) word \<Rightarrow> nat \<Rightarrow> 'a word" where
  "crc_Reflect v numBits = crc_reflect_loop numBits 0 v"

definition crc_Finalize :: "nat \<Rightarrow> ('a::len) word \<Rightarrow> 'a word \<Rightarrow> bool \<Rightarrow> 'a word" where
  "crc_Finalize w rem fxor reflectOutput =
     ((if reflectOutput then crc_Reflect rem w else rem) XOR fxor) AND crc_BIT_MASK w"

definition crc_UndoFinalize :: "nat \<Rightarrow> ('a::len) word \<Rightarrow> 'a word \<Rightarrow> bool \<Rightarrow> 'a word" where
  "crc_UndoFinalize w crc fxor reflectOutput =
     (let c = (crc AND crc_BIT_MASK w) XOR fxor in if reflectOutput then crc_Reflect c w else c)"

section \<open>The remainder, bit by bit\<close>

text \<open>One turn of the inner loops: to the right for reflected input, to the left otherwise.\<close>

definition crc_bit_right :: "('a::len) word \<Rightarrow> 'a word \<Rightarrow> 'a word" where
  "crc_bit_right poly rem = (if rem AND 1 \<noteq> 0 then drop_bit 1 rem XOR poly else drop_bit 1 rem)"

definition crc_bit_left :: "nat \<Rightarrow> ('a::len) word \<Rightarrow> 'a word \<Rightarrow> 'a word" where
  "crc_bit_left high poly rem =
     (if rem AND push_bit high 1 \<noteq> 0 then push_bit 1 rem XOR poly else push_bit 1 rem)"

fun crc_bytes_right :: "('a::len) word \<Rightarrow> 8 word list \<Rightarrow> 'a word \<Rightarrow> 'a word" where
  "crc_bytes_right poly [] rem = rem"
| "crc_bytes_right poly (b # bs) rem =
     crc_bytes_right poly bs ((crc_bit_right poly ^^ CHAR_BIT) (rem XOR ucast b))"

fun crc_bytes_left :: "nat \<Rightarrow> nat \<Rightarrow> ('a::len) word \<Rightarrow> 8 word list \<Rightarrow> 'a word \<Rightarrow> 'a word" where
  "crc_bytes_left high sh poly [] rem = rem"
| "crc_bytes_left high sh poly (b # bs) rem =
     crc_bytes_left high sh poly bs
       ((crc_bit_left high poly ^^ CHAR_BIT) (rem XOR push_bit sh (ucast b)))"

definition crc_CalculateRemainder ::
  "8 word list \<Rightarrow> ('a::len) word crc_params \<Rightarrow> 'a word \<Rightarrow> 'a word" where
  "crc_CalculateRemainder d p rem =
     (let w = cp_width p in
      if cp_reflectInput p then crc_bytes_right (crc_Reflect (cp_polynomial p) w) d rem
      else if CHAR_BIT \<le> w then crc_bytes_left (w - 1) (w - CHAR_BIT) (cp_polynomial p) d rem
      else drop_bit (CHAR_BIT - w)
             (crc_bytes_left (CHAR_BIT - 1) 0 (push_bit (CHAR_BIT - w) (cp_polynomial p)) d
                (push_bit (CHAR_BIT - w) rem)))"

section \<open>The table\<close>

record 'c crc_table =
  ct_parameters :: "'c crc_params"
  ct_table :: "'c list"

definition crc_table_entry :: "('a::len) word crc_params \<Rightarrow> 8 word \<Rightarrow> 'a word" where
  "crc_table_entry p b =
     (let w = cp_width p; crc = crc_CalculateRemainder [b] p 0 AND crc_BIT_MASK w in
      if \<not> cp_reflectInput p \<and> w < CHAR_BIT then push_bit (CHAR_BIT - w) crc else crc)"

definition crc_InitTable :: "('a::len) word crc_params \<Rightarrow> 'a word list" where
  "crc_InitTable p = map (\<lambda>i. crc_table_entry p (word_of_nat i)) [0..<2 ^ CHAR_BIT]"

definition crc_MakeTable :: "('a::len) word crc_params \<Rightarrow> 'a word crc_table" where
  "crc_MakeTable p = \<lparr>ct_parameters = p, ct_table = crc_InitTable p\<rparr>"

definition crc_lookup :: "('a::len) word crc_table \<Rightarrow> 8 word \<Rightarrow> 'a word" where
  "crc_lookup t i = ct_table t ! unat i"

fun crc_table_right :: "('a::len) word crc_table \<Rightarrow> 8 word list \<Rightarrow> 'a word \<Rightarrow> 'a word" where
  "crc_table_right t [] rem = rem"
| "crc_table_right t (b # bs) rem =
     crc_table_right t bs (drop_bit CHAR_BIT rem XOR crc_lookup t (ucast (rem XOR ucast b)))"

fun crc_table_left :: "nat \<Rightarrow> ('a::len) word crc_table \<Rightarrow> 8 word list \<Rightarrow> 'a word \<Rightarrow> 'a word" where
  "crc_table_left sh t [] rem = rem"
| "crc_table_left sh t (b # bs) rem =
     crc_table_left sh t bs
       (push_bit CHAR_BIT rem XOR crc_lookup t (ucast (drop_bit sh rem XOR ucast b)))"

fun crc_table_narrow :: "('a::len) word crc_table \<Rightarrow> 8 word list \<Rightarrow> 'a word \<Rightarrow> 'a word" where
  "crc_table_narrow t [] rem = rem"
| "crc_table_narrow t (b # bs) rem = crc_table_narrow t bs (crc_lookup t (ucast (rem XOR ucast b)))"

definition crc_CalculateRemainder_table ::
  "8 word list \<Rightarrow> ('a::len) word crc_table \<Rightarrow> 'a word \<Rightarrow> 'a word" where
  "crc_CalculateRemainder_table d t rem =
     (let w = cp_width (ct_parameters t) in
      if cp_reflectInput (ct_parameters t) then crc_table_right t d rem
      else if CHAR_BIT \<le> w then crc_table_left (w - CHAR_BIT) t d rem
      else drop_bit (CHAR_BIT - w) (crc_table_narrow t d (push_bit (CHAR_BIT - w) rem)))"

section \<open>The four versions of Calculate\<close>

definition crc_Calculate :: "8 word list \<Rightarrow> ('a::len) word crc_params \<Rightarrow> 'a word" where
  "crc_Calculate d p =
     crc_Finalize (cp_width p) (crc_CalculateRemainder d p (cp_initialValue p)) (cp_finalXOR p)
       (cp_reflectInput p \<noteq> cp_reflectOutput p)"

definition crc_Calculate_append :: "8 word list \<Rightarrow> ('a::len) word crc_params \<Rightarrow> 'a word \<Rightarrow> 'a word" where
  "crc_Calculate_append d p crc =
     (let refl = (cp_reflectInput p \<noteq> cp_reflectOutput p);
          rem = crc_UndoFinalize (cp_width p) crc (cp_finalXOR p) refl in
      crc_Finalize (cp_width p) (crc_CalculateRemainder d p rem) (cp_finalXOR p) refl)"

definition crc_Calculate_table :: "8 word list \<Rightarrow> ('a::len) word crc_table \<Rightarrow> 'a word" where
  "crc_Calculate_table d t =
     (let p = ct_parameters t in
      crc_Finalize (cp_width p) (crc_CalculateRemainder_table d t (cp_initialValue p))
        (cp_finalXOR p) (cp_reflectInput p \<noteq> cp_reflectOutput p))"

definition crc_Calculate_table_append ::
  "8 word list \<Rightarrow> ('a::len) word crc_table \<Rightarrow> 'a word \<Rightarrow> 'a word" where
  "crc_Calculate_table_append d t crc =
     (let p = ct_parameters t; refl = (cp_reflectInput p \<noteq> cp_reflectOutput p);
          rem = crc_UndoFinalize (cp_width p) crc (cp_finalXOR p) refl in
      crc_Finalize (cp_width p) (crc_CalculateRemainder_table d t rem) (cp_finalXOR p) refl)"

section \<open>Bits\<close>

lemma crc_BIT_MASK_mask:
  assumes "1 \<le> w" "w \<le> LENGTH('a)"
  shows "crc_BIT_MASK w = (mask w :: ('a::len) word)"
proof -
  have m: "push_bit (w - 1) 1 - 1 = (mask (w - 1) :: 'a word)"
    by (simp add: mask_eq_exp_minus_1)
  show ?thesis
    unfolding crc_BIT_MASK_def m
    by (rule bit_eqI) (use assms in \<open>auto simp: bit_simps simp del: push_bit_of_1\<close>)
qed

lemma bit_push_1: "bit (push_bit 1 (r :: ('a::len) word)) i \<longleftrightarrow> 0 < i \<and> i < LENGTH('a) \<and> bit r (i - 1)"
  unfolding bit_push_bit_iff by (auto simp: Suc_le_eq)

lemma crc_bit_right_alt:
  "crc_bit_right p r = drop_bit 1 r XOR (if bit r 0 then p else 0)"
  by (simp add: crc_bit_right_def bit_0 odd_iff_mod_2_eq_one and_one_eq)

lemma crc_bit_left_alt:
  "crc_bit_left h p r = push_bit 1 r XOR (if bit r h then p else 0)"
  by (simp add: crc_bit_left_def and_exp_eq_0_iff_not_bit)

lemma bit_crc_reflect_shift:
  fixes rv v :: "('a::len) word"
  shows "bit (push_bit 1 rv OR (v AND 1)) j \<longleftrightarrow>
     j < LENGTH('a) \<and> (if j = 0 then bit v 0 else bit rv (j - 1))"
  unfolding bit_or_iff bit_push_1 by (auto simp: bit_simps)

lemma bit_crc_reflect_loop:
  fixes rv v :: "('a::len) word"
  shows "bit (crc_reflect_loop n rv v) i \<longleftrightarrow>
     i < LENGTH('a) \<and> (if i < n then bit v (n - 1 - i) else bit rv (i - n))"
proof (induction n arbitrary: rv v)
  case 0
  then show ?case by (auto dest: bit_imp_le_length)
next
  case (Suc n)
  have "n - Suc i + 1 = n - i" if "i < n" using that by simp
  then show ?case
    unfolding crc_reflect_loop.simps Suc.IH bit_crc_reflect_shift bit_drop_bit_eq
    by (cases "i < n"; cases "i = n") (auto simp: comp_def)
qed

lemma bit_crc_Reflect:
  fixes v :: "('a::len) word"
  shows "bit (crc_Reflect v n) i \<longleftrightarrow> i < LENGTH('a) \<and> i < n \<and> bit v (n - 1 - i)"
  by (auto simp: crc_Reflect_def bit_crc_reflect_loop)

lemma take_bit_eq_bits: "(\<And>i. i < k \<Longrightarrow> bit a i = bit b i) \<Longrightarrow> take_bit k a = take_bit k b"
  for a b :: "('a::len) word"
  by (rule bit_eqI) (auto simp: bit_take_bit_iff)

lemma take_bit_bits: "take_bit k a = take_bit k b \<Longrightarrow> i < k \<Longrightarrow> bit a i = bit b i"
  by (metis bit_take_bit_iff)

text \<open>The turns are linear, and what they do to the bits.\<close>

lemma crc_right_xor: "crc_bit_right p (a XOR b) = crc_bit_right p a XOR crc_bit_right p b"
  by (rule bit_eqI) (auto simp: crc_bit_right_alt bit_simps)

lemma crc_left_xor: "crc_bit_left h p (a XOR b) = crc_bit_left h p a XOR crc_bit_left h p b"
proof -
  have s: "push_bit 1 (a XOR b) = push_bit 1 a XOR push_bit 1 b" by (rule push_bit_xor)
  show ?thesis
    by (rule bit_eqI) (auto simp: crc_bit_left_alt s bit_xor_iff simp del: push_bit_Suc One_nat_def)
qed

lemma funpow_xor:
  fixes f :: "('a::len) word \<Rightarrow> 'a word"
  assumes "\<And>a b. f (a XOR b) = f a XOR f b"
  shows "(f ^^ n) (a XOR b) = (f ^^ n) a XOR (f ^^ n) b"
  by (induction n) (simp_all add: assms)

lemma crc_right_zero_bits:
  "(\<forall>i<n. \<not> bit r i) \<Longrightarrow> (crc_bit_right p ^^ n) r = drop_bit n r"
proof (induction n arbitrary: r)
  case (Suc n)
  have "crc_bit_right p r = drop_bit 1 r" using Suc.prems by (simp add: crc_bit_right_alt)
  moreover have "(crc_bit_right p ^^ n) (drop_bit 1 r) = drop_bit n (drop_bit 1 r)"
    by (rule Suc.IH) (use Suc.prems in \<open>auto simp: bit_drop_bit_eq\<close>)
  ultimately show ?case unfolding funpow_Suc_right o_apply by (simp add: drop_bit_drop_bit)
qed simp

lemma crc_right_high_bits:
  assumes "\<And>i. w \<le> i \<Longrightarrow> \<not> bit p i" "w \<le> i"
  shows "bit ((crc_bit_right p ^^ n) r) i \<longleftrightarrow> bit r (i + n)"
  using assms(2)
proof (induction n arbitrary: i)
  case (Suc n)
  have "bit ((crc_bit_right p ^^ Suc n) r) i \<longleftrightarrow> bit ((crc_bit_right p ^^ n) r) (Suc i)"
    unfolding funpow.simps o_apply crc_bit_right_alt bit_xor_iff bit_drop_bit_eq
    using assms(1) [OF Suc.prems] by simp
  also have "\<dots> \<longleftrightarrow> bit r (Suc i + n)" by (rule Suc.IH) (use Suc.prems in simp)
  finally show ?case by (simp only: add_Suc add_Suc_right)
qed simp

lemma crc_right_byte_mask:
  assumes "\<And>i. w \<le> i \<Longrightarrow> \<not> bit p i"
  shows "(crc_bit_right p ^^ 8) (take_bit 8 y) AND mask w = (crc_bit_right p ^^ 8) (take_bit 8 y)"
proof (rule bit_eqI)
  fix i
  show "bit ((crc_bit_right p ^^ 8) (take_bit 8 y) AND mask w) i \<longleftrightarrow>
      bit ((crc_bit_right p ^^ 8) (take_bit 8 y)) i"
    using crc_right_high_bits [OF assms, where i = i and n = 8 and r = "take_bit 8 y"]
    by (cases "i < w") (auto simp: bit_and_iff bit_mask_iff bit_take_bit_iff dest: bit_imp_le_length)
qed

lemma bit_crc_left:
  "bit (crc_bit_left h p r) i \<longleftrightarrow>
     ((0 < i \<and> i < LENGTH('a) \<and> bit r (i - 1)) \<noteq> (bit r h \<and> bit p i))"
  for r :: "('a::len) word"
  unfolding crc_bit_left_alt bit_xor_iff bit_push_1 by simp

lemma crc_left_cong:
  fixes a b :: "('a::len) word"
  assumes "h < k" "take_bit k a = take_bit k b"
  shows "take_bit k ((crc_bit_left h p ^^ n) a) = take_bit k ((crc_bit_left h p ^^ n) b)"
proof (induction n)
  case (Suc n)
  let ?a = "(crc_bit_left h p ^^ n) a" and ?b = "(crc_bit_left h p ^^ n) b"
  have eq: "bit ?a i = bit ?b i" if "i < k" for i
    using Suc.IH that by (metis bit_take_bit_iff)
  have "bit (crc_bit_left h p ?a) i = bit (crc_bit_left h p ?b) i" if "i < k" for i
    unfolding bit_crc_left using eq [of "i - 1"] eq [of h] assms(1) that by auto
  then show ?case by (auto intro!: bit_eqI simp: bit_take_bit_iff)
qed (use assms in simp)

lemma crc_left_zero_bits:
  fixes r :: "('a::len) word"
  assumes "\<forall>i. h < i + n \<and> i \<le> h \<longrightarrow> \<not> bit r i"
  shows "(crc_bit_left h p ^^ n) r = push_bit n r"
  using assms
proof (induction n arbitrary: r)
  case (Suc n)
  have z: "crc_bit_left h p r = push_bit 1 r" using Suc.prems by (simp add: crc_bit_left_alt)
  have "(crc_bit_left h p ^^ n) (push_bit 1 r) = push_bit n (push_bit 1 r)"
    by (rule Suc.IH) (use Suc.prems in \<open>auto simp: bit_push_1 simp del: push_bit_Suc One_nat_def\<close>)
  then show ?case unfolding funpow_Suc_right o_apply z by (simp add: push_bit_push_bit)
qed simp

lemma crc_left_low_bits:
  fixes r :: "('a::len) word"
  assumes "\<forall>i < k. \<not> bit p i" "i < k"
  shows "bit ((crc_bit_left h p ^^ n) r) i \<longleftrightarrow> i < LENGTH('a) \<and> n \<le> i \<and> bit r (i - n)"
  using assms(2)
proof (induction n arbitrary: i)
  case (Suc n)
  let ?a = "(crc_bit_left h p ^^ n) r"
  have l: "i - 1 < LENGTH('a)" if "bit ?a (i - 1)" using that by (rule bit_imp_le_length)
  have "bit ((crc_bit_left h p ^^ Suc n) r) i \<longleftrightarrow> 0 < i \<and> i < LENGTH('a) \<and> bit ?a (i - 1)"
    unfolding funpow.simps o_apply bit_crc_left using assms(1) Suc.prems by auto
  also have "\<dots> \<longleftrightarrow> 0 < i \<and> i < LENGTH('a) \<and> n \<le> i - 1 \<and> bit r (i - 1 - n)"
    using Suc.IH [of "i - 1"] Suc.prems by auto
  also have "\<dots> \<longleftrightarrow> i < LENGTH('a) \<and> Suc n \<le> i \<and> bit r (i - Suc n)" by auto
  finally show ?case .
qed (auto dest: bit_imp_le_length)

section \<open>The table gives the remainder of the bit-by-bit computation\<close>

lemma crc_lookup_entry: "crc_lookup (crc_MakeTable p) b = crc_table_entry p b"
proof -
  have "unat b < 2 ^ LENGTH(8)" by (rule unsigned_less)
  then have "unat b < 2 ^ CHAR_BIT" by (simp add: CHAR_BIT_def)
  then show ?thesis by (simp add: crc_lookup_def crc_MakeTable_def crc_InitTable_def)
qed

lemma bit_ucast_byte:
  fixes b :: "8 word"
  assumes "8 \<le> LENGTH('a)"
  shows "bit (ucast b :: ('a::len) word) i \<longleftrightarrow> i < 8 \<and> bit b i"
proof -
  have "bit b i \<Longrightarrow> i < 8" using bit_imp_le_length [of b i] by simp
  then show ?thesis using assms by (auto simp: bit_ucast_iff)
qed

lemma bit_to_byte: "bit (ucast (x :: ('a::len) word) :: 8 word) i \<longleftrightarrow> i < 8 \<and> bit x i"
  by (auto simp: bit_ucast_iff)

lemma ucast_to_byte:
  assumes "8 \<le> LENGTH('a)"
  shows "(ucast (ucast (x :: ('a::len) word) :: 8 word) :: 'a word) = take_bit 8 x"
  by (rule bit_eqI) (auto simp: bit_ucast_byte [OF assms] bit_to_byte bit_take_bit_iff)

abbreviation crc_ok :: "('a::len) word crc_params \<Rightarrow> bool" where
  "crc_ok (p :: ('a::len) word crc_params) \<equiv>
     8 \<le> LENGTH('a) \<and> 1 \<le> cp_width p \<and> cp_width p \<le> LENGTH('a)"

lemma crc_right_step:
  fixes p :: "('a::len) word crc_params" and b :: "8 word"
  assumes ok: "crc_ok p" and refl: "cp_reflectInput p"
  shows "drop_bit CHAR_BIT r XOR crc_table_entry p (ucast (r XOR ucast b)) =
     (crc_bit_right (crc_Reflect (cp_polynomial p) (cp_width p)) ^^ CHAR_BIT) (r XOR ucast b)"
proof -
  let ?q = "crc_Reflect (cp_polynomial p) (cp_width p)" and ?x = "r XOR ucast b"
  let ?h = "push_bit 8 (drop_bit 8 ?x)" and ?w = "cp_width p"
  have bq: "\<not> bit ?q i" if "?w \<le> i" for i using that by (simp add: bit_crc_Reflect)
  have split: "?x = ?h XOR take_bit 8 ?x"
    by (rule bit_eqI) (auto simp: bit_simps)
  have low: "(crc_bit_right ?q ^^ 8) (take_bit 8 ?x) AND mask ?w = (crc_bit_right ?q ^^ 8) (take_bit 8 ?x)"
    by (rule crc_right_byte_mask [OF bq])
  have high: "(crc_bit_right ?q ^^ 8) ?h = drop_bit 8 ?h"
    by (rule crc_right_zero_bits) (unfold bit_push_bit_iff, simp)
  have db: "drop_bit 8 ?h = drop_bit 8 r"
  proof (rule bit_eqI)
    fix i
    have "8 \<le> LENGTH('a)" using ok by simp
    then show "bit (drop_bit 8 ?h) i = bit (drop_bit 8 r) i"
      unfolding bit_drop_bit_eq o_apply bit_push_bit_iff bit_xor_iff
      using bit_ucast_byte [where 'a = 'a, of b "8 + i"] by (auto dest: bit_imp_le_length)
  qed
  have "crc_table_entry p (ucast ?x) = (crc_bit_right ?q ^^ 8) (take_bit 8 ?x)"
    using ok refl low
    by (simp add: crc_table_entry_def crc_CalculateRemainder_def Let_def CHAR_BIT_def
        crc_BIT_MASK_mask ucast_to_byte)
  then have "drop_bit 8 r XOR crc_table_entry p (ucast ?x) =
      (crc_bit_right ?q ^^ 8) ?h XOR (crc_bit_right ?q ^^ 8) (take_bit 8 ?x)"
    by (simp only: high db)
  also have "\<dots> = (crc_bit_right ?q ^^ 8) ?x"
    by (subst (3) split) (rule funpow_xor [OF crc_right_xor, symmetric])
  finally show ?thesis by (simp only: CHAR_BIT_def)
qed

lemma crc_left_step:
  fixes p :: "('a::len) word crc_params" and b :: "8 word"
  assumes ok: "crc_ok p" and refl: "\<not> cp_reflectInput p" and w: "8 \<le> cp_width p"
  shows "take_bit (cp_width p) (push_bit CHAR_BIT r XOR
        crc_table_entry p (ucast (drop_bit (cp_width p - CHAR_BIT) r XOR ucast b))) =
     take_bit (cp_width p) ((crc_bit_left (cp_width p - 1) (cp_polynomial p) ^^ CHAR_BIT)
        (r XOR push_bit (cp_width p - CHAR_BIT) (ucast b)))"
proof -
  let ?w = "cp_width p" and ?g = "crc_bit_left (cp_width p - 1) (cp_polynomial p) ^^ 8"
  let ?x = "r XOR push_bit (?w - 8) (ucast b)"
  let ?t = "ucast (drop_bit (?w - 8) r XOR ucast b) :: 8 word"
  let ?T = "push_bit (?w - 8) (ucast ?t) :: 'a word"
  let ?l = "?x XOR ?T"
  have bt: "bit ?T i \<longleftrightarrow> ?w - 8 \<le> i \<and> i < ?w \<and> bit ?x i" for i
    using ok w
    by (auto simp: bit_push_bit_iff bit_ucast_byte bit_to_byte bit_xor_iff bit_drop_bit_eq
        dest: bit_imp_le_length)
  have bl: "bit ?l i \<longleftrightarrow> bit ?x i \<and> \<not> (?w - 8 \<le> i \<and> i < ?w)" for i
    unfolding bit_xor_iff [of ?x ?T] bt by blast
  have br: "bit ?x i = bit r i" if "i < ?w - 8" for i
    using that by (simp add: bit_xor_iff bit_push_bit_iff)
  have gl: "?g ?l = push_bit 8 ?l"
    by (rule crc_left_zero_bits) (use w in \<open>simp only: bl; auto\<close>)
  have pl: "take_bit ?w (push_bit 8 ?l) = take_bit ?w (push_bit 8 r)"
  proof (rule take_bit_eq_bits)
    fix i
    assume "i < ?w"
    then show "bit (push_bit 8 ?l) i = bit (push_bit 8 r) i"
      unfolding bit_push_bit_iff bl using br [of "i - 8"] w by auto
  qed
  have e: "crc_table_entry p ?t = ?g ?T AND mask ?w"
    using ok refl w
    by (simp add: crc_table_entry_def crc_CalculateRemainder_def Let_def CHAR_BIT_def crc_BIT_MASK_mask)
  have m: "take_bit ?w (a AND mask ?w) = take_bit ?w a" for a :: "'a word"
    by (simp add: take_bit_eq_mask and.assoc)
  have xs: "?x = ?l XOR ?T" by (simp only: xor.assoc xor_self_eq xor.right_neutral)
  have "?g ?x = ?g ?l XOR ?g ?T"
    by (subst (1) xs) (rule funpow_xor [OF crc_left_xor])
  then have "take_bit ?w (?g ?x) = take_bit ?w (push_bit 8 r) XOR take_bit ?w (?g ?T)"
    by (simp only: take_bit_xor gl pl)
  also have "\<dots> = take_bit ?w (push_bit 8 r XOR crc_table_entry p ?t)"
    by (simp only: e take_bit_xor m)
  finally show ?thesis by (simp only: CHAR_BIT_def)
qed

lemma crc_narrow_step:
  fixes p :: "('a::len) word crc_params" and b :: "8 word"
  assumes ok: "crc_ok p" and refl: "\<not> cp_reflectInput p" and w: "cp_width p < 8"
  shows "take_bit 8 (crc_table_entry p (ucast (r XOR ucast b))) =
     take_bit 8 ((crc_bit_left (CHAR_BIT - 1) (push_bit (CHAR_BIT - cp_width p) (cp_polynomial p))
        ^^ CHAR_BIT) (r XOR ucast b))"
proof -
  let ?s = "8 - cp_width p" and ?w = "cp_width p"
  let ?g = "crc_bit_left 7 (push_bit ?s (cp_polynomial p)) ^^ 8" and ?x = "r XOR ucast b"
  have e: "crc_table_entry p (ucast ?x) = push_bit ?s (drop_bit ?s (?g (take_bit 8 ?x)) AND mask ?w)"
    using ok refl w
    by (simp add: crc_table_entry_def crc_CalculateRemainder_def Let_def CHAR_BIT_def
        crc_BIT_MASK_mask ucast_to_byte)
  have low: "\<not> bit (?g y) i" if "i < ?s" for y i
    using crc_left_low_bits [of ?s "push_bit ?s (cp_polynomial p)" i, where h = 7 and n = 8 and r = y] that ok
    by (auto simp: bit_push_bit_iff)
  have cut: "take_bit 8 (push_bit ?s (drop_bit ?s (?g y) AND mask ?w)) = take_bit 8 (?g y)" for y
  proof (rule take_bit_eq_bits)
    fix i :: nat
    assume i: "i < 8"
    show "bit (push_bit ?s (drop_bit ?s (?g y) AND mask ?w)) i = bit (?g y) i"
    proof (cases "i < ?s")
      case True
      then show ?thesis unfolding bit_push_bit_iff using low by simp
    next
      case False
      then have "?s + (i - ?s) = i" "i - ?s < ?w" using i w by auto
      with False show ?thesis
        unfolding bit_push_bit_iff bit_and_iff bit_drop_bit_eq o_apply bit_mask_iff
        using i ok by auto
    qed
  qed
  have "take_bit 8 (?g (take_bit 8 ?x)) = take_bit 8 (?g ?x)"
    by (rule crc_left_cong) simp_all
  then show ?thesis by (simp only: e cut CHAR_BIT_def) simp
qed

lemma crc_table_right_eq:
  assumes "crc_ok p" "cp_reflectInput p"
  shows "crc_table_right (crc_MakeTable p) d r =
     crc_bytes_right (crc_Reflect (cp_polynomial p) (cp_width p)) d r"
  by (induction d arbitrary: r) (simp_all only: crc_table_right.simps crc_bytes_right.simps
      crc_lookup_entry crc_right_step [OF assms])

lemma take_bit_xor_cong: "take_bit k a = take_bit k b \<Longrightarrow> take_bit k (a XOR c) = take_bit k (b XOR c)"
  for a b c :: "('a::len) word"
  by (simp only: take_bit_xor)

lemma crc_bytes_left_cong:
  assumes "h < k" "take_bit k r = take_bit k r'"
  shows "take_bit k (crc_bytes_left h sh q d r) = take_bit k (crc_bytes_left h sh q d r')"
  using assms(2)
proof (induction d arbitrary: r r')
  case (Cons b d)
  show ?case
    unfolding crc_bytes_left.simps
    by (intro Cons.IH crc_left_cong [OF assms(1)] take_bit_xor_cong Cons.prems)
qed simp

lemma crc_table_left_eq:
  assumes "crc_ok p" "\<not> cp_reflectInput p" "8 \<le> cp_width p"
    and "take_bit (cp_width p) r = take_bit (cp_width p) r'"
  shows "take_bit (cp_width p) (crc_table_left (cp_width p - CHAR_BIT) (crc_MakeTable p) d r) =
     take_bit (cp_width p)
       (crc_bytes_left (cp_width p - 1) (cp_width p - CHAR_BIT) (cp_polynomial p) d r')"
  using assms(4)
proof (induction d arbitrary: r r')
  case (Cons b d)
  have h: "cp_width p - 1 < cp_width p" using assms(3) by simp
  show ?case
    unfolding crc_table_left.simps crc_bytes_left.simps crc_lookup_entry
    by (intro Cons.IH trans [OF crc_left_step [OF assms(1-3)]] crc_left_cong [OF h]
        take_bit_xor_cong Cons.prems)
qed simp

lemma crc_table_narrow_eq:
  assumes "crc_ok p" "\<not> cp_reflectInput p" "cp_width p < 8"
    and "take_bit 8 r = take_bit 8 r'"
  shows "take_bit 8 (crc_table_narrow (crc_MakeTable p) d r) =
     take_bit 8 (crc_bytes_left (CHAR_BIT - 1) 0
       (push_bit (CHAR_BIT - cp_width p) (cp_polynomial p)) d r')"
  using assms(4)
proof (induction d arbitrary: r r')
  case (Cons b d)
  have h: "CHAR_BIT - 1 < 8" by (simp add: CHAR_BIT_def)
  show ?case
    unfolding crc_table_narrow.simps crc_bytes_left.simps crc_lookup_entry push_bit_0_id id_apply
    by (intro Cons.IH trans [OF crc_narrow_step [OF assms(1-3)]] crc_left_cong [OF h]
        take_bit_xor_cong Cons.prems)
qed simp

lemma take_bit_drop_cong:
  "take_bit k a = take_bit k b \<Longrightarrow> m + n \<le> k \<Longrightarrow> take_bit m (drop_bit n a) = take_bit m (drop_bit n b)"
  for a b :: "('a::len) word"
  by (rule take_bit_eq_bits) (simp add: bit_drop_bit_eq take_bit_bits [of k a b])

lemma crc_remainder_table:
  assumes "crc_ok p"
  shows "take_bit (cp_width p) (crc_CalculateRemainder_table d (crc_MakeTable p) r) =
     take_bit (cp_width p) (crc_CalculateRemainder d p r)"
proof -
  have par: "ct_parameters (crc_MakeTable p) = p" by (simp add: crc_MakeTable_def)
  consider "cp_reflectInput p" | "\<not> cp_reflectInput p" "8 \<le> cp_width p"
    | "\<not> cp_reflectInput p" "cp_width p < 8" by linarith
  then show ?thesis
  proof cases
    case 1
    then show ?thesis
      by (simp add: crc_CalculateRemainder_table_def crc_CalculateRemainder_def Let_def par
          crc_table_right_eq [OF assms])
  next
    case 2
    from crc_table_left_eq [OF assms 2 refl] 2 show ?thesis
      by (simp add: crc_CalculateRemainder_table_def crc_CalculateRemainder_def Let_def par CHAR_BIT_def)
  next
    case 3
    from take_bit_drop_cong [OF crc_table_narrow_eq [OF assms 3 refl], of "cp_width p" "8 - cp_width p"] 3
    show ?thesis
      by (simp add: crc_CalculateRemainder_table_def crc_CalculateRemainder_def Let_def par CHAR_BIT_def)
  qed
qed

section \<open>The final step\<close>

lemma crc_Reflect_cong:
  fixes a b :: "('a::len) word"
  assumes "take_bit w a = take_bit w b"
  shows "crc_Reflect a w = crc_Reflect b w"
proof (rule bit_eqI)
  fix i
  show "bit (crc_Reflect a w) i = bit (crc_Reflect b w) i"
    unfolding bit_crc_Reflect using take_bit_bits [OF assms, of "w - 1 - i"] by auto
qed

lemma crc_Reflect_twice:
  fixes a :: "('a::len) word"
  assumes "w \<le> LENGTH('a)"
  shows "crc_Reflect (crc_Reflect a w) w = take_bit w a"
proof (rule bit_eqI)
  fix i
  show "bit (crc_Reflect (crc_Reflect a w) w) i = bit (take_bit w a) i"
    unfolding bit_crc_Reflect bit_take_bit_iff using assms by (auto dest: bit_imp_le_length)
qed

lemma crc_Finalize_cong:
  fixes a b :: "('a::len) word"
  assumes "1 \<le> w" "w \<le> LENGTH('a)" "take_bit w a = take_bit w b"
  shows "crc_Finalize w a x f = crc_Finalize w b x f"
  using assms crc_Reflect_cong [OF assms(3)]
  by (auto simp: crc_Finalize_def crc_BIT_MASK_mask take_bit_xor simp flip: take_bit_eq_mask)

lemma crc_Finalize_Undo:
  fixes r :: "('a::len) word"
  assumes w: "1 \<le> w" "w \<le> LENGTH('a)" and x: "take_bit w x = x"
  shows "crc_UndoFinalize w (crc_Finalize w r x f) x f = take_bit w r"
proof -
  let ?c = "if f then crc_Reflect r w else r"
  have "((?c XOR x) AND mask w AND mask w) XOR x = take_bit w ?c"
    by (simp only: and.assoc and.idem take_bit_xor x xor.assoc xor_self_eq xor.right_neutral flip: take_bit_eq_mask)
  moreover have "crc_Reflect (take_bit w (crc_Reflect r w)) w = take_bit w r"
    using crc_Reflect_cong [of w "take_bit w (crc_Reflect r w)" "crc_Reflect r w"]
    by (simp add: crc_Reflect_twice w)
  ultimately show ?thesis
    by (auto simp: crc_UndoFinalize_def crc_Finalize_def crc_BIT_MASK_mask [OF w] Let_def and.assoc
        split: if_splits)
qed

section \<open>A computation in two parts\<close>

text \<open>Parameters that fit their width: the initial value and the final XOR have no bit above it.\<close>

definition crc_wf :: "('a::len) word crc_params \<Rightarrow> bool" where
  "crc_wf (p :: ('a::len) word crc_params) \<longleftrightarrow>
     crc_ok p \<and> take_bit (cp_width p) (cp_initialValue p) = cp_initialValue p \<and>
     take_bit (cp_width p) (cp_finalXOR p) = cp_finalXOR p"

lemma crc_bytes_right_append:
  "crc_bytes_right q (d1 @ d2) r = crc_bytes_right q d2 (crc_bytes_right q d1 r)"
  by (induction d1 arbitrary: r) simp_all

lemma crc_bytes_left_append:
  "crc_bytes_left h s q (d1 @ d2) r = crc_bytes_left h s q d2 (crc_bytes_left h s q d1 r)"
  by (induction d1 arbitrary: r) simp_all

lemma crc_bytes_right_small:
  fixes q :: "('a::len) word"
  assumes "8 \<le> LENGTH('a)" "\<And>i. w \<le> i \<Longrightarrow> \<not> bit q i" "\<And>i. w \<le> i \<Longrightarrow> \<not> bit r i"
  shows "w \<le> i \<Longrightarrow> \<not> bit (crc_bytes_right q d r) i"
  using assms(3)
proof (induction d arbitrary: r)
  case (Cons b d)
  have "\<not> bit ((crc_bit_right q ^^ CHAR_BIT) (r XOR ucast b)) j" if j: "w \<le> j" for j
  proof -
    have "bit ((crc_bit_right q ^^ 8) (r XOR ucast b)) j \<longleftrightarrow> bit (r XOR ucast b) (j + 8)"
      by (rule crc_right_high_bits [OF assms(2) j])
    also have "\<dots> \<longleftrightarrow> False"
      using Cons.prems(2) [of "j + 8"] j by (simp add: bit_xor_iff bit_ucast_byte [OF assms(1)])
    finally show ?thesis by (simp only: CHAR_BIT_def simp_thms)
  qed
  from Cons.IH [OF Cons.prems(1) this] show ?case by simp
qed simp

lemma crc_bytes_left_low:
  fixes q :: "('a::len) word"
  assumes "\<forall>i < k. \<not> bit q i" "k \<le> 8" "\<forall>i < k. \<not> bit r i"
  shows "\<forall>i < k. \<not> bit (crc_bytes_left h s q d r) i"
  using assms(3)
proof (induction d arbitrary: r)
  case (Cons b d)
  have "\<forall>i < k. \<not> bit ((crc_bit_left h q ^^ CHAR_BIT) (r XOR push_bit s (ucast b))) i"
    using crc_left_low_bits [OF assms(1)] assms(2) by (auto simp: CHAR_BIT_def)
  from Cons.IH [OF this] show ?case by simp
qed simp

lemma take_bit_bitsE: "take_bit w r = r \<Longrightarrow> w \<le> i \<Longrightarrow> \<not> bit r i"
  for r :: "('a::len) word"
  by (metis bit_take_bit_iff not_less)

lemma crc_remainder_small:
  fixes p :: "('a::len) word crc_params"
  assumes "crc_ok p" "cp_reflectInput p" "take_bit (cp_width p) r = r"
  shows "take_bit (cp_width p) (crc_CalculateRemainder d p r) = crc_CalculateRemainder d p r"
proof -
  let ?q = "crc_Reflect (cp_polynomial p) (cp_width p)"
  have "\<not> bit (crc_bytes_right ?q d r) i" if "cp_width p \<le> i" for i
    by (rule crc_bytes_right_small [OF _ _ take_bit_bitsE [OF assms(3)] that])
      (use assms(1) in \<open>auto simp: bit_crc_Reflect\<close>)
  then have "take_bit (cp_width p) (crc_bytes_right ?q d r) = crc_bytes_right ?q d r"
    by (intro bit_eqI) (auto simp: bit_take_bit_iff not_less [symmetric])
  then show ?thesis using assms(2) by (simp add: crc_CalculateRemainder_def Let_def)
qed

lemma crc_remainder_cong:
  fixes p :: "('a::len) word crc_params"
  assumes "crc_ok p" "\<not> cp_reflectInput p" "take_bit (cp_width p) r = take_bit (cp_width p) r'"
  shows "take_bit (cp_width p) (crc_CalculateRemainder d p r) =
     take_bit (cp_width p) (crc_CalculateRemainder d p r')"
proof (cases "8 \<le> cp_width p")
  case True
  then have "cp_width p - 1 < cp_width p" by simp
  from crc_bytes_left_cong [OF this assms(3)] True assms(2) show ?thesis
    by (simp add: crc_CalculateRemainder_def Let_def CHAR_BIT_def)
next
  case False
  let ?s = "8 - cp_width p"
  have "take_bit 8 (push_bit ?s r) = take_bit 8 (push_bit ?s r')"
  proof (rule take_bit_eq_bits)
    fix i :: nat
    assume "i < 8"
    then have "?s \<le> i \<Longrightarrow> i - ?s < cp_width p" using False by auto
    then show "bit (push_bit ?s r) i = bit (push_bit ?s r') i"
      unfolding bit_push_bit_iff using take_bit_bits [OF assms(3)] by auto
  qed
  from crc_bytes_left_cong [OF _ this, of 7]
  have "take_bit 8 (crc_bytes_left 7 0 q d (push_bit ?s r)) = take_bit 8 (crc_bytes_left 7 0 q d (push_bit ?s r'))"
    for q by simp
  from take_bit_drop_cong [OF this, of "cp_width p" ?s] False assms(2) show ?thesis
    by (simp add: crc_CalculateRemainder_def Let_def CHAR_BIT_def)
qed

lemma crc_remainder_append:
  fixes p :: "('a::len) word crc_params"
  assumes "crc_ok p"
  shows "take_bit (cp_width p) (crc_CalculateRemainder d2 p (crc_CalculateRemainder d1 p r)) =
     take_bit (cp_width p) (crc_CalculateRemainder (d1 @ d2) p r)"
proof -
  consider "cp_reflectInput p \<or> 8 \<le> cp_width p" | "\<not> cp_reflectInput p" "cp_width p < 8" by linarith
  then show ?thesis
  proof cases
    case 1
    then show ?thesis
      by (auto simp: crc_CalculateRemainder_def Let_def CHAR_BIT_def crc_bytes_right_append
          crc_bytes_left_append)
  next
    case 2
    let ?s = "8 - cp_width p" and ?q = "push_bit (8 - cp_width p) (cp_polynomial p)"
    let ?y = "crc_bytes_left 7 0 ?q d1 (push_bit ?s r)"
    have "\<forall>i < ?s. \<not> bit ?y i" by (rule crc_bytes_left_low) (auto simp: bit_push_bit_iff)
    then have "push_bit ?s (drop_bit ?s ?y) = ?y"
    proof (intro bit_word_eqI)
      fix n
      assume "n < LENGTH('a)" and low: "\<forall>i < ?s. \<not> bit ?y i"
      then show "bit (push_bit ?s (drop_bit ?s ?y)) n = bit ?y n"
        unfolding bit_push_bit_iff bit_drop_bit_eq o_apply by (cases "n < ?s") auto
    qed
    then show ?thesis
      using 2 by (simp add: crc_CalculateRemainder_def Let_def CHAR_BIT_def crc_bytes_left_append)
  qed
qed

end
