(* ===== verification/CRCParams.thy ===== *)
theory CRCParams
  imports CRC
begin

text \<open>
  The parameter sets of grpc/part2/src/CRC.h, their check values, and the two results about the
  computation: the lookup table changes nothing, and a CRC can be computed in parts.
\<close>

section \<open>The parameter sets of the library\<close>

definition crc_make :: "nat \<Rightarrow> ('a::len) word \<Rightarrow> 'a word \<Rightarrow> 'a word \<Rightarrow> bool \<Rightarrow> bool \<Rightarrow> 'a word crc_params" where
  "crc_make w poly init fxor ri ro =
     \<lparr>cp_width = w, cp_polynomial = poly, cp_initialValue = init, cp_finalXOR = fxor,
      cp_reflectInput = ri, cp_reflectOutput = ro\<rparr>"

definition CRC_4_ITU :: "8 word crc_params" where
  "CRC_4_ITU = crc_make 4 0x3 0x0 0x0 True True"

definition CRC_5_EPC :: "8 word crc_params" where
  "CRC_5_EPC = crc_make 5 0x9 0x9 0x0 False False"

definition CRC_5_ITU :: "8 word crc_params" where
  "CRC_5_ITU = crc_make 5 0x15 0x0 0x0 True True"

definition CRC_5_USB :: "8 word crc_params" where
  "CRC_5_USB = crc_make 5 0x5 0x1f 0x1f True True"

definition CRC_6_CDMA2000A :: "8 word crc_params" where
  "CRC_6_CDMA2000A = crc_make 6 0x27 0x3f 0x0 False False"

definition CRC_6_CDMA2000B :: "8 word crc_params" where
  "CRC_6_CDMA2000B = crc_make 6 0x7 0x3f 0x0 False False"

definition CRC_6_ITU :: "8 word crc_params" where
  "CRC_6_ITU = crc_make 6 0x3 0x0 0x0 True True"

definition CRC_7 :: "8 word crc_params" where
  "CRC_7 = crc_make 7 0x9 0x0 0x0 False False"

definition CRC_8 :: "8 word crc_params" where
  "CRC_8 = crc_make 8 0x7 0x0 0x0 False False"

definition CRC_8_EBU :: "8 word crc_params" where
  "CRC_8_EBU = crc_make 8 0x1d 0xff 0x0 True True"

definition CRC_8_MAXIM :: "8 word crc_params" where
  "CRC_8_MAXIM = crc_make 8 0x31 0x0 0x0 True True"

definition CRC_8_WCDMA :: "8 word crc_params" where
  "CRC_8_WCDMA = crc_make 8 0x9b 0x0 0x0 True True"

definition CRC_10 :: "16 word crc_params" where
  "CRC_10 = crc_make 10 0x233 0x0 0x0 False False"

definition CRC_10_CDMA2000 :: "16 word crc_params" where
  "CRC_10_CDMA2000 = crc_make 10 0x3d9 0x3ff 0x0 False False"

definition CRC_11 :: "16 word crc_params" where
  "CRC_11 = crc_make 11 0x385 0x1a 0x0 False False"

definition CRC_12_CDMA2000 :: "16 word crc_params" where
  "CRC_12_CDMA2000 = crc_make 12 0xf13 0xfff 0x0 False False"

definition CRC_12_DECT :: "16 word crc_params" where
  "CRC_12_DECT = crc_make 12 0x80f 0x0 0x0 False False"

definition CRC_12_UMTS :: "16 word crc_params" where
  "CRC_12_UMTS = crc_make 12 0x80f 0x0 0x0 False True"

definition CRC_13_BBC :: "16 word crc_params" where
  "CRC_13_BBC = crc_make 13 0x1cf5 0x0 0x0 False False"

definition CRC_15 :: "16 word crc_params" where
  "CRC_15 = crc_make 15 0x4599 0x0 0x0 False False"

definition CRC_15_MPT1327 :: "16 word crc_params" where
  "CRC_15_MPT1327 = crc_make 15 0x6815 0x0 0x1 False False"

definition CRC_16_ARC :: "16 word crc_params" where
  "CRC_16_ARC = crc_make 16 0x8005 0x0 0x0 True True"

definition CRC_16_BUYPASS :: "16 word crc_params" where
  "CRC_16_BUYPASS = crc_make 16 0x8005 0x0 0x0 False False"

definition CRC_16_CCITTFALSE :: "16 word crc_params" where
  "CRC_16_CCITTFALSE = crc_make 16 0x1021 0xffff 0x0 False False"

definition CRC_16_CDMA2000 :: "16 word crc_params" where
  "CRC_16_CDMA2000 = crc_make 16 0xc867 0xffff 0x0 False False"

definition CRC_16_CMS :: "16 word crc_params" where
  "CRC_16_CMS = crc_make 16 0x8005 0xffff 0x0 False False"

definition CRC_16_DECTR :: "16 word crc_params" where
  "CRC_16_DECTR = crc_make 16 0x589 0x0 0x1 False False"

definition CRC_16_DECTX :: "16 word crc_params" where
  "CRC_16_DECTX = crc_make 16 0x589 0x0 0x0 False False"

definition CRC_16_DNP :: "16 word crc_params" where
  "CRC_16_DNP = crc_make 16 0x3d65 0x0 0xffff True True"

definition CRC_16_GENIBUS :: "16 word crc_params" where
  "CRC_16_GENIBUS = crc_make 16 0x1021 0xffff 0xffff False False"

definition CRC_16_KERMIT :: "16 word crc_params" where
  "CRC_16_KERMIT = crc_make 16 0x1021 0x0 0x0 True True"

definition CRC_16_MAXIM :: "16 word crc_params" where
  "CRC_16_MAXIM = crc_make 16 0x8005 0x0 0xffff True True"

definition CRC_16_MODBUS :: "16 word crc_params" where
  "CRC_16_MODBUS = crc_make 16 0x8005 0xffff 0x0 True True"

definition CRC_16_T10DIF :: "16 word crc_params" where
  "CRC_16_T10DIF = crc_make 16 0x8bb7 0x0 0x0 False False"

definition CRC_16_USB :: "16 word crc_params" where
  "CRC_16_USB = crc_make 16 0x8005 0xffff 0xffff True True"

definition CRC_16_X25 :: "16 word crc_params" where
  "CRC_16_X25 = crc_make 16 0x1021 0xffff 0xffff True True"

definition CRC_16_XMODEM :: "16 word crc_params" where
  "CRC_16_XMODEM = crc_make 16 0x1021 0x0 0x0 False False"

definition CRC_17_CAN :: "32 word crc_params" where
  "CRC_17_CAN = crc_make 17 0x1685b 0x0 0x0 False False"

definition CRC_21_CAN :: "32 word crc_params" where
  "CRC_21_CAN = crc_make 21 0x102899 0x0 0x0 False False"

definition CRC_24 :: "32 word crc_params" where
  "CRC_24 = crc_make 24 0x864cfb 0xb704ce 0x0 False False"

definition CRC_24_FLEXRAYA :: "32 word crc_params" where
  "CRC_24_FLEXRAYA = crc_make 24 0x5d6dcb 0xfedcba 0x0 False False"

definition CRC_24_FLEXRAYB :: "32 word crc_params" where
  "CRC_24_FLEXRAYB = crc_make 24 0x5d6dcb 0xabcdef 0x0 False False"

definition CRC_30 :: "32 word crc_params" where
  "CRC_30 = crc_make 30 0x2030b9c7 0x3fffffff 0x0 False False"

definition CRC_32 :: "32 word crc_params" where
  "CRC_32 = crc_make 32 0x4c11db7 0xffffffff 0xffffffff True True"

definition CRC_32_BZIP2 :: "32 word crc_params" where
  "CRC_32_BZIP2 = crc_make 32 0x4c11db7 0xffffffff 0xffffffff False False"

definition CRC_32_C :: "32 word crc_params" where
  "CRC_32_C = crc_make 32 0x1edc6f41 0xffffffff 0xffffffff True True"

definition CRC_32_MPEG2 :: "32 word crc_params" where
  "CRC_32_MPEG2 = crc_make 32 0x4c11db7 0xffffffff 0x0 False False"

definition CRC_32_POSIX :: "32 word crc_params" where
  "CRC_32_POSIX = crc_make 32 0x4c11db7 0x0 0xffffffff False False"

definition CRC_32_Q :: "32 word crc_params" where
  "CRC_32_Q = crc_make 32 0x814141ab 0x0 0x0 False False"

definition CRC_40_GSM :: "64 word crc_params" where
  "CRC_40_GSM = crc_make 40 0x4820009 0x0 0xffffffffff False False"

definition CRC_64 :: "64 word crc_params" where
  "CRC_64 = crc_make 64 0x42f0e1eba9ea3693 0x0 0x0 False False"

text \<open>The input of the check values in the comments of the code: the characters 1 to 9.\<close>

definition crc_check_input :: "8 word list" where
  "crc_check_input = [49, 50, 51, 52, 53, 54, 55, 56, 57]"

section \<open>Check values\<close>

text \<open>Evaluation of a CRC on integers.\<close>

definition int_right :: "int \<Rightarrow> int \<Rightarrow> int" where
  "int_right p r = (if odd r then (r div 2) XOR p else r div 2)"

definition int_left :: "int \<Rightarrow> int \<Rightarrow> int \<Rightarrow> int" where
  "int_left m p r = (if odd (r div m) then (2 * r) XOR p else 2 * r)"

definition eight_times :: "('a \<Rightarrow> 'a) \<Rightarrow> 'a \<Rightarrow> 'a" where
  "eight_times f x = f (f (f (f (f (f (f (f x)))))))"

fun int_bytes_right :: "int \<Rightarrow> int list \<Rightarrow> int \<Rightarrow> int" where
  "int_bytes_right p [] r = r"
| "int_bytes_right p (b # bs) r = int_bytes_right p bs (eight_times (int_right p) (r XOR b))"

fun int_bytes_left :: "int \<Rightarrow> int \<Rightarrow> int \<Rightarrow> int list \<Rightarrow> int \<Rightarrow> int" where
  "int_bytes_left m s p [] r = r"
| "int_bytes_left m s p (b # bs) r = int_bytes_left m s p bs (eight_times (int_left m p) (r XOR (s * b)))"

fun int_reflect :: "nat \<Rightarrow> int \<Rightarrow> int \<Rightarrow> int" where
  "int_reflect 0 rv v = rv"
| "int_reflect (Suc n) rv v = int_reflect n (2 * rv + v mod 2) (v div 2)"

lemma eight_times_funpow: "f ^^ CHAR_BIT = eight_times f"
  by (rule ext) (simp add: CHAR_BIT_def eight_times_def eval_nat_numeral)

lemma word_xor_int: "(word_of_int a XOR word_of_int b :: ('a::len) word) = word_of_int (a XOR b)"
  by (rule bit_eqI) (auto simp: bit_word_of_int_iff bit_xor_iff)

lemma word_half_int:
  assumes "0 \<le> r" "r < 2 ^ LENGTH('a)"
  shows "drop_bit 1 (word_of_int r :: ('a::len) word) = word_of_int (r div 2)"
proof (rule bit_eqI)
  fix i
  have "bit r (Suc i) \<Longrightarrow> Suc i < LENGTH('a)"
    using assms by (metis bit_take_bit_iff take_bit_int_eq_self)
  then show "bit (drop_bit 1 (word_of_int r :: 'a word)) i \<longleftrightarrow> bit (word_of_int (r div 2) :: 'a word) i"
    unfolding bit_drop_bit_eq o_apply bit_word_of_int_iff bit_Suc [symmetric] by auto
qed

lemma crc_bit_right_int:
  assumes "0 \<le> r" "r < 2 ^ LENGTH('a)"
  shows "crc_bit_right (word_of_int p) (word_of_int r) = (word_of_int (int_right p r) :: ('a::len) word)"
proof -
  have "bit (word_of_int r :: 'a word) 0 \<longleftrightarrow> odd r"
    unfolding bit_word_of_int_iff by (simp add: bit_0)
  then show ?thesis
    by (simp only: crc_bit_right_alt int_right_def word_half_int [OF assms] if_distrib [of word_of_int])
      (simp add: word_xor_int)
qed

lemma int_right_range:
  "0 \<le> p \<and> p < 2 ^ n \<Longrightarrow> 0 \<le> r \<and> r < 2 ^ n \<Longrightarrow> 0 \<le> int_right p r \<and> int_right p r < 2 ^ n"
  unfolding int_right_def by (auto intro!: XOR_upper)

lemma crc_eight_right_int:
  assumes "0 \<le> p \<and> p < 2 ^ LENGTH('a)" "0 \<le> r \<and> r < 2 ^ LENGTH('a)"
  shows "eight_times (crc_bit_right (word_of_int p)) (word_of_int r :: ('a::len) word) =
       word_of_int (eight_times (int_right p) r) \<and>
     0 \<le> eight_times (int_right p) r \<and> eight_times (int_right p) r < 2 ^ LENGTH('a)"
proof -
  note R = int_right_range [OF assms(1)]
  note r1 = R [OF assms(2)]
  note r2 = R [OF r1] note r3 = R [OF r2] note r4 = R [OF r3]
  note r5 = R [OF r4] note r6 = R [OF r5] note r7 = R [OF r6]
  show ?thesis
    using R [OF r7] assms r1 r2 r3 r4 r5 r6 r7 by (simp add: eight_times_def crc_bit_right_int)
qed

lemma crc_bytes_right_int:
  assumes "8 \<le> LENGTH('a)" "0 \<le> p \<and> p < 2 ^ LENGTH('a)" "0 \<le> r \<and> r < 2 ^ LENGTH('a)"
  shows "crc_bytes_right (word_of_int p) d (word_of_int r :: ('a::len) word) =
     word_of_int (int_bytes_right p (map uint d) r)"
  using assms(3)
proof (induction d arbitrary: r)
  case (Cons b d)
  have u: "ucast b = (word_of_int (uint b) :: 'a word)" by (rule ucast_eq)
  have "uint b < 2 ^ LENGTH(8)" by (rule unsigned_less)
  also have "(2::int) ^ LENGTH(8) \<le> 2 ^ LENGTH('a)" using assms(1) by (intro power_increasing) auto
  finally have "r XOR uint b < 2 ^ LENGTH('a)" using Cons.prems by (auto intro: XOR_upper)
  then have "0 \<le> r XOR uint b \<and> r XOR uint b < 2 ^ LENGTH('a)" using Cons.prems by simp
  note E = crc_eight_right_int [OF assms(2) this]
  show ?case
    unfolding crc_bytes_right.simps int_bytes_right.simps list.map eight_times_funpow u word_xor_int
      conjunct1 [OF E]
    by (rule Cons.IH [OF conjunct2 [OF E]])
qed simp

lemma crc_bit_left_int:
  assumes "h < LENGTH('a)"
  shows "crc_bit_left h (word_of_int p) (word_of_int r) = (word_of_int (int_left (2 ^ h) p r) :: ('a::len) word)"
proof -
  have s: "push_bit 1 (word_of_int r :: 'a word) = word_of_int (2 * r)" by simp
  have b: "bit (word_of_int r :: 'a word) h \<longleftrightarrow> odd (r div 2 ^ h)"
    unfolding bit_word_of_int_iff using assms by (simp add: bit_iff_odd)
  show ?thesis
    unfolding crc_bit_left_alt int_left_def s b by (cases "odd (r div 2 ^ h)") (simp_all only: if_True if_False
      word_xor_int xor.right_neutral not_True_eq_False not_False_eq_True)
qed

lemma word_push_int: "push_bit s (word_of_int k) = (word_of_int (2 ^ s * k) :: ('a::len) word)"
  by (simp add: push_bit_eq_mult mult.commute)

lemma crc_bytes_left_int:
  assumes "h < LENGTH('a)"
  shows "crc_bytes_left h s (word_of_int p) d (word_of_int r :: ('a::len) word) =
     word_of_int (int_bytes_left (2 ^ h) (2 ^ s) p (map uint d) r)"
proof (induction d arbitrary: r)
  case (Cons b d)
  have u: "push_bit s (ucast b) = (word_of_int (2 ^ s * uint b) :: 'a word)"
    unfolding ucast_eq by (rule word_push_int)
  have e: "eight_times (crc_bit_left h (word_of_int p)) (word_of_int x :: 'a word) =
      word_of_int (eight_times (int_left (2 ^ h) p) x)" for x
    by (simp only: eight_times_def crc_bit_left_int [OF assms])
  show ?case
    unfolding crc_bytes_left.simps int_bytes_left.simps list.map eight_times_funpow u word_xor_int e
    by (rule Cons.IH)
qed simp

lemma crc_reflect_loop_int:
  assumes "0 \<le> v" "v < 2 ^ LENGTH('a)"
  shows "crc_reflect_loop n (word_of_int rv) (word_of_int v :: ('a::len) word) =
     word_of_int (int_reflect n rv v)"
  using assms
proof (induction n arbitrary: rv v)
  case (Suc n)
  have s: "push_bit 1 (word_of_int rv) OR (word_of_int v AND 1) = (word_of_int (2 * rv + v mod 2) :: 'a word)"
  proof (rule bit_word_eqI)
    fix i
    assume i: "i < LENGTH('a)"
    have "bit (2 * rv + v mod 2) i \<longleftrightarrow> (if i = 0 then bit v 0 else bit rv (i - 1))"
      by (cases i) (auto simp: bit_0 bit_Suc)
    with i show "bit (push_bit 1 (word_of_int rv) OR (word_of_int v AND 1) :: 'a word) i \<longleftrightarrow>
        bit (word_of_int (2 * rv + v mod 2) :: 'a word) i"
      unfolding bit_crc_reflect_shift bit_word_of_int_iff by (simp only: simp_thms len_gt_0) auto
  qed
  have "v div 2 < 2 ^ LENGTH('a)" using Suc.prems by linarith
  then show ?case
    unfolding crc_reflect_loop.simps int_reflect.simps s word_half_int [OF Suc.prems]
    using Suc.prems by (intro Suc.IH) auto
qed simp

lemma int_reflect_range:
  "0 \<le> rv \<and> rv < 2 ^ k \<Longrightarrow> 0 \<le> int_reflect n rv v \<and> int_reflect n rv v < 2 ^ (n + k)"
proof (induction n arbitrary: rv v k)
  case (Suc n)
  have "v mod 2 \<in> {0, 1}" by auto
  then have "0 \<le> 2 * rv + v mod 2 \<and> 2 * rv + v mod 2 < 2 ^ Suc k" using Suc.prems by auto
  from Suc.IH [OF this] show ?case by simp
qed simp

definition int_crc ::
  "nat \<Rightarrow> nat \<Rightarrow> int \<Rightarrow> int \<Rightarrow> int \<Rightarrow> bool \<Rightarrow> bool \<Rightarrow> int list \<Rightarrow> int" where
  "int_crc l w p i x ri ro d =
     (let r = (if ri then int_bytes_right (int_reflect w 0 p) d i
               else if 8 \<le> w then int_bytes_left (2 ^ (w - 1)) (2 ^ (w - 8)) p d i
               else int_bytes_left (2 ^ 7) (2 ^ 0) (2 ^ (8 - w) * p) d (2 ^ (8 - w) * i)
                      mod 2 ^ l div 2 ^ (8 - w))
      in ((if ri \<noteq> ro then int_reflect w 0 (r mod 2 ^ l) else r) XOR x) mod 2 ^ w)"

lemma word_of_int_mod: "(word_of_int k :: ('a::len) word) = word_of_int (k mod 2 ^ LENGTH('a))"
  by (simp add: word_of_int_eq_iff flip: take_bit_eq_mod)

lemma crc_Reflect_int:
  "crc_Reflect (word_of_int v :: ('a::len) word) w = word_of_int (int_reflect w 0 (v mod 2 ^ LENGTH('a)))"
  by (subst word_of_int_mod) (simp add: crc_Reflect_def crc_reflect_loop_int [where rv = 0, simplified])

lemma word_drop_int:
  "drop_bit s (word_of_int k :: ('a::len) word) = word_of_int (k mod 2 ^ LENGTH('a) div 2 ^ s)"
  by (rule bit_word_eqI)
    (auto simp: bit_drop_bit_eq bit_word_of_int_iff bit_take_bit_iff ac_simps
      simp flip: take_bit_eq_mod drop_bit_eq_div)

lemma word_take_int:
  assumes "w \<le> LENGTH('a)"
  shows "take_bit w (word_of_int k :: ('a::len) word) = word_of_int (k mod 2 ^ w)"
  by (rule bit_word_eqI)
    (auto simp: bit_word_of_int_iff bit_take_bit_iff simp flip: take_bit_eq_mod)

lemma crc_Calculate_int:
  assumes "8 \<le> LENGTH('a)" "1 \<le> w" "w \<le> LENGTH('a)"
    and p: "0 \<le> p" "p < 2 ^ LENGTH('a)" and i: "0 \<le> i" "i < 2 ^ LENGTH('a)"
  shows "crc_Calculate d (crc_make w (word_of_int p) (word_of_int i) (word_of_int x) ri ro) =
     (word_of_int (int_crc LENGTH('a) w p i x ri ro (map uint d)) :: ('a::len) word)"
proof -
  let ?P = "crc_make w (word_of_int p) (word_of_int i) (word_of_int x) ri ro :: 'a word crc_params"
  let ?r = "if ri then int_bytes_right (int_reflect w 0 p) (map uint d) i
     else if 8 \<le> w then int_bytes_left (2 ^ (w - 1)) (2 ^ (w - 8)) p (map uint d) i
     else int_bytes_left (2 ^ 7) (2 ^ 0) (2 ^ (8 - w) * p) (map uint d) (2 ^ (8 - w) * i)
            mod 2 ^ LENGTH('a) div 2 ^ (8 - w)"
  have "int_reflect w 0 p < 2 ^ w" "0 \<le> int_reflect w 0 p" using int_reflect_range [of 0 0 w p] by auto
  moreover have "(2::int) ^ w \<le> 2 ^ LENGTH('a)" using assms(3) by (intro power_increasing) auto
  ultimately have q: "0 \<le> int_reflect w 0 p \<and> int_reflect w 0 p < 2 ^ LENGTH('a)" by linarith
  have R: "crc_Reflect (word_of_int p :: 'a word) w = word_of_int (int_reflect w 0 p)"
    using p by (simp add: crc_Reflect_int)
  have rem: "crc_CalculateRemainder d ?P (word_of_int i) = word_of_int ?r"
  proof -
    consider "ri" | "\<not> ri" "8 \<le> w" | "\<not> ri" "\<not> 8 \<le> w" by blast
    then show ?thesis
    proof cases
      case 1
      then show ?thesis
        using i by (simp add: crc_CalculateRemainder_def crc_make_def R crc_bytes_right_int [OF assms(1) q])
    next
      case 2
      have "w - 1 < LENGTH('a)" using assms by linarith
      from crc_bytes_left_int [OF this] 2 show ?thesis
        by (simp add: crc_CalculateRemainder_def crc_make_def CHAR_BIT_def)
    next
      case 3
      have "8 - 1 < LENGTH('a)" using assms by linarith
      then have B: "drop_bit (8 - w) (crc_bytes_left (8 - 1) 0 (push_bit (8 - w) (word_of_int p)) d
            (push_bit (8 - w) (word_of_int i :: 'a word))) =
          word_of_int (int_bytes_left (2 ^ (8 - 1)) (2 ^ 0) (2 ^ (8 - w) * p) (map uint d)
            (2 ^ (8 - w) * i) mod 2 ^ LENGTH('a) div 2 ^ (8 - w))"
        by (simp only: word_push_int crc_bytes_left_int word_drop_int)
      have seven: "8 - 1 = (7::nat)" by simp
      show ?thesis
        unfolding crc_CalculateRemainder_def crc_make_def Let_def CHAR_BIT_def crc_params.select_convs
        using 3 B seven by (simp only: if_True if_False simp_thms)
    qed
  qed
  have fin: "crc_Finalize w (word_of_int r :: 'a word) (word_of_int x) f =
      word_of_int (((if f then int_reflect w 0 (r mod 2 ^ LENGTH('a)) else r) XOR x) mod 2 ^ w)" for r f
  proof -
    have "(if f then crc_Reflect (word_of_int r) w else word_of_int r) =
        (word_of_int (if f then int_reflect w 0 (r mod 2 ^ LENGTH('a)) else r) :: 'a word)"
      by (simp add: crc_Reflect_int)
    then show ?thesis
      by (simp only: crc_Finalize_def crc_BIT_MASK_mask [OF assms(2,3)] word_xor_int
          take_bit_eq_mask [symmetric] word_take_int [OF assms(3)])
  qed
  show ?thesis
    unfolding crc_Calculate_def int_crc_def Let_def
    using rem fin by (simp add: crc_make_def)
qed

lemma int_reflect_numeral [simp]:
  "int_reflect (numeral k) rv v = int_reflect (pred_numeral k) (2 * rv + v mod 2) (v div 2)"
  by (simp add: numeral_eq_Suc)

lemmas int_crc_eval = int_crc_def Let_def eight_times_def int_right_def int_left_def

lemma CRC_4_ITU_check: "crc_Calculate crc_check_input CRC_4_ITU = 0x7"
  using crc_Calculate_int [where 'a = 8,
    of 4 "0x3" "0x0" crc_check_input "0x0" True True]
  by (simp add: int_crc_eval crc_check_input_def CRC_4_ITU_def)

lemma CRC_5_EPC_check: "crc_Calculate crc_check_input CRC_5_EPC = 0x0"
  using crc_Calculate_int [where 'a = 8,
    of 5 "0x9" "0x9" crc_check_input "0x0" False False]
  by (simp add: int_crc_eval crc_check_input_def CRC_5_EPC_def)

lemma CRC_5_ITU_check: "crc_Calculate crc_check_input CRC_5_ITU = 0x7"
  using crc_Calculate_int [where 'a = 8,
    of 5 "0x15" "0x0" crc_check_input "0x0" True True]
  by (simp add: int_crc_eval crc_check_input_def CRC_5_ITU_def)

lemma CRC_5_USB_check: "crc_Calculate crc_check_input CRC_5_USB = 0x19"
  using crc_Calculate_int [where 'a = 8,
    of 5 "0x5" "0x1f" crc_check_input "0x1f" True True]
  by (simp add: int_crc_eval crc_check_input_def CRC_5_USB_def)

lemma CRC_6_CDMA2000A_check: "crc_Calculate crc_check_input CRC_6_CDMA2000A = 0xd"
  using crc_Calculate_int [where 'a = 8,
    of 6 "0x27" "0x3f" crc_check_input "0x0" False False]
  by (simp add: int_crc_eval crc_check_input_def CRC_6_CDMA2000A_def)

lemma CRC_6_CDMA2000B_check: "crc_Calculate crc_check_input CRC_6_CDMA2000B = 0x3b"
  using crc_Calculate_int [where 'a = 8,
    of 6 "0x7" "0x3f" crc_check_input "0x0" False False]
  by (simp add: int_crc_eval crc_check_input_def CRC_6_CDMA2000B_def)

lemma CRC_6_ITU_check: "crc_Calculate crc_check_input CRC_6_ITU = 0x6"
  using crc_Calculate_int [where 'a = 8,
    of 6 "0x3" "0x0" crc_check_input "0x0" True True]
  by (simp add: int_crc_eval crc_check_input_def CRC_6_ITU_def)

lemma CRC_7_check: "crc_Calculate crc_check_input CRC_7 = 0x75"
  using crc_Calculate_int [where 'a = 8,
    of 7 "0x9" "0x0" crc_check_input "0x0" False False]
  by (simp add: int_crc_eval crc_check_input_def CRC_7_def)

lemma CRC_8_check: "crc_Calculate crc_check_input CRC_8 = 0xf4"
  using crc_Calculate_int [where 'a = 8,
    of 8 "0x7" "0x0" crc_check_input "0x0" False False]
  by (simp add: int_crc_eval crc_check_input_def CRC_8_def)

lemma CRC_8_EBU_check: "crc_Calculate crc_check_input CRC_8_EBU = 0x97"
  using crc_Calculate_int [where 'a = 8,
    of 8 "0x1d" "0xff" crc_check_input "0x0" True True]
  by (simp add: int_crc_eval crc_check_input_def CRC_8_EBU_def)

lemma CRC_8_MAXIM_check: "crc_Calculate crc_check_input CRC_8_MAXIM = 0xa1"
  using crc_Calculate_int [where 'a = 8,
    of 8 "0x31" "0x0" crc_check_input "0x0" True True]
  by (simp add: int_crc_eval crc_check_input_def CRC_8_MAXIM_def)

lemma CRC_8_WCDMA_check: "crc_Calculate crc_check_input CRC_8_WCDMA = 0x25"
  using crc_Calculate_int [where 'a = 8,
    of 8 "0x9b" "0x0" crc_check_input "0x0" True True]
  by (simp add: int_crc_eval crc_check_input_def CRC_8_WCDMA_def)

lemma CRC_10_check: "crc_Calculate crc_check_input CRC_10 = 0x199"
  using crc_Calculate_int [where 'a = 16,
    of 10 "0x233" "0x0" crc_check_input "0x0" False False]
  by (simp add: int_crc_eval crc_check_input_def CRC_10_def)

lemma CRC_10_CDMA2000_check: "crc_Calculate crc_check_input CRC_10_CDMA2000 = 0x233"
  using crc_Calculate_int [where 'a = 16,
    of 10 "0x3d9" "0x3ff" crc_check_input "0x0" False False]
  by (simp add: int_crc_eval crc_check_input_def CRC_10_CDMA2000_def)

lemma CRC_11_check: "crc_Calculate crc_check_input CRC_11 = 0x5a3"
  using crc_Calculate_int [where 'a = 16,
    of 11 "0x385" "0x1a" crc_check_input "0x0" False False]
  by (simp add: int_crc_eval crc_check_input_def CRC_11_def)

lemma CRC_12_CDMA2000_check: "crc_Calculate crc_check_input CRC_12_CDMA2000 = 0xd4d"
  using crc_Calculate_int [where 'a = 16,
    of 12 "0xf13" "0xfff" crc_check_input "0x0" False False]
  by (simp add: int_crc_eval crc_check_input_def CRC_12_CDMA2000_def)

lemma CRC_12_DECT_check: "crc_Calculate crc_check_input CRC_12_DECT = 0xf5b"
  using crc_Calculate_int [where 'a = 16,
    of 12 "0x80f" "0x0" crc_check_input "0x0" False False]
  by (simp add: int_crc_eval crc_check_input_def CRC_12_DECT_def)

lemma CRC_12_UMTS_remainder:
  "int_bytes_left 2048 16 2063 [49, 50, 51, 52, 53, 54, 55, 56, 57] 0 = 2552733401314209965530971"
  by (simp add: eight_times_def int_left_def)

lemma CRC_12_UMTS_int:
  "int_crc 16 12 2063 0 0 False True [49, 50, 51, 52, 53, 54, 55, 56, 57] = 0xdaf"
  unfolding int_crc_def Let_def
  by (simp add: CRC_12_UMTS_remainder del: int_bytes_left.simps)

lemma CRC_12_UMTS_check: "crc_Calculate crc_check_input CRC_12_UMTS = 0xdaf"
  using crc_Calculate_int [where 'a = 16,
    of 12 "0x80f" "0x0" crc_check_input "0x0" False True]
  by (simp add: crc_check_input_def CRC_12_UMTS_def CRC_12_UMTS_int)

lemma CRC_13_BBC_check: "crc_Calculate crc_check_input CRC_13_BBC = 0x4fa"
  using crc_Calculate_int [where 'a = 16,
    of 13 "0x1cf5" "0x0" crc_check_input "0x0" False False]
  by (simp add: int_crc_eval crc_check_input_def CRC_13_BBC_def)

lemma CRC_15_check: "crc_Calculate crc_check_input CRC_15 = 0x59e"
  using crc_Calculate_int [where 'a = 16,
    of 15 "0x4599" "0x0" crc_check_input "0x0" False False]
  by (simp add: int_crc_eval crc_check_input_def CRC_15_def)

lemma CRC_15_MPT1327_check: "crc_Calculate crc_check_input CRC_15_MPT1327 = 0x2566"
  using crc_Calculate_int [where 'a = 16,
    of 15 "0x6815" "0x0" crc_check_input "0x1" False False]
  by (simp add: int_crc_eval crc_check_input_def CRC_15_MPT1327_def)

lemma CRC_16_ARC_check: "crc_Calculate crc_check_input CRC_16_ARC = 0xbb3d"
  using crc_Calculate_int [where 'a = 16,
    of 16 "0x8005" "0x0" crc_check_input "0x0" True True]
  by (simp add: int_crc_eval crc_check_input_def CRC_16_ARC_def)

lemma CRC_16_BUYPASS_check: "crc_Calculate crc_check_input CRC_16_BUYPASS = 0xfee8"
  using crc_Calculate_int [where 'a = 16,
    of 16 "0x8005" "0x0" crc_check_input "0x0" False False]
  by (simp add: int_crc_eval crc_check_input_def CRC_16_BUYPASS_def)

lemma CRC_16_CCITTFALSE_check: "crc_Calculate crc_check_input CRC_16_CCITTFALSE = 0x29b1"
  using crc_Calculate_int [where 'a = 16,
    of 16 "0x1021" "0xffff" crc_check_input "0x0" False False]
  by (simp add: int_crc_eval crc_check_input_def CRC_16_CCITTFALSE_def)

lemma CRC_16_CDMA2000_check: "crc_Calculate crc_check_input CRC_16_CDMA2000 = 0x4c06"
  using crc_Calculate_int [where 'a = 16,
    of 16 "0xc867" "0xffff" crc_check_input "0x0" False False]
  by (simp add: int_crc_eval crc_check_input_def CRC_16_CDMA2000_def)

lemma CRC_16_CMS_check: "crc_Calculate crc_check_input CRC_16_CMS = 0xaee7"
  using crc_Calculate_int [where 'a = 16,
    of 16 "0x8005" "0xffff" crc_check_input "0x0" False False]
  by (simp add: int_crc_eval crc_check_input_def CRC_16_CMS_def)

lemma CRC_16_DECTR_check: "crc_Calculate crc_check_input CRC_16_DECTR = 0x7e"
  using crc_Calculate_int [where 'a = 16,
    of 16 "0x589" "0x0" crc_check_input "0x1" False False]
  by (simp add: int_crc_eval crc_check_input_def CRC_16_DECTR_def)

lemma CRC_16_DECTX_check: "crc_Calculate crc_check_input CRC_16_DECTX = 0x7f"
  using crc_Calculate_int [where 'a = 16,
    of 16 "0x589" "0x0" crc_check_input "0x0" False False]
  by (simp add: int_crc_eval crc_check_input_def CRC_16_DECTX_def)

lemma CRC_16_DNP_check: "crc_Calculate crc_check_input CRC_16_DNP = 0xea82"
  using crc_Calculate_int [where 'a = 16,
    of 16 "0x3d65" "0x0" crc_check_input "0xffff" True True]
  by (simp add: int_crc_eval crc_check_input_def CRC_16_DNP_def)

lemma CRC_16_GENIBUS_check: "crc_Calculate crc_check_input CRC_16_GENIBUS = 0xd64e"
  using crc_Calculate_int [where 'a = 16,
    of 16 "0x1021" "0xffff" crc_check_input "0xffff" False False]
  by (simp add: int_crc_eval crc_check_input_def CRC_16_GENIBUS_def)

lemma CRC_16_KERMIT_check: "crc_Calculate crc_check_input CRC_16_KERMIT = 0x2189"
  using crc_Calculate_int [where 'a = 16,
    of 16 "0x1021" "0x0" crc_check_input "0x0" True True]
  by (simp add: int_crc_eval crc_check_input_def CRC_16_KERMIT_def)

lemma CRC_16_MAXIM_check: "crc_Calculate crc_check_input CRC_16_MAXIM = 0x44c2"
  using crc_Calculate_int [where 'a = 16,
    of 16 "0x8005" "0x0" crc_check_input "0xffff" True True]
  by (simp add: int_crc_eval crc_check_input_def CRC_16_MAXIM_def)

lemma CRC_16_MODBUS_check: "crc_Calculate crc_check_input CRC_16_MODBUS = 0x4b37"
  using crc_Calculate_int [where 'a = 16,
    of 16 "0x8005" "0xffff" crc_check_input "0x0" True True]
  by (simp add: int_crc_eval crc_check_input_def CRC_16_MODBUS_def)

lemma CRC_16_T10DIF_check: "crc_Calculate crc_check_input CRC_16_T10DIF = 0xd0db"
  using crc_Calculate_int [where 'a = 16,
    of 16 "0x8bb7" "0x0" crc_check_input "0x0" False False]
  by (simp add: int_crc_eval crc_check_input_def CRC_16_T10DIF_def)

lemma CRC_16_USB_check: "crc_Calculate crc_check_input CRC_16_USB = 0xb4c8"
  using crc_Calculate_int [where 'a = 16,
    of 16 "0x8005" "0xffff" crc_check_input "0xffff" True True]
  by (simp add: int_crc_eval crc_check_input_def CRC_16_USB_def)

lemma CRC_16_X25_check: "crc_Calculate crc_check_input CRC_16_X25 = 0x906e"
  using crc_Calculate_int [where 'a = 16,
    of 16 "0x1021" "0xffff" crc_check_input "0xffff" True True]
  by (simp add: int_crc_eval crc_check_input_def CRC_16_X25_def)

lemma CRC_16_XMODEM_check: "crc_Calculate crc_check_input CRC_16_XMODEM = 0x31c3"
  using crc_Calculate_int [where 'a = 16,
    of 16 "0x1021" "0x0" crc_check_input "0x0" False False]
  by (simp add: int_crc_eval crc_check_input_def CRC_16_XMODEM_def)

lemma CRC_17_CAN_check: "crc_Calculate crc_check_input CRC_17_CAN = 0x4f03"
  using crc_Calculate_int [where 'a = 32,
    of 17 "0x1685b" "0x0" crc_check_input "0x0" False False]
  by (simp add: int_crc_eval crc_check_input_def CRC_17_CAN_def)

lemma CRC_21_CAN_check: "crc_Calculate crc_check_input CRC_21_CAN = 0xed841"
  using crc_Calculate_int [where 'a = 32,
    of 21 "0x102899" "0x0" crc_check_input "0x0" False False]
  by (simp add: int_crc_eval crc_check_input_def CRC_21_CAN_def)

lemma CRC_24_check: "crc_Calculate crc_check_input CRC_24 = 0x21cf02"
  using crc_Calculate_int [where 'a = 32,
    of 24 "0x864cfb" "0xb704ce" crc_check_input "0x0" False False]
  by (simp add: int_crc_eval crc_check_input_def CRC_24_def)

lemma CRC_24_FLEXRAYA_check: "crc_Calculate crc_check_input CRC_24_FLEXRAYA = 0x7979bd"
  using crc_Calculate_int [where 'a = 32,
    of 24 "0x5d6dcb" "0xfedcba" crc_check_input "0x0" False False]
  by (simp add: int_crc_eval crc_check_input_def CRC_24_FLEXRAYA_def)

lemma CRC_24_FLEXRAYB_check: "crc_Calculate crc_check_input CRC_24_FLEXRAYB = 0x1f23b8"
  using crc_Calculate_int [where 'a = 32,
    of 24 "0x5d6dcb" "0xabcdef" crc_check_input "0x0" False False]
  by (simp add: int_crc_eval crc_check_input_def CRC_24_FLEXRAYB_def)

lemma CRC_30_check: "crc_Calculate crc_check_input CRC_30 = 0x3b3cb540"
  using crc_Calculate_int [where 'a = 32,
    of 30 "0x2030b9c7" "0x3fffffff" crc_check_input "0x0" False False]
  by (simp add: int_crc_eval crc_check_input_def CRC_30_def)

lemma CRC_32_check: "crc_Calculate crc_check_input CRC_32 = 0xcbf43926"
  using crc_Calculate_int [where 'a = 32,
    of 32 "0x4c11db7" "0xffffffff" crc_check_input "0xffffffff" True True]
  by (simp add: int_crc_eval crc_check_input_def CRC_32_def)

lemma CRC_32_BZIP2_check: "crc_Calculate crc_check_input CRC_32_BZIP2 = 0xfc891918"
  using crc_Calculate_int [where 'a = 32,
    of 32 "0x4c11db7" "0xffffffff" crc_check_input "0xffffffff" False False]
  by (simp add: int_crc_eval crc_check_input_def CRC_32_BZIP2_def)

lemma CRC_32_C_check: "crc_Calculate crc_check_input CRC_32_C = 0xe3069283"
  using crc_Calculate_int [where 'a = 32,
    of 32 "0x1edc6f41" "0xffffffff" crc_check_input "0xffffffff" True True]
  by (simp add: int_crc_eval crc_check_input_def CRC_32_C_def)

lemma CRC_32_MPEG2_check: "crc_Calculate crc_check_input CRC_32_MPEG2 = 0x376e6e7"
  using crc_Calculate_int [where 'a = 32,
    of 32 "0x4c11db7" "0xffffffff" crc_check_input "0x0" False False]
  by (simp add: int_crc_eval crc_check_input_def CRC_32_MPEG2_def)

lemma CRC_32_POSIX_check: "crc_Calculate crc_check_input CRC_32_POSIX = 0x765e7680"
  using crc_Calculate_int [where 'a = 32,
    of 32 "0x4c11db7" "0x0" crc_check_input "0xffffffff" False False]
  by (simp add: int_crc_eval crc_check_input_def CRC_32_POSIX_def)

lemma CRC_32_Q_check: "crc_Calculate crc_check_input CRC_32_Q = 0x3010bf7f"
  using crc_Calculate_int [where 'a = 32,
    of 32 "0x814141ab" "0x0" crc_check_input "0x0" False False]
  by (simp add: int_crc_eval crc_check_input_def CRC_32_Q_def)

lemma CRC_40_GSM_check: "crc_Calculate crc_check_input CRC_40_GSM = 0xd4164fc646"
  using crc_Calculate_int [where 'a = 64,
    of 40 "0x4820009" "0x0" crc_check_input "0xffffffffff" False False]
  by (simp add: int_crc_eval crc_check_input_def CRC_40_GSM_def)

lemma CRC_64_check: "crc_Calculate crc_check_input CRC_64 = 0x6c40df5f0b497347"
  using crc_Calculate_int [where 'a = 64,
    of 64 "0x42f0e1eba9ea3693" "0x0" crc_check_input "0x0" False False]
  by (simp add: int_crc_eval crc_check_input_def CRC_64_def)

lemmas crc_sets = CRC_4_ITU_def CRC_5_EPC_def CRC_5_ITU_def CRC_5_USB_def CRC_6_CDMA2000A_def
  CRC_6_CDMA2000B_def CRC_6_ITU_def CRC_7_def CRC_8_def CRC_8_EBU_def CRC_8_MAXIM_def
  CRC_8_WCDMA_def CRC_10_def CRC_10_CDMA2000_def CRC_11_def CRC_12_CDMA2000_def
  CRC_12_DECT_def CRC_12_UMTS_def CRC_13_BBC_def CRC_15_def CRC_15_MPT1327_def CRC_16_ARC_def
  CRC_16_BUYPASS_def CRC_16_CCITTFALSE_def CRC_16_CDMA2000_def CRC_16_CMS_def CRC_16_DECTR_def
  CRC_16_DECTX_def CRC_16_DNP_def CRC_16_GENIBUS_def CRC_16_KERMIT_def CRC_16_MAXIM_def
  CRC_16_MODBUS_def CRC_16_T10DIF_def CRC_16_USB_def CRC_16_X25_def CRC_16_XMODEM_def
  CRC_17_CAN_def CRC_21_CAN_def CRC_24_def CRC_24_FLEXRAYA_def CRC_24_FLEXRAYB_def CRC_30_def
  CRC_32_def CRC_32_BZIP2_def CRC_32_C_def CRC_32_MPEG2_def CRC_32_POSIX_def CRC_32_Q_def
  CRC_40_GSM_def CRC_64_def

text \<open>The parameter sets fit their width, so the results below apply to all of them.\<close>

lemma crc_sets_wf:
  "list_all crc_wf [CRC_4_ITU, CRC_5_EPC, CRC_5_ITU, CRC_5_USB, CRC_6_CDMA2000A,
     CRC_6_CDMA2000B, CRC_6_ITU, CRC_7, CRC_8, CRC_8_EBU, CRC_8_MAXIM, CRC_8_WCDMA] \<and>
   list_all crc_wf [CRC_10, CRC_10_CDMA2000, CRC_11, CRC_12_CDMA2000, CRC_12_DECT,
     CRC_12_UMTS, CRC_13_BBC, CRC_15, CRC_15_MPT1327, CRC_16_ARC, CRC_16_BUYPASS,
     CRC_16_CCITTFALSE, CRC_16_CDMA2000, CRC_16_CMS, CRC_16_DECTR, CRC_16_DECTX, CRC_16_DNP,
     CRC_16_GENIBUS, CRC_16_KERMIT, CRC_16_MAXIM, CRC_16_MODBUS, CRC_16_T10DIF, CRC_16_USB,
     CRC_16_X25, CRC_16_XMODEM] \<and>
   list_all crc_wf [CRC_17_CAN, CRC_21_CAN, CRC_24, CRC_24_FLEXRAYA, CRC_24_FLEXRAYB,
     CRC_30, CRC_32, CRC_32_BZIP2, CRC_32_C, CRC_32_MPEG2, CRC_32_POSIX, CRC_32_Q] \<and>
   list_all crc_wf [CRC_40_GSM, CRC_64]"
  by (simp add: crc_sets crc_wf_def crc_make_def take_bit_word_eq_self)

lemma crc_wf_CRC_32: "crc_wf CRC_32"
  using crc_sets_wf by simp

lemma crc_table_agrees:
  assumes "crc_wf p"
  shows "crc_Calculate_table d (crc_MakeTable p) = crc_Calculate d p \<and>
     crc_Calculate_table_append d (crc_MakeTable p) c = crc_Calculate_append d p c"
proof (rule conjI)
  have ok: "crc_ok p" using assms by (simp add: crc_wf_def)
  have par: "ct_parameters (crc_MakeTable p) = p" by (simp add: crc_MakeTable_def)
  show "crc_Calculate_table d (crc_MakeTable p) = crc_Calculate d p"
    unfolding crc_Calculate_table_def crc_Calculate_def par Let_def
    by (rule crc_Finalize_cong) (use ok crc_remainder_table [OF ok] in auto)
  show "crc_Calculate_table_append d (crc_MakeTable p) c = crc_Calculate_append d p c"
    unfolding crc_Calculate_table_append_def crc_Calculate_append_def par Let_def
    by (rule crc_Finalize_cong) (use ok crc_remainder_table [OF ok] in auto)
qed

lemma crc_parts:
  assumes "crc_wf p"
  shows "crc_Calculate_append d2 p (crc_Calculate d1 p) = crc_Calculate (d1 @ d2) p"
proof -
  let ?w = "cp_width p" and ?r = "crc_CalculateRemainder d1 p (cp_initialValue p)"
  have ok: "crc_ok p" and i: "take_bit ?w (cp_initialValue p) = cp_initialValue p"
    and x: "take_bit ?w (cp_finalXOR p) = cp_finalXOR p"
    using assms by (auto simp: crc_wf_def)
  have u: "crc_UndoFinalize ?w (crc_Calculate d1 p) (cp_finalXOR p)
      (cp_reflectInput p \<noteq> cp_reflectOutput p) = take_bit ?w ?r"
    unfolding crc_Calculate_def by (rule crc_Finalize_Undo) (use ok x in auto)
  have "take_bit ?w (crc_CalculateRemainder d2 p (take_bit ?w ?r)) =
      take_bit ?w (crc_CalculateRemainder d2 p ?r)"
    using crc_remainder_small [OF ok _ i, of d1]
      crc_remainder_cong [OF ok, of "take_bit ?w ?r" ?r d2]
    by (cases "cp_reflectInput p") simp_all
  then have "take_bit ?w (crc_CalculateRemainder d2 p (take_bit ?w ?r)) =
      take_bit ?w (crc_CalculateRemainder (d1 @ d2) p (cp_initialValue p))"
    using crc_remainder_append [OF ok] by simp
  then show ?thesis
    unfolding crc_Calculate_append_def Let_def u crc_Calculate_def [of "d1 @ d2"]
    by (intro crc_Finalize_cong) (use ok in auto)
qed

section \<open>Results\<close>

lemmas crc_checks = CRC_4_ITU_check CRC_5_EPC_check CRC_5_ITU_check CRC_5_USB_check CRC_6_CDMA2000A_check
  CRC_6_CDMA2000B_check CRC_6_ITU_check CRC_7_check CRC_8_check CRC_8_EBU_check
  CRC_8_MAXIM_check CRC_8_WCDMA_check CRC_10_check CRC_10_CDMA2000_check CRC_11_check
  CRC_12_CDMA2000_check CRC_12_DECT_check CRC_12_UMTS_check CRC_13_BBC_check CRC_15_check
  CRC_15_MPT1327_check CRC_16_ARC_check CRC_16_BUYPASS_check CRC_16_CCITTFALSE_check
  CRC_16_CDMA2000_check CRC_16_CMS_check CRC_16_DECTR_check CRC_16_DECTX_check
  CRC_16_DNP_check CRC_16_GENIBUS_check CRC_16_KERMIT_check CRC_16_MAXIM_check
  CRC_16_MODBUS_check CRC_16_T10DIF_check CRC_16_USB_check CRC_16_X25_check
  CRC_16_XMODEM_check CRC_17_CAN_check CRC_21_CAN_check CRC_24_check CRC_24_FLEXRAYA_check
  CRC_24_FLEXRAYB_check CRC_30_check CRC_32_check CRC_32_BZIP2_check CRC_32_C_check
  CRC_32_MPEG2_check CRC_32_POSIX_check CRC_32_Q_check CRC_40_GSM_check CRC_64_check


text \<open>C12. Computing with the lookup table gives the CRC of the bit-by-bit computation.\<close>

theorem crc_table_correct:
  assumes "crc_wf p"
  shows "crc_Calculate_table d (crc_MakeTable p) = crc_Calculate d p \<and>
     crc_Calculate_table_append d (crc_MakeTable p) c = crc_Calculate_append d p c"
  using assms by (rule crc_table_agrees)

theorem crc_table_correct_witness:
  "crc_Calculate_table crc_check_input (crc_MakeTable CRC_32) = 0xCBF43926"
  using crc_table_correct [OF crc_wf_CRC_32, of crc_check_input] by (simp add: CRC_32_check)

text \<open>C22. A CRC that is continued over a second part is the CRC of both parts together.\<close>

theorem crc_append:
  assumes "crc_wf p"
  shows "crc_Calculate_append d2 p (crc_Calculate d1 p) = crc_Calculate (d1 @ d2) p"
  using assms by (rule crc_parts)

theorem crc_append_witness:
  "crc_Calculate_append [53, 54, 55, 56, 57] CRC_32 (crc_Calculate [49, 50, 51, 52] CRC_32) = 0xCBF43926"
  using crc_append [OF crc_wf_CRC_32, of "[53, 54, 55, 56, 57]" "[49, 50, 51, 52]"] CRC_32_check
  by (simp add: crc_check_input_def)

end
