(* ===== verification/DFSCommon.thy ===== *)
theory DFSCommon
  imports CStrings Options
begin

text \<open>
  What both parts of grpc share: the codes of gRPC, files in a directory, the chunks in which a
  stream sends a file, and what the network can do to a call. gRPC itself is a library: a
  handler runs or not, its messages arrive up to some point, and the caller sees the handler's
  status or another one.
\<close>

section \<open>Status codes and paths\<close>

definition DFS_OK :: int where "DFS_OK = 0"
definition DFS_CANCELLED :: int where "DFS_CANCELLED = 1"
definition DFS_DEADLINE_EXCEEDED :: int where "DFS_DEADLINE_EXCEEDED = 4"
definition DFS_NOT_FOUND :: int where "DFS_NOT_FOUND = 5"
definition DFS_ALREADY_EXISTS :: int where "DFS_ALREADY_EXISTS = 6"
definition DFS_RESOURCE_EXHAUSTED :: int where "DFS_RESOURCE_EXHAUSTED = 8"
definition DFS_UNAVAILABLE :: int where "DFS_UNAVAILABLE = 14"

lemmas dfs_status = DFS_OK_def DFS_CANCELLED_def DFS_DEADLINE_EXCEEDED_def DFS_NOT_FOUND_def
  DFS_ALREADY_EXISTS_def DFS_RESOURCE_EXHAUSTED_def DFS_UNAVAILABLE_def

definition dfs_clean_path :: "string \<Rightarrow> string" where
  "dfs_clean_path path =
     (if path \<noteq> [] \<and> last path \<noteq> CHR ''/'' then path @ [CHR ''/''] else path)"

definition WrapPath :: "string \<Rightarrow> string \<Rightarrow> string" where
  "WrapPath mount_path filepath = mount_path @ filepath"

lemma WrapPath_inject [simp]: "WrapPath m a = WrapPath m b \<longleftrightarrow> a = b"
  by (simp add: WrapPath_def)

lemma dfs_clean_path_idem: "dfs_clean_path (dfs_clean_path p) = dfs_clean_path p"
  by (simp add: dfs_clean_path_def)

section \<open>Files\<close>

text \<open>
  The regular files of a process by path, which paths can be opened for writing, and the clock.
  A file that exists can be read. Opening an ofstream creates or empties the file.
\<close>

record dfile =
  df_content :: string
  df_mtime :: int
  df_ctime :: int

record filesys =
  fs_files :: "string \<Rightarrow> dfile option"
  fs_writable :: "string \<Rightarrow> bool"
  fs_now :: int

definition fs_content :: "filesys \<Rightarrow> string \<Rightarrow> string option" where
  "fs_content fs p = map_option df_content (fs_files fs p)"

text \<open>An ofstream on path \<open>p\<close> to which \<open>d\<close> is written in all.\<close>

definition ofstream_write :: "string \<Rightarrow> string \<Rightarrow> filesys \<Rightarrow> filesys" where
  "ofstream_write p d fs =
     (if fs_writable fs p
      then fs\<lparr>fs_files := (fs_files fs)(p \<mapsto> \<lparr>df_content = d, df_mtime = fs_now fs, df_ctime = fs_now fs\<rparr>)\<rparr>
      else fs)"

definition remove_file :: "string \<Rightarrow> filesys \<Rightarrow> filesys" where
  "remove_file p fs = fs\<lparr>fs_files := (fs_files fs)(p := None)\<rparr>"

lemma ofstream_write_content:
  "fs_writable fs p \<Longrightarrow> fs_content (ofstream_write p d fs) p = Some d"
  by (simp add: ofstream_write_def fs_content_def)

lemma ofstream_write_other [simp]:
  "q \<noteq> p \<Longrightarrow> fs_files (ofstream_write p d fs) q = fs_files fs q"
  "fs_writable (ofstream_write p d fs) = fs_writable fs"
  "fs_now (ofstream_write p d fs) = fs_now fs"
  by (simp_all add: ofstream_write_def)

lemma remove_file_simps [simp]:
  "q \<noteq> p \<Longrightarrow> fs_files (remove_file p fs) q = fs_files fs q"
  "fs_files (remove_file p fs) p = None"
  "fs_writable (remove_file p fs) = fs_writable fs"
  by (simp_all add: remove_file_def)

section \<open>A file as a stream of messages\<close>

definition BUFSIZ :: nat where "BUFSIZ = 8192"

text \<open>
  The loop over read while not eof: a read that is not full sets eof, so a file whose size is a
  multiple of the buffer ends with an empty message.
\<close>

function read_chunks :: "string \<Rightarrow> string list" where
  "read_chunks d = (if length d < BUFSIZ then [d] else take BUFSIZ d # read_chunks (drop BUFSIZ d))"
  by pat_completeness auto
termination by (relation "measure length") (auto simp: BUFSIZ_def)

declare read_chunks.simps [simp del]

record file_msg =
  fm_name :: string
  fm_size :: int
  fm_content :: string
  fm_clientid :: string
  fm_crc :: "32 word"

definition empty_msg :: file_msg where
  "empty_msg = \<lparr>fm_name = [], fm_size = 0, fm_content = [], fm_clientid = [], fm_crc = 0\<rparr>"

definition file_msgs :: "string \<Rightarrow> string \<Rightarrow> 32 word \<Rightarrow> string \<Rightarrow> file_msg list" where
  "file_msgs name cid crc d =
     map (\<lambda>c. \<lparr>fm_name = name, fm_size = int (length c), fm_content = c, fm_clientid = cid, fm_crc = crc\<rparr>)
       (read_chunks d)"

text \<open>outfile.write(file.content().c\_str(), file.size()): every message is built with size the
  length of its content.\<close>

definition msg_data :: "file_msg \<Rightarrow> string" where
  "msg_data m = take (nat (fm_size m)) (fm_content m)"

lemma concat_read_chunks: "concat (read_chunks d) = d"
proof (induction d rule: read_chunks.induct)
  case (1 d)
  then show ?case by (cases "length d < BUFSIZ") (simp_all add: read_chunks.simps [of d])
qed

lemma read_chunks_not_Nil [simp]: "read_chunks d \<noteq> []"
  by (simp add: read_chunks.simps [of d])

lemma read_chunks_bound: "c \<in> set (read_chunks d) \<Longrightarrow> length c \<le> BUFSIZ"
proof (induction d rule: read_chunks.induct)
  case (1 d)
  then show ?case
    by (cases "length d < BUFSIZ") (auto simp: read_chunks.simps [of d])
qed

lemma file_msgs_data: "concat (map msg_data (file_msgs name cid crc d)) = d"
  by (simp add: file_msgs_def msg_data_def o_def concat_read_chunks)

lemma file_msgs_size: "m \<in> set (file_msgs name cid crc d) \<Longrightarrow> fm_size m = int (length (fm_content m)) \<and> fm_size m \<le> 8192"
  by (auto simp: file_msgs_def BUFSIZ_def dest: read_chunks_bound)

lemma file_msgs_shape:
  "file_msgs name cid crc d \<noteq> []"
  "m \<in> set (file_msgs name cid crc d) \<Longrightarrow> fm_name m = name \<and> fm_clientid m = cid \<and> fm_crc m = crc"
  by (auto simp: file_msgs_def)

section \<open>What happens to a call\<close>

text \<open>
  Whether the request reaches the handler; from which question on IsCancelled answers true; how
  many messages of a stream arrive; the status the caller sees instead of the handler's.
\<close>

record rpc_call =
  rc_reached :: bool
  rc_cancel :: "nat option"
  rc_cut :: "nat option"
  rc_status :: "int option"

definition rpc_ok :: rpc_call where
  "rpc_ok = \<lparr>rc_reached = True, rc_cancel = None, rc_cut = None, rc_status = None\<rparr>"

definition IsCancelled :: "rpc_call \<Rightarrow> nat \<Rightarrow> bool" where
  "IsCancelled c k = (case rc_cancel c of None \<Rightarrow> False | Some n \<Rightarrow> n \<le> k)"

definition seen_status :: "rpc_call \<Rightarrow> int \<Rightarrow> int" where
  "seen_status c st = (case rc_status c of None \<Rightarrow> st | Some e \<Rightarrow> if e = DFS_OK then st else e)"

definition cut_msgs :: "rpc_call \<Rightarrow> 'm list \<Rightarrow> 'm list" where
  "cut_msgs c ms = (case rc_cut c of None \<Rightarrow> ms | Some n \<Rightarrow> take n ms)"

text \<open>
  A call with one answer; a failed call leaves the response as it was constructed.
\<close>

definition rpc_unary :: "rpc_call \<Rightarrow> 'r \<Rightarrow> (rpc_call \<Rightarrow> 's \<Rightarrow> int \<times> 'r \<times> 's) \<Rightarrow> 's \<Rightarrow> int \<times> 'r \<times> 's" where
  "rpc_unary c dflt h s =
     (if \<not> rc_reached c then (seen_status c DFS_UNAVAILABLE, dflt, s)
      else (case h c s of (st, r, s') \<Rightarrow>
              (seen_status c st, if seen_status c st = DFS_OK then r else dflt, s')))"

text \<open>A stream to the server, and a stream to the client.\<close>

definition rpc_upload :: "rpc_call \<Rightarrow> 'm list \<Rightarrow> (rpc_call \<Rightarrow> 'm list \<Rightarrow> 's \<Rightarrow> int \<times> 's) \<Rightarrow> 's \<Rightarrow> int \<times> 's" where
  "rpc_upload c ms h s =
     (if \<not> rc_reached c then (seen_status c DFS_UNAVAILABLE, s)
      else (case h c (cut_msgs c ms) s of (st, s') \<Rightarrow> (seen_status c st, s')))"

definition rpc_download :: "rpc_call \<Rightarrow> (rpc_call \<Rightarrow> 's \<Rightarrow> int \<times> 'm list) \<Rightarrow> 's \<Rightarrow> int \<times> 'm list" where
  "rpc_download c h s =
     (if \<not> rc_reached c then (seen_status c DFS_UNAVAILABLE, [])
      else (case h c s of (st, ms) \<Rightarrow> (seen_status c st, cut_msgs c ms)))"

text \<open>
  What gRPC documents: a caller that sees the handler's own status has had all messages carried
  over.
\<close>

definition rpc_documented :: "rpc_call \<Rightarrow> bool" where
  "rpc_documented c \<longleftrightarrow> (rc_status c = None \<or> rc_status c = Some DFS_OK \<longrightarrow> rc_cut c = None)"

lemma rpc_ok_simps [simp]:
  "rc_reached rpc_ok" "IsCancelled rpc_ok k = False" "seen_status rpc_ok st = st"
  "cut_msgs rpc_ok ms = ms" "rpc_documented rpc_ok"
  by (simp_all add: rpc_ok_def IsCancelled_def seen_status_def cut_msgs_def rpc_documented_def)

lemma seen_status_OK:
  "seen_status c st = DFS_OK \<longleftrightarrow> st = DFS_OK \<and> (rc_status c = None \<or> rc_status c = Some DFS_OK)"
  by (auto simp: seen_status_def split: option.splits)

lemma seen_UNAVAILABLE [simp]: "seen_status c DFS_UNAVAILABLE \<noteq> DFS_OK"
  unfolding seen_status_OK by (simp add: dfs_status)

lemma seen_OK_uncut:
  "rpc_documented c \<Longrightarrow> seen_status c st = DFS_OK \<Longrightarrow> cut_msgs c ms = ms"
  by (auto simp: seen_status_OK rpc_documented_def cut_msgs_def)

lemma rpc_upload_OK:
  assumes "rpc_documented c" "rpc_upload c ms h s = (DFS_OK, s')"
  shows "h c ms s = (DFS_OK, s')"
proof -
  obtain st t where h: "h c (cut_msgs c ms) s = (st, t)" by force
  from assms(2) h have st: "seen_status c st = DFS_OK" "s' = t" "rc_reached c"
    by (auto simp: rpc_upload_def split: if_splits)
  with h seen_OK_uncut [OF assms(1) st(1), of ms] show ?thesis by (simp add: seen_status_OK)
qed

lemma rpc_download_OK:
  assumes "rpc_documented c" "rpc_download c h s = (DFS_OK, ms)"
  shows "h c s = (DFS_OK, ms)"
proof -
  obtain st t where h: "h c s = (st, t)" by force
  from assms(2) h have st: "seen_status c st = DFS_OK" "ms = cut_msgs c t" "rc_reached c"
    by (auto simp: rpc_download_def split: if_splits)
  with h seen_OK_uncut [OF assms(1) st(1), of t] show ?thesis by (simp add: seen_status_OK)
qed

lemma rpc_ok_calls [simp]:
  "rpc_unary rpc_ok dflt h s =
     (case h rpc_ok s of (st, r, s') \<Rightarrow> (st, if st = DFS_OK then r else dflt, s'))"
  "rpc_upload rpc_ok ms k s = k rpc_ok ms s"
  "rpc_download rpc_ok l s = l rpc_ok s"
  by (simp_all add: rpc_unary_def rpc_upload_def rpc_download_def split: prod.splits)

section \<open>Handlers that both servers share\<close>

text \<open>FetchFile: the messages sent, and the status; IsCancelled is asked before each one.\<close>

fun send_msgs :: "rpc_call \<Rightarrow> nat \<Rightarrow> file_msg list \<Rightarrow> int \<times> file_msg list" where
  "send_msgs c k [] = (DFS_OK, [])"
| "send_msgs c k (m # ms) =
     (if IsCancelled c k then (DFS_DEADLINE_EXCEEDED, [])
      else (case send_msgs c (Suc k) ms of (st, sent) \<Rightarrow> (st, m # sent)))"

definition FetchFile :: "string \<Rightarrow> rpc_call \<Rightarrow> string \<Rightarrow> filesys \<Rightarrow> int \<times> file_msg list" where
  "FetchFile mount c name fs =
     (case fs_content fs (WrapPath mount name) of
        None \<Rightarrow> (DFS_NOT_FOUND, [])
      | Some d \<Rightarrow> send_msgs c 0 (file_msgs name [] 0 d))"

lemma send_msgs_OK: "send_msgs c k ms = (DFS_OK, sent) \<Longrightarrow> sent = ms"
  by (induction ms arbitrary: k sent)
    (auto simp: DFS_OK_def DFS_DEADLINE_EXCEEDED_def split: if_splits prod.splits)

lemma send_msgs_prefix: "send_msgs c k ms = (st, sent) \<Longrightarrow> \<exists>n. sent = take n ms"
proof (induction ms arbitrary: k sent)
  case (Cons m ms)
  show ?case
  proof (cases "IsCancelled c k")
    case True
    with Cons.prems show ?thesis by (auto intro: exI [of _ 0])
  next
    case False
    then obtain s where "send_msgs c (Suc k) ms = (st, s)" "sent = m # s"
      using Cons.prems by (auto split: prod.splits)
    with Cons.IH [of "Suc k" s] obtain n where "sent = take (Suc n) (m # ms)" by auto
    then show ?thesis ..
  qed
qed simp

lemma send_msgs_rpc_ok [simp]: "send_msgs rpc_ok k ms = (DFS_OK, ms)"
  by (induction ms arbitrary: k) simp_all

text \<open>
  ListFile: the entries of the directory, each with whether it is a regular file. The first
  entry is used before it is compared with NULL; opendir may fail. A file whose stat fails is
  skipped. The times are 32 bits wide in the message.
\<close>

type_synonym directory = "(string \<times> bool) list option"

definition list_entries :: "string \<Rightarrow> (string \<times> bool) list \<Rightarrow> filesys \<Rightarrow> (string \<times> int) list" where
  "list_entries mount es fs =
     concat (map (\<lambda>(n, reg). if reg
         then (case fs_files fs (WrapPath mount n) of None \<Rightarrow> [] | Some f \<Rightarrow> [(n, c_int (df_mtime f))])
         else []) es)"

text \<open>
  The client's map: insert keeps the first value of a key.
\<close>

fun map_insert_all :: "('k \<times> 'v) list \<Rightarrow> ('k \<Rightarrow> 'v option) \<Rightarrow> ('k \<Rightarrow> 'v option)" where
  "map_insert_all [] m = m"
| "map_insert_all ((k, v) # kvs) m = map_insert_all kvs (if m k = None then m(k \<mapsto> v) else m)"

lemma map_insert_all_get:
  "map_insert_all kvs m k = (case m k of Some v \<Rightarrow> Some v | None \<Rightarrow> map_of kvs k)"
  by (induction kvs m rule: map_insert_all.induct) (auto split: option.splits)

section \<open>Command line values\<close>

text \<open>
  std::stoi of optarg: it throws when there is no number or when it does not fit in an int, and
  nothing catches that (the process aborts, status 134). std::string of a null pointer is
  undefined.
\<close>

definition ABORT :: int where "ABORT = 134"

definition stoi_arg :: "string option \<Rightarrow> (int \<Rightarrow> 'c) \<Rightarrow> 'c outcome" where
  "stoi_arg arg f =
     (case arg of None \<Rightarrow> Undef
      | Some s \<Rightarrow>
          (let (neg, ds) = scan_sign s; v = int (scan_digits 0 ds); z = (if neg then - v else v) in
           if ds = [] \<or> \<not> isdigit (hd ds) then Exits ABORT
           else if z < - (2 ^ 31) \<or> INT_MAX < z then Exits ABORT
           else Ret (f z)))"

definition string_arg :: "string option \<Rightarrow> (string \<Rightarrow> 'c) \<Rightarrow> 'c outcome" where
  "string_arg arg f = (case arg of None \<Rightarrow> Undef | Some s \<Rightarrow> Ret (f s))"

text \<open>The first two arguments that are not options.\<close>

fun dfs_positional :: "string list \<Rightarrow> string \<Rightarrow> string \<Rightarrow> string \<times> string" where
  "dfs_positional [] command filename = (command, filename)"
| "dfs_positional (a # as) command filename =
     (if command = [] then dfs_positional as a filename
      else if filename = [] then dfs_positional as command a
      else dfs_positional as command filename)"

end
