(* ===== verification/DFSChecksum.thy ===== *)
theory DFSChecksum
  imports CRCParams DFSCommon
begin

text \<open>
  dfs\_file\_checksum of grpc/part2/src/dfs-utils.h: the CRC of a file, computed in chunks. The
  buffer is a local array: what it holds at first is an input, and what a chunk that is not full
  leaves of the chunk before is hashed again.
\<close>

definition byte_of :: "char \<Rightarrow> 8 word" where
  "byte_of c = of_char c"

definition DFS_BUFFERSIZE :: nat where "DFS_BUFFERSIZE = 4096"

definition checksum_bufsize :: "nat \<Rightarrow> nat" where
  "checksum_bufsize file_size =
     (if file_size < DFS_BUFFERSIZE
      then (if file_size div 2 \<le> 0 then 1 else file_size div 2) else DFS_BUFFERSIZE)"

text \<open>The loop, with the number of chunks that are left, the buffer and the rest of the file.\<close>

fun checksum_loop ::
  "32 word crc_table \<Rightarrow> nat \<Rightarrow> nat \<Rightarrow> string \<Rightarrow> string \<Rightarrow> 32 word \<Rightarrow> 32 word" where
  "checksum_loop table 0 buffer_size buffer rest crc = crc"
| "checksum_loop table (Suc n) buffer_size buffer rest crc =
     (let read_size = (if length rest < buffer_size then length rest else buffer_size);
          buffer' = take read_size rest @ drop read_size buffer
      in checksum_loop table n buffer_size buffer' (drop read_size rest)
           (crc_Calculate_table_append (map byte_of buffer') table crc))"

text \<open>A file that does not exist has the checksum 0. The number of chunks is 32 bits wide.\<close>

definition dfs_file_checksum ::
  "32 word crc_table \<Rightarrow> (nat \<Rightarrow> string) \<Rightarrow> string option \<Rightarrow> 32 word" where
  "dfs_file_checksum table junk file =
     (case file of
        None \<Rightarrow> 0
      | Some d \<Rightarrow>
          (let file_size = length d; buffer_size = checksum_bufsize file_size;
               chunk_count = (file_size div buffer_size mod 2 ^ 32
                              + of_bool (file_size mod buffer_size \<noteq> 0)) mod 2 ^ 32
           in checksum_loop table chunk_count buffer_size (junk buffer_size) d 0))"

definition dfs_crc_table :: "32 word crc_table" where
  "dfs_crc_table = crc_MakeTable CRC_32"

text \<open>What is hashed: the file, and the stale end of the buffer when the last chunk is not full.\<close>

definition checksum_input :: "string \<Rightarrow> string" where
  "checksum_input d =
     (let B = checksum_bufsize (length d); r = length d mod B in
      d @ (if r = 0 then [] else take (B - r) (drop (length d - B) d)))"

abbreviation crc32 :: "string \<Rightarrow> 32 word" where
  "crc32 s \<equiv> crc_Calculate (map byte_of s) CRC_32"

lemma crc32_append:
  "crc_Calculate_table_append (map byte_of b) dfs_crc_table (crc32 a) = crc32 (a @ b)"
  using crc_table_agrees [OF crc_wf_CRC_32] crc_parts [OF crc_wf_CRC_32]
  by (simp add: dfs_crc_table_def)

lemma crc32_empty: "crc_Calculate [] CRC_32 = 0"
  by (simp add: crc_Calculate_def CRC_32_def crc_make_def crc_CalculateRemainder_def Let_def
      crc_Finalize_def)

lemma checksum_bufsize_bounds:
  "0 < checksum_bufsize n" "0 < n \<Longrightarrow> checksum_bufsize n \<le> n"
  by (auto simp: checksum_bufsize_def DFS_BUFFERSIZE_def)

lemma checksum_loop_full:
  assumes "n * B \<le> length rest" "length buf = B" "0 < B"
  shows "\<exists>buf'. length buf' = B \<and> (0 < n \<longrightarrow> buf' = take B (drop ((n - 1) * B) rest)) \<and>
    checksum_loop dfs_crc_table (n + m) B buf rest (crc32 seen) =
    checksum_loop dfs_crc_table m B buf' (drop (n * B) rest) (crc32 (seen @ take (n * B) rest))"
  using assms
proof (induction n arbitrary: buf rest seen)
  case (Suc n)
  let ?b = "take B rest"
  have len: "B \<le> length rest" "n * B \<le> length (drop B rest)" using Suc.prems(1) by auto
  have step: "checksum_loop dfs_crc_table (Suc n + m) B buf rest (crc32 seen) =
      checksum_loop dfs_crc_table (n + m) B ?b (drop B rest) (crc32 (seen @ ?b))"
    using len Suc.prems(2) by (auto simp: Let_def crc32_append)
  obtain buf' where b: "length buf' = B" "0 < n \<longrightarrow> buf' = take B (drop ((n - 1) * B) (drop B rest))"
    "checksum_loop dfs_crc_table (n + m) B ?b (drop B rest) (crc32 (seen @ ?b)) =
     checksum_loop dfs_crc_table m B buf' (drop (n * B) (drop B rest))
       (crc32 ((seen @ ?b) @ take (n * B) (drop B rest)))"
    using Suc.IH [OF len(2) _ Suc.prems(3), of ?b "seen @ ?b"] len(1) by auto
  show ?case
  proof (cases "n = 0")
    case True
    then show ?thesis using step len by (intro exI [of _ ?b]) simp
  next
    case False
    have d: "(n - 1) * B + B = n * B" using False by (cases n) auto
    show ?thesis
      using False step b d
      by (intro exI [of _ buf']) (simp add: take_add [symmetric] add.commute flip: take_add)
  qed
qed auto

lemma checksum_loop_file:
  assumes "d \<noteq> []" and B: "B = checksum_bufsize (length d)" and "length buf = B"
  shows "checksum_loop dfs_crc_table (length d div B + of_bool (length d mod B \<noteq> 0)) B buf d 0 =
    crc32 (checksum_input d)"
proof -
  let ?q = "length d div B" and ?r = "length d mod B"
  have pos: "0 < B" "B \<le> length d" using checksum_bufsize_bounds [of "length d"] assms(1) B by auto
  then have q: "0 < ?q" by (simp add: div_greater_zero_iff)
  have qB: "?q * B + ?r = length d" "?q * B \<le> length d" by simp_all
  let ?m = "of_bool (?r \<noteq> 0) :: nat"
  obtain buf' where b: "length buf' = B" "buf' = take B (drop ((?q - 1) * B) d)"
    "checksum_loop dfs_crc_table (?q + ?m) B buf d (crc32 []) =
     checksum_loop dfs_crc_table ?m B buf' (drop (?q * B) d) (crc32 (take (?q * B) d))"
    using checksum_loop_full [OF qB(2) assms(3) pos(1), of ?m "[]"] q by auto
  show ?thesis
  proof (cases "?r = 0")
    case True
    then have "take (?q * B) d = d" using qB by simp
    with True b show ?thesis by (simp add: checksum_input_def Let_def crc32_empty flip: B)
  next
    case False
    have r: "length (drop (?q * B) d) = ?r" "?r < B" using qB pos by (auto simp: minus_div_mult_eq_mod)
    have s: "drop ?r buf' = take (B - ?r) (drop (length d - B) d)"
    proof -
      have "(?q - 1) * B + B = ?q * B" using q by (cases ?q) auto
      then have "?r + (?q - 1) * B = length d - B" using qB by linarith
      then show ?thesis by (simp add: b(2) drop_take)
    qed
    have "checksum_loop dfs_crc_table ?m B buf' (drop (?q * B) d) (crc32 (take (?q * B) d)) =
        crc32 (take (?q * B) d @ drop (?q * B) d @ drop ?r buf')"
      using False r by (simp add: Let_def crc32_append)
    also have "take (?q * B) d @ drop (?q * B) d @ drop ?r buf' = checksum_input d"
      using False s by (simp add: checksum_input_def Let_def flip: B)
    finally show ?thesis using b(3) by (simp add: crc32_empty)
  qed
qed

lemma checksum_of_file:
  assumes "d \<noteq> []" "length d < 2 ^ 32" "\<And>n. length (junk n) = n"
  shows "dfs_file_checksum dfs_crc_table junk (Some d) = crc32 (checksum_input d)"
proof -
  let ?B = "checksum_bufsize (length d)"
  have pos: "0 < ?B" "?B \<le> length d" using checksum_bufsize_bounds [of "length d"] assms(1) by auto
  have le: "length d div ?B + of_bool (length d mod ?B \<noteq> 0) \<le> length d"
  proof (cases "?B = 1")
    case False
    with pos have "2 \<le> ?B" by simp
    then have "length d div ?B \<le> length d div 2" by (rule div_le_mono2 [rotated]) simp
    moreover have "0 < length d" "length d mod ?B \<noteq> 0 \<Longrightarrow> length d \<noteq> 1"
      using assms(1) \<open>2 \<le> ?B\<close> pos by auto
    moreover have "length d \<noteq> 0 \<Longrightarrow> length d \<noteq> 1 \<Longrightarrow> length d div 2 + 1 \<le> length d" by presburger
    ultimately show ?thesis by (cases "length d mod ?B = 0") auto
  qed simp
  then have "(length d div ?B mod 2 ^ 32 + of_bool (length d mod ?B \<noteq> 0)) mod 2 ^ 32 =
      length d div ?B + of_bool (length d mod ?B \<noteq> 0)"
    using assms(2) by (simp add: mod_less)
  then show ?thesis
    unfolding dfs_file_checksum_def
    using checksum_loop_file [OF assms(1) refl assms(3)] by (simp add: Let_def)
qed

text \<open>
  C23. The checksum of a file that is not empty is the CRC-32 of its content, followed by the end of
  the chunk before the last one when the last chunk is not full. It does not depend on what the
  local buffer held before.
\<close>

theorem file_checksum_value:
  assumes "d \<noteq> []" "length d < 2 ^ 32" "\<And>n. length (junk n) = n"
  shows "dfs_file_checksum dfs_crc_table junk (Some d) = crc32 (checksum_input d) \<and>
    (length d mod checksum_bufsize (length d) = 0 \<longrightarrow>
       dfs_file_checksum dfs_crc_table junk (Some d) = crc32 d)"
  using checksum_of_file [OF assms] by (simp add: checksum_input_def Let_def)

theorem file_checksum_value_witness:
  "dfs_file_checksum dfs_crc_table (\<lambda>n. replicate n CHR ''x'') (Some ''1234'') = crc32 ''1234''"
proof -
  have "length ''1234'' = 4" by simp
  moreover have "(4::nat) mod checksum_bufsize 4 = 0" by (simp add: checksum_bufsize_def DFS_BUFFERSIZE_def)
  ultimately have "length ''1234'' mod checksum_bufsize (length ''1234'') = 0" by metis
  note aligned = this
  show ?thesis
    by (rule mp [OF conjunct2 [OF file_checksum_value] aligned]) simp_all
qed

end
