(* ===== verification/DFSServer2.thy ===== *)
theory DFSServer2
  imports DFSChecksum
begin

text \<open>
  grpc/part2/dfslib-servernode-p2.cpp: the handlers of the second server, with the table of write
  locks. A lock is the identifier of its owner, the empty string when it is free. The synchronous
  handlers run one at a time here (DFSConcurrent takes StoreFile apart); the lock table is only
  changed inside of them.
\<close>

section \<open>The write locks\<close>

record dfs_server =
  ds_fs :: filesys
  ds_write_map :: "string \<Rightarrow> string"

definition CheckLock :: "string \<Rightarrow> string \<Rightarrow> dfs_server \<Rightarrow> int \<times> dfs_server" where
  "CheckLock client_id name s =
     (if ds_write_map s name = []
      then (DFS_OK, s\<lparr>ds_write_map := (ds_write_map s)(name := client_id)\<rparr>)
      else if ds_write_map s name \<noteq> client_id then (DFS_RESOURCE_EXHAUSTED, s)
      else (DFS_OK, s))"

definition ReleaseLock :: "string \<Rightarrow> dfs_server \<Rightarrow> dfs_server" where
  "ReleaseLock name s = s\<lparr>ds_write_map := (ds_write_map s)(name := [])\<rparr>"

definition WriteLock :: "string \<Rightarrow> string \<Rightarrow> rpc_call \<Rightarrow> dfs_server \<Rightarrow> int \<times> unit \<times> dfs_server" where
  "WriteLock client_id name c s =
     (if IsCancelled c 0 then (DFS_DEADLINE_EXCEEDED, (), s)
      else (case CheckLock client_id name s of (st, s') \<Rightarrow> (st, (), s')))"

section \<open>The file handlers\<close>

text \<open>The checksum of the file with the server's or the client's table.\<close>

definition file_crc :: "(nat \<Rightarrow> string) \<Rightarrow> string \<Rightarrow> filesys \<Rightarrow> 32 word" where
  "file_crc junk path fs = dfs_file_checksum dfs_crc_table junk (fs_content fs path)"

definition StoreFile_p2 ::
  "string \<Rightarrow> (nat \<Rightarrow> string) \<Rightarrow> rpc_call \<Rightarrow> file_msg list \<Rightarrow> dfs_server \<Rightarrow> int \<times> dfs_server" where
  "StoreFile_p2 sm junk c ms s =
     (if IsCancelled c 0 then (DFS_DEADLINE_EXCEEDED, s)
      else (let first = (case ms of [] \<Rightarrow> empty_msg | m # _ \<Rightarrow> m);
                name = fm_name first; path = WrapPath sm name
            in case CheckLock (fm_clientid first) name s of
                 (lock_status, s1) \<Rightarrow>
                   if lock_status \<noteq> DFS_OK then (DFS_RESOURCE_EXHAUSTED, s1)
                   else if fm_crc first = file_crc junk path (ds_fs s1)
                     then (DFS_ALREADY_EXISTS, ReleaseLock name s1)
                   else if \<not> fs_writable (ds_fs s1) path then (DFS_CANCELLED, ReleaseLock name s1)
                   else (DFS_OK, ReleaseLock name (s1\<lparr>ds_fs :=
                          ofstream_write path (msg_data first @ concat (map msg_data (tl ms))) (ds_fs s1)\<rparr>))))"

definition DeleteFile_p2 :: "string \<Rightarrow> string \<Rightarrow> string \<Rightarrow> rpc_call \<Rightarrow> dfs_server \<Rightarrow> int \<times> unit \<times> dfs_server" where
  "DeleteFile_p2 sm client_id name c s =
     (if IsCancelled c 0 then (DFS_DEADLINE_EXCEEDED, (), s)
      else (case fs_files (ds_fs s) (WrapPath sm name) of
              None \<Rightarrow> (DFS_NOT_FOUND, (), s)
            | Some _ \<Rightarrow>
                (case CheckLock client_id name s of
                   (lock_status, s1) \<Rightarrow>
                     if lock_status \<noteq> DFS_OK then (DFS_RESOURCE_EXHAUSTED, (), s1)
                     else (DFS_OK, (), ReleaseLock name
                            (s1\<lparr>ds_fs := remove_file (WrapPath sm name) (ds_fs s1)\<rparr>)))))"

text \<open>FetchFile is the same as in part 1; it needs no lock.\<close>

definition FetchFile_p2 :: "string \<Rightarrow> string \<Rightarrow> rpc_call \<Rightarrow> dfs_server \<Rightarrow> int \<times> file_msg list" where
  "FetchFile_p2 sm name c s = FetchFile sm c name (ds_fs s)"

definition ListFile_p2 ::
  "string \<Rightarrow> directory \<Rightarrow> rpc_call \<Rightarrow> dfs_server \<Rightarrow> (int \<times> (string \<times> int) list) outcome" where
  "ListFile_p2 sm dir c s =
     (if IsCancelled c 0 then Ret (DFS_DEADLINE_EXCEEDED, [])
      else (case dir of
              None \<Rightarrow> Undef
            | Some es \<Rightarrow>
                if es = [] then Undef else Ret (DFS_OK, list_entries sm es (ds_fs s))))"

record status_crc =
  sc_name :: string
  sc_size :: int
  sc_mtime :: int
  sc_ctime :: int
  sc_crc :: "32 word"

definition empty_status_crc :: status_crc where
  "empty_status_crc = \<lparr>sc_name = [], sc_size = 0, sc_mtime = 0, sc_ctime = 0, sc_crc = 0\<rparr>"

definition status_of :: "string \<Rightarrow> (nat \<Rightarrow> string) \<Rightarrow> string \<Rightarrow> filesys \<Rightarrow> dfile \<Rightarrow> status_crc" where
  "status_of sm junk name fs f =
     \<lparr>sc_name = name, sc_size = c_int (int (length (df_content f))), sc_mtime = c_int (df_mtime f),
      sc_ctime = c_int (df_ctime f), sc_crc = file_crc junk (WrapPath sm name) fs\<rparr>"

definition StatusFile_p2 ::
  "string \<Rightarrow> (nat \<Rightarrow> string) \<Rightarrow> string \<Rightarrow> rpc_call \<Rightarrow> dfs_server \<Rightarrow> int \<times> status_crc \<times> dfs_server" where
  "StatusFile_p2 sm junk name c s =
     (if IsCancelled c 0 then (DFS_DEADLINE_EXCEEDED, empty_status_crc, s)
      else (case fs_files (ds_fs s) (WrapPath sm name) of
              None \<Rightarrow> (DFS_NOT_FOUND, empty_status_crc, s)
            | Some f \<Rightarrow> (DFS_OK, status_of sm junk name (ds_fs s) f, s)))"

text \<open>
  ProcessCallback: the list for the clients. After a stat that fails the next entry is read and
  dropped.
\<close>

fun callback_entries :: "string \<Rightarrow> (nat \<Rightarrow> string) \<Rightarrow> filesys \<Rightarrow> (string \<times> bool) list \<Rightarrow> status_crc list" where
  "callback_entries sm junk fs [] = []"
| "callback_entries sm junk fs ((n, reg) # es) =
     (if reg
      then (case fs_files fs (WrapPath sm n) of
              None \<Rightarrow> callback_entries sm junk fs (drop 1 es)
            | Some f \<Rightarrow> status_of sm junk n fs f # callback_entries sm junk fs es)
      else callback_entries sm junk fs es)"

definition ProcessCallback :: "string \<Rightarrow> (nat \<Rightarrow> string) \<Rightarrow> directory \<Rightarrow> dfs_server \<Rightarrow> status_crc list outcome" where
  "ProcessCallback sm junk dir s =
     (case dir of None \<Rightarrow> Undef | Some es \<Rightarrow> Ret (callback_entries sm junk (ds_fs s) es))"

section \<open>The lock table as a lock service\<close>

text \<open>
  What the handlers rely on: acquire succeeds exactly when the lock is free or the caller's, it
  then belongs to the caller, and nothing else changes.
\<close>

locale lock_service =
  fixes owner :: "'s \<Rightarrow> string \<Rightarrow> string"
    and acquire :: "string \<Rightarrow> string \<Rightarrow> 's \<Rightarrow> bool \<times> 's"
    and release :: "string \<Rightarrow> 's \<Rightarrow> 's"
  assumes acquire_ok: "fst (acquire i n s) \<longleftrightarrow> owner s n = [] \<or> owner s n = i"
    and acquire_owner: "owner (snd (acquire i n s)) m = (if m = n \<and> fst (acquire i n s) then i else owner s m)"
    and release_owner: "owner (release n s) m = (if m = n then [] else owner s m)"
begin

lemma excluded: "owner s n = a \<Longrightarrow> a \<noteq> [] \<Longrightarrow> i \<noteq> a \<Longrightarrow> \<not> fst (acquire i n s)"
  by (simp add: acquire_ok)

lemma keeps_owner: "owner s m = a \<Longrightarrow> a \<noteq> [] \<Longrightarrow> i \<noteq> a \<Longrightarrow> owner (snd (acquire i n s)) m = a"
  by (auto simp: acquire_owner acquire_ok)

lemma reentrant: "fst (acquire i n s) \<Longrightarrow> fst (acquire i n (snd (acquire i n s)))"
  by (auto simp: acquire_ok acquire_owner)

lemma after_release: "fst (acquire i n (release n s))"
  by (simp add: acquire_ok release_owner)

end

definition lock_acquire :: "string \<Rightarrow> string \<Rightarrow> dfs_server \<Rightarrow> bool \<times> dfs_server" where
  "lock_acquire i n s = (case CheckLock i n s of (st, s') \<Rightarrow> (st = DFS_OK, s'))"

interpretation lk: lock_service ds_write_map lock_acquire ReleaseLock
  by unfold_locales (auto simp: lock_acquire_def CheckLock_def ReleaseLock_def dfs_status)

lemma CheckLock_cases:
  "(CheckLock i n s = (DFS_OK, s\<lparr>ds_write_map := (ds_write_map s)(n := i)\<rparr>) \<and>
      (ds_write_map s n = [] \<or> ds_write_map s n = i)) \<or>
   (CheckLock i n s = (DFS_RESOURCE_EXHAUSTED, s) \<and> ds_write_map s n \<noteq> [] \<and> ds_write_map s n \<noteq> i)"
  by (auto simp: CheckLock_def intro!: dfs_server.equality)

lemma CheckLock_excluded:
  assumes "ds_write_map s n = a" "a \<noteq> []" "i \<noteq> a"
  shows "CheckLock i n s = (DFS_RESOURCE_EXHAUSTED, s)"
  using lk.excluded [OF assms] assms by (auto simp: lock_acquire_def CheckLock_def)

lemma CheckLock_fs: "CheckLock i n s = (st, s') \<Longrightarrow> ds_fs s' = ds_fs s"
  by (auto simp: CheckLock_def split: if_splits)

lemma CheckLock_keeps:
  assumes "ds_write_map s m = a" "a \<noteq> []" "i \<noteq> a" "CheckLock i n s = (st, s')"
  shows "ds_write_map s' m = a"
  using lk.keeps_owner [OF assms(1-3), of n] assms(4) by (simp add: lock_acquire_def)

section \<open>A lock protects its file\<close>

text \<open>One request to the server, by the handler that gets it.\<close>

datatype dfs_op =
  OpWriteLock string string
| OpStore "file_msg list"
| OpDelete string string
| OpFetch string
| OpStatus string

fun dfs_exec :: "string \<Rightarrow> (nat \<Rightarrow> string) \<Rightarrow> rpc_call \<times> dfs_op \<Rightarrow> dfs_server \<Rightarrow> dfs_server" where
  "dfs_exec sm junk (c, OpWriteLock i n) s = snd (snd (WriteLock i n c s))"
| "dfs_exec sm junk (c, OpStore ms) s = snd (StoreFile_p2 sm junk c ms s)"
| "dfs_exec sm junk (c, OpDelete i n) s = snd (snd (DeleteFile_p2 sm i n c s))"
| "dfs_exec sm junk (c, OpFetch n) s = s"
| "dfs_exec sm junk (c, OpStatus n) s = snd (snd (StatusFile_p2 sm junk n c s))"

text \<open>The client a request comes from; the requests that only read have none.\<close>

fun op_client :: "dfs_op \<Rightarrow> string option" where
  "op_client (OpWriteLock i n) = Some i"
| "op_client (OpStore ms) = Some (case ms of [] \<Rightarrow> [] | m # _ \<Rightarrow> fm_clientid m)"
| "op_client (OpDelete i n) = Some i"
| "op_client (OpFetch n) = None"
| "op_client (OpStatus n) = None"

definition lock_protects :: "string \<Rightarrow> string \<Rightarrow> string \<Rightarrow> dfs_server \<Rightarrow> dfs_server \<Rightarrow> bool" where
  "lock_protects sm a n s s' \<longleftrightarrow>
     ds_write_map s' n = a \<and> fs_files (ds_fs s') (WrapPath sm n) = fs_files (ds_fs s) (WrapPath sm n)"

abbreviation first_msg :: "file_msg list \<Rightarrow> file_msg" where
  "first_msg ms \<equiv> (case ms of [] \<Rightarrow> empty_msg | m # _ \<Rightarrow> m)"

lemma StoreFile_p2_locked:
  assumes "CheckLock (fm_clientid (first_msg ms)) (fm_name (first_msg ms)) s = (st, s1)"
    and "st \<noteq> DFS_OK"
  shows "snd (StoreFile_p2 sm junk c ms s) = (if IsCancelled c 0 then s else s1)"
  by (simp add: StoreFile_p2_def Let_def assms)

lemma StoreFile_p2_effect:
  assumes "CheckLock (fm_clientid (first_msg ms)) (fm_name (first_msg ms)) s = (st, s1)"
  obtains "snd (StoreFile_p2 sm junk c ms s) = s" | "snd (StoreFile_p2 sm junk c ms s) = s1"
  | fs' where "snd (StoreFile_p2 sm junk c ms s) = ReleaseLock (fm_name (first_msg ms)) (s1\<lparr>ds_fs := fs'\<rparr>)"
      "\<And>p. p \<noteq> WrapPath sm (fm_name (first_msg ms)) \<Longrightarrow> fs_files fs' p = fs_files (ds_fs s1) p"
proof -
  let ?r = "snd (StoreFile_p2 sm junk c ms s)" and ?n = "fm_name (first_msg ms)"
  let ?w = "ofstream_write (WrapPath sm ?n) (msg_data (first_msg ms) @ concat (map msg_data (tl ms))) (ds_fs s1)"
  have e: "s1\<lparr>ds_fs := ds_fs s1\<rparr> = s1" by simp
  have "?r = s \<or> ?r = s1 \<or> ?r = ReleaseLock ?n (s1\<lparr>ds_fs := ds_fs s1\<rparr>) \<or> ?r = ReleaseLock ?n (s1\<lparr>ds_fs := ?w\<rparr>)"
    unfolding StoreFile_p2_def Let_def assms prod.case e by simp
  with that show thesis by (metis ofstream_write_other(1))
qed

lemma StoreFile_p2_protects:
  assumes "ds_write_map s n = a" "a \<noteq> []" "(case ms of [] \<Rightarrow> [] | m # _ \<Rightarrow> fm_clientid m) \<noteq> a"
  shows "lock_protects sm a n s (snd (StoreFile_p2 sm junk c ms s))"
proof -
  have i: "fm_clientid (first_msg ms) \<noteq> a" using assms by (cases ms) (auto simp: empty_msg_def)
  obtain st s1 where ck: "CheckLock (fm_clientid (first_msg ms)) (fm_name (first_msg ms)) s = (st, s1)"
    by force
  have k: "ds_write_map s1 n = a" "ds_fs s1 = ds_fs s"
    using CheckLock_keeps [OF assms(1,2) i ck] CheckLock_fs [OF ck] by simp_all
  have same: "lock_protects sm a n s s" "lock_protects sm a n s s1"
    using assms(1) k by (simp_all add: lock_protects_def)
  show ?thesis
  proof (cases "fm_name (first_msg ms) = n")
    case True
    then have "st \<noteq> DFS_OK" using CheckLock_excluded [OF assms(1,2) i] ck by (simp add: dfs_status)
    from StoreFile_p2_locked [OF ck this] same show ?thesis by simp
  next
    case False
    have "lock_protects sm a n s (ReleaseLock (fm_name (first_msg ms)) (s1\<lparr>ds_fs := fs'\<rparr>))"
      if "\<forall>p. p \<noteq> WrapPath sm (fm_name (first_msg ms)) \<longrightarrow> fs_files fs' p = fs_files (ds_fs s1) p" for fs'
      using that False k by (simp add: lock_protects_def ReleaseLock_def)
    note third = this
    show ?thesis
      by (rule StoreFile_p2_effect [OF ck, of sm junk c]) (use same third in auto)
  qed
qed

lemma DeleteFile_p2_protects:
  assumes "ds_write_map s n = a" "a \<noteq> []" "i \<noteq> a"
  shows "lock_protects sm a n s (snd (snd (DeleteFile_p2 sm i m c s)))"
proof -
  obtain st s1 where ck: "CheckLock i m s = (st, s1)" by force
  have k: "ds_write_map s1 n = a" "ds_fs s1 = ds_fs s"
    using CheckLock_keeps [OF assms ck] CheckLock_fs [OF ck] by simp_all
  have same: "lock_protects sm a n s s" "lock_protects sm a n s s1"
    using assms(1) k by (simp_all add: lock_protects_def)
  show ?thesis
  proof (cases "m = n")
    case True
    then have "st \<noteq> DFS_OK" using CheckLock_excluded [OF assms] ck by (simp add: dfs_status)
    with same ck show ?thesis
      by (cases "fs_files (ds_fs s) (WrapPath sm m)") (simp_all add: DeleteFile_p2_def)
  next
    case False
    with k have "lock_protects sm a n s (ReleaseLock m (s1\<lparr>ds_fs := remove_file (WrapPath sm m) (ds_fs s1)\<rparr>))"
      by (simp add: lock_protects_def ReleaseLock_def)
    with same ck show ?thesis
      by (cases "fs_files (ds_fs s) (WrapPath sm m)") (simp_all add: DeleteFile_p2_def)
  qed
qed

lemma dfs_exec_protects:
  assumes "ds_write_map s n = a" "a \<noteq> []" "op_client r \<noteq> Some a"
  shows "lock_protects sm a n s (dfs_exec sm junk (c, r) s)"
proof (cases r)
  case (OpWriteLock i m)
  obtain st s1 where ck: "CheckLock i m s = (st, s1)" by force
  have "i \<noteq> a" using assms(3) OpWriteLock by simp
  from CheckLock_keeps [OF assms(1,2) this ck] CheckLock_fs [OF ck] ck assms(1) OpWriteLock show ?thesis
    by (simp add: WriteLock_def lock_protects_def)
next
  case (OpStore ms)
  with assms show ?thesis by (simp add: StoreFile_p2_protects)
next
  case (OpDelete i m)
  with assms show ?thesis by (simp add: DeleteFile_p2_protects)
qed (use assms in \<open>auto simp: lock_protects_def StatusFile_p2_def split: option.splits\<close>)


definition dfs_empty_server :: "(string \<Rightarrow> string) \<Rightarrow> dfs_server" where
  "dfs_empty_server m = \<lparr>ds_fs = \<lparr>fs_files = (\<lambda>p. None), fs_writable = (\<lambda>p. True), fs_now = 0\<rparr>, ds_write_map = m\<rparr>"


end
