(* ===== verification/DFSPart1.thy ===== *)
theory DFSPart1
  imports DFSCommon
begin

text \<open>
  grpc/part1: the handlers of dfslib-servernode-p1.cpp, the client of dfslib-clientnode-p1.cpp
  and the two mains. \<open>sm\<close> and \<open>cm\<close> are the mount paths of the server and of the client, \<open>sfs\<close>
  and \<open>lfs\<close> their files.
\<close>

section \<open>The server\<close>

text \<open>
  StoreFile: what is read before the first message is the empty message. A file that cannot be
  opened is reported on the terminal only; the status is OK all the same.
\<close>

definition StoreFile_p1 :: "string \<Rightarrow> rpc_call \<Rightarrow> file_msg list \<Rightarrow> filesys \<Rightarrow> int \<times> filesys" where
  "StoreFile_p1 sm c ms sfs =
     (if IsCancelled c 0 then (DFS_DEADLINE_EXCEEDED, sfs)
      else (let first = (case ms of [] \<Rightarrow> empty_msg | m # _ \<Rightarrow> m);
                path = WrapPath sm (fm_name first)
            in (DFS_OK, ofstream_write path (msg_data first @ concat (map msg_data (tl ms))) sfs)))"

definition DeleteFile_p1 :: "string \<Rightarrow> string \<Rightarrow> rpc_call \<Rightarrow> filesys \<Rightarrow> int \<times> unit \<times> filesys" where
  "DeleteFile_p1 sm name c sfs =
     (if IsCancelled c 0 then (DFS_DEADLINE_EXCEEDED, (), sfs)
      else (case fs_files sfs (WrapPath sm name) of
              None \<Rightarrow> (DFS_NOT_FOUND, (), sfs)
            | Some _ \<Rightarrow> (DFS_OK, (), remove_file (WrapPath sm name) sfs)))"

definition ListFile_p1 ::
  "string \<Rightarrow> directory \<Rightarrow> rpc_call \<Rightarrow> filesys \<Rightarrow> (int \<times> (string \<times> int) list) outcome" where
  "ListFile_p1 sm dir c sfs =
     (case dir of
        None \<Rightarrow> Undef
      | Some es \<Rightarrow>
          if IsCancelled c 0 then Ret (DFS_DEADLINE_EXCEEDED, [])
          else if es = [] then Undef
          else Ret (DFS_OK, list_entries sm es sfs))"

record status_res =
  sr_name :: string
  sr_size :: int
  sr_mtime :: int
  sr_ctime :: int

definition empty_status :: status_res where
  "empty_status = \<lparr>sr_name = [], sr_size = 0, sr_mtime = 0, sr_ctime = 0\<rparr>"

definition StatusFile_p1 :: "string \<Rightarrow> string \<Rightarrow> rpc_call \<Rightarrow> filesys \<Rightarrow> int \<times> status_res \<times> filesys" where
  "StatusFile_p1 sm name c sfs =
     (if IsCancelled c 0 then (DFS_DEADLINE_EXCEEDED, empty_status, sfs)
      else (case fs_files sfs (WrapPath sm name) of
              None \<Rightarrow> (DFS_NOT_FOUND, empty_status, sfs)
            | Some f \<Rightarrow> (DFS_OK, \<lparr>sr_name = name, sr_size = c_int (int (length (df_content f))),
                sr_mtime = c_int (df_mtime f), sr_ctime = c_int (df_ctime f)\<rparr>, sfs)))"

section \<open>The client\<close>

definition Store_p1 ::
  "string \<Rightarrow> string \<Rightarrow> rpc_call \<Rightarrow> string \<Rightarrow> filesys \<Rightarrow> filesys \<Rightarrow> int \<times> filesys" where
  "Store_p1 cm sm c filename lfs sfs =
     (case fs_content lfs (WrapPath cm filename) of
        None \<Rightarrow> (DFS_CANCELLED, sfs)
      | Some d \<Rightarrow>
          (case rpc_upload c (file_msgs filename [] 0 d) (StoreFile_p1 sm) sfs of
             (st, sfs') \<Rightarrow>
               (if st = DFS_OK then DFS_OK
                else if st = 4 then DFS_DEADLINE_EXCEEDED else DFS_CANCELLED, sfs')))"

text \<open>
  Fetch opens the local file, which empties it, before it asks the server. A file that cannot
  be opened is only reported.
\<close>

definition Fetch_p1 ::
  "string \<Rightarrow> string \<Rightarrow> rpc_call \<Rightarrow> string \<Rightarrow> filesys \<Rightarrow> filesys \<Rightarrow> int \<times> filesys" where
  "Fetch_p1 cm sm c filename sfs lfs =
     (case rpc_download c (\<lambda>c. FetchFile sm c filename) sfs of
        (st, ms) \<Rightarrow>
          (if st = DFS_OK then DFS_OK
           else if st = 4 then DFS_DEADLINE_EXCEEDED
           else if st = 5 then DFS_NOT_FOUND
           else DFS_CANCELLED,
           ofstream_write (WrapPath cm filename) (concat (map msg_data ms)) lfs))"

definition Delete_p1 :: "string \<Rightarrow> rpc_call \<Rightarrow> string \<Rightarrow> filesys \<Rightarrow> int \<times> filesys" where
  "Delete_p1 sm c filename sfs =
     (case rpc_unary c () (DeleteFile_p1 sm filename) sfs of
        (st, _, sfs') \<Rightarrow>
          (if st = DFS_OK then DFS_OK
           else if st = 5 then DFS_NOT_FOUND
           else if st = 4 then DFS_DEADLINE_EXCEEDED
           else DFS_CANCELLED, sfs'))"

text \<open>Stat prints what it received; a file that is missing gives CANCELLED.\<close>

definition Stat_p1 :: "string \<Rightarrow> rpc_call \<Rightarrow> string \<Rightarrow> filesys \<Rightarrow> int \<times> status_res option" where
  "Stat_p1 sm c filename sfs =
     (case rpc_unary c empty_status (StatusFile_p1 sm filename) sfs of
        (st, r, _) \<Rightarrow>
          if st = DFS_OK then (DFS_OK, Some r)
          else (if st = 4 then DFS_DEADLINE_EXCEEDED else DFS_CANCELLED, None))"

text \<open>List: a crash of the server is seen as the status that gRPC gives for it.\<close>

definition List_p1 ::
  "string \<Rightarrow> directory \<Rightarrow> rpc_call \<Rightarrow> filesys \<Rightarrow> (string \<Rightarrow> int option) \<Rightarrow> int \<times> (string \<Rightarrow> int option)" where
  "List_p1 sm dir c sfs file_map =
     (case rpc_unary c [] (\<lambda>c fs. case ListFile_p1 sm dir c fs of
               Ret (st, l) \<Rightarrow> (st, l, fs) | _ \<Rightarrow> (DFS_UNAVAILABLE, [], fs)) sfs of
        (st, l, _) \<Rightarrow>
          if st = DFS_OK then (DFS_OK, map_insert_all l file_map)
          else (if st = 4 then DFS_DEADLINE_EXCEEDED else DFS_CANCELLED, file_map))"

section \<open>The mains\<close>

text \<open>
  ProcessCommand as the request that it makes of the client node. A command that passed the
  check of main without being a command is only logged.
\<close>

datatype dfs_request =
  ReqFetch string | ReqStore string | ReqDelete string | ReqList | ReqStat string | ReqMount | ReqUnknown

definition ProcessCommand_p1 :: "string \<Rightarrow> string \<Rightarrow> dfs_request" where
  "ProcessCommand_p1 command filename =
     (if command = ''fetch'' then ReqFetch filename
      else if command = ''store'' then ReqStore filename
      else if command = ''list'' then ReqList
      else if command = ''delete'' then ReqDelete filename
      else if command = ''stat'' then ReqStat filename
      else ReqUnknown)"

record dfs_client_config =
  dc_deadline_timeout :: int
  dc_debug_level :: int
  dc_mount_path :: string
  dc_server_address :: string

text \<open>LL\_ERROR is 1, the default of debug\_level.\<close>

definition dfs_client_default_p1 :: dfs_client_config where
  "dfs_client_default_p1 = \<lparr>dc_deadline_timeout = 10000, dc_debug_level = 1,
     dc_mount_path = ''mnt/client'', dc_server_address = ''0.0.0.0:42001''\<rparr>"

definition dfs_client_switch :: "char \<Rightarrow> string option \<Rightarrow> dfs_client_config \<Rightarrow> dfs_client_config outcome" where
  "dfs_client_switch ch arg c =
     (if ch = CHR ''a'' then string_arg arg (\<lambda>s. c\<lparr>dc_server_address := s\<rparr>)
      else if ch = CHR ''d'' then stoi_arg arg (\<lambda>n. c\<lparr>dc_debug_level := n\<rparr>)
      else if ch = CHR ''m'' then string_arg arg (\<lambda>s. c\<lparr>dc_mount_path := s\<rparr>)
      else if ch = CHR ''t'' then stoi_arg arg (\<lambda>n. c\<lparr>dc_deadline_timeout := n\<rparr>)
      else if ch = CHR ''h'' then Exits 1
      else if ch = CHR ''?'' then Exits 1
      else Exits ABORT)"

definition dfs_log_level :: "int \<Rightarrow> int \<Rightarrow> int" where
  "dfs_log_level old debug_level = (if 0 < debug_level \<and> debug_level \<le> 3 then debug_level + 1 else old)"

text \<open>
  main: the working directory, which paths exist, the options and the other arguments. The
  result: the log level, the mount path and the deadline of the client node, and the request.
\<close>

definition dfs_client_main_p1 ::
  "string option \<Rightarrow> (string \<Rightarrow> bool) \<Rightarrow> opts \<Rightarrow> string list \<Rightarrow>
   (int \<times> string \<times> int \<times> string \<times> dfs_request) outcome" where
  "dfs_client_main_p1 cwd exists os args =
     (case cwd of
        None \<Rightarrow> Exits 1
      | Some dir \<Rightarrow>
          bind_outcome (option_loop dfs_client_switch os dfs_client_default_p1) (\<lambda>c.
            let mount = (if dc_mount_path c = [] then dir @ ''/mnt/client'' else dc_mount_path c);
                (command, filename) = dfs_positional args [] []
            in if \<not> exists mount then Exits 1
               else if command = [] then Exits 1
               else if \<not> strstr ''fetch store delete list stat'' command then Exits 1
               else if filename = [] \<and> \<not> strstr ''list'' command then Exits 1
               else Ret (dfs_log_level 1 (dc_debug_level c), dfs_clean_path mount, dc_deadline_timeout c,
                         dc_server_address c, ProcessCommand_p1 command filename)))"

record dfs_server_config =
  dsc_debug_level :: int
  dsc_mount_path :: string
  dsc_server_address :: string
  dsc_num_async_threads :: int

definition dfs_server_default :: dfs_server_config where
  "dfs_server_default = \<lparr>dsc_debug_level = 1, dsc_mount_path = ''mnt/server/'',
     dsc_server_address = ''0.0.0.0:42001'', dsc_num_async_threads = 4\<rparr>"

definition dfs_server_switch_p1 :: "char \<Rightarrow> string option \<Rightarrow> dfs_server_config \<Rightarrow> dfs_server_config outcome" where
  "dfs_server_switch_p1 ch arg c =
     (if ch = CHR ''a'' then string_arg arg (\<lambda>s. c\<lparr>dsc_server_address := s\<rparr>)
      else if ch = CHR ''d'' then stoi_arg arg (\<lambda>n. c\<lparr>dsc_debug_level := n\<rparr>)
      else if ch = CHR ''m'' then string_arg arg (\<lambda>s. c\<lparr>dsc_mount_path := s\<rparr>)
      else Exits 1)"

text \<open>The result: the log level, and the address and mount path the server starts with.\<close>

definition dfs_server_main_p1 :: "opts \<Rightarrow> (int \<times> string \<times> string) outcome" where
  "dfs_server_main_p1 os =
     bind_outcome (option_loop dfs_server_switch_p1 os dfs_server_default) (\<lambda>c.
       Ret (dfs_log_level 1 (dsc_debug_level c), dsc_server_address c, dfs_clean_path (dsc_mount_path c)))"

section \<open>Lemmas\<close>

lemma StoreFile_p1_writes:
  assumes "StoreFile_p1 sm c (file_msgs name cid crc d) sfs = (DFS_OK, sfs')"
  shows "sfs' = ofstream_write (WrapPath sm name) d sfs"
proof -
  obtain m ms where ms: "file_msgs name cid crc d = m # ms"
    using file_msgs_shape(1) by (cases "file_msgs name cid crc d") auto
  then have "fm_name m = name" using file_msgs_shape(2) [of m name cid crc d] by simp
  moreover have "msg_data m @ concat (map msg_data ms) = d"
    using file_msgs_data [of name cid crc d] ms by simp
  ultimately show ?thesis
    using assms by (auto simp: StoreFile_p1_def ms Let_def dfs_status split: if_splits)
qed

lemma FetchFile_OK:
  assumes "FetchFile sm c name sfs = (DFS_OK, ms)"
  shows "\<exists>d. fs_content sfs (WrapPath sm name) = Some d \<and> concat (map msg_data ms) = d"
proof (cases "fs_content sfs (WrapPath sm name)")
  case (Some d)
  with assms have "ms = file_msgs name [] 0 d" by (auto simp: FetchFile_def dest: send_msgs_OK)
  with Some show ?thesis by (simp add: file_msgs_data)
qed (use assms in \<open>simp add: FetchFile_def dfs_status\<close>)

text \<open>
  Part 1, with any behaviour of the network: when one client's Store returns OK and another
  client's Fetch of the same name then returns OK, the second client's local file has exactly the
  bytes of the first one's, and no other file of the server or of the second client has changed.
\<close>

theorem p1_store_fetch:
  assumes "rpc_documented c1" "rpc_documented c2"
    and "fs_writable sfs (WrapPath sm name)" "fs_writable lfs2 (WrapPath cm2 name)"
    and "Store_p1 cm1 sm c1 name lfs1 sfs = (DFS_OK, sfs')"
    and "Fetch_p1 cm2 sm c2 name sfs' lfs2 = (DFS_OK, lfs2')"
  shows "fs_content lfs2' (WrapPath cm2 name) = fs_content lfs1 (WrapPath cm1 name) \<and>
    (\<forall>p. p \<noteq> WrapPath sm name \<longrightarrow> fs_files sfs' p = fs_files sfs p) \<and>
    (\<forall>p. p \<noteq> WrapPath cm2 name \<longrightarrow> fs_files lfs2' p = fs_files lfs2 p)"
proof -
  obtain d where d: "fs_content lfs1 (WrapPath cm1 name) = Some d"
    using assms(5) by (cases "fs_content lfs1 (WrapPath cm1 name)") (auto simp: Store_p1_def dfs_status)
  obtain st t where up: "rpc_upload c1 (file_msgs name [] 0 d) (StoreFile_p1 sm) sfs = (st, t)" by force
  with assms(5) d have "st = DFS_OK" "t = sfs'"
    by (auto simp: Store_p1_def dfs_status split: if_splits)
  with up rpc_upload_OK [OF assms(1)] have "StoreFile_p1 sm c1 (file_msgs name [] 0 d) sfs = (DFS_OK, sfs')"
    by metis
  then have w: "sfs' = ofstream_write (WrapPath sm name) d sfs" by (rule StoreFile_p1_writes)
  obtain st2 ms where dn: "rpc_download c2 (\<lambda>c. FetchFile sm c name) sfs' = (st2, ms)" by force
  with assms(6) have f: "st2 = DFS_OK" "lfs2' = ofstream_write (WrapPath cm2 name) (concat (map msg_data ms)) lfs2"
    by (auto simp: Fetch_p1_def dfs_status split: if_splits)
  with dn rpc_download_OK [OF assms(2)] have "FetchFile sm c2 name sfs' = (DFS_OK, ms)" by metis
  from FetchFile_OK [OF this] w have "concat (map msg_data ms) = d"
    using ofstream_write_content [OF assms(3)] by auto
  with f w d ofstream_write_content [OF assms(4)] show ?thesis by simp
qed

definition p1_fs :: "(string \<times> string) list \<Rightarrow> filesys" where
  "p1_fs files = \<lparr>fs_files = (\<lambda>p. map_option (\<lambda>d. \<lparr>df_content = d, df_mtime = 1, df_ctime = 1\<rparr>) (map_of files p)),
     fs_writable = (\<lambda>p. True), fs_now = 2\<rparr>"

theorem p1_store_fetch_witness:
  "fs_content (snd (Fetch_p1 ''b/'' ''s/'' rpc_ok ''f''
     (snd (Store_p1 ''a/'' ''s/'' rpc_ok ''f'' (p1_fs [(''a/f'', ''text'')]) (p1_fs [])))
     (p1_fs []))) ''b/f'' = Some ''text''"
proof -
  let ?s = "Store_p1 ''a/'' ''s/'' rpc_ok ''f'' (p1_fs [(''a/f'', ''text'')]) (p1_fs [])"
  let ?f = "Fetch_p1 ''b/'' ''s/'' rpc_ok ''f'' (snd ?s) (p1_fs [])"
  have l: "fs_content (p1_fs [(''a/f'', ''text'')]) (WrapPath ''a/'' ''f'') = Some ''text''"
    by (simp add: fs_content_def p1_fs_def WrapPath_def)
  obtain m ms where m: "file_msgs ''f'' [] 0 ''text'' = m # ms" "fm_name m = ''f''"
    using file_msgs_shape [where name = "''f''" and cid = "[]" and crc = 0 and d = "''text''"]
    by (cases "file_msgs ''f'' [] 0 ''text''") auto
  then have s: "?s = (DFS_OK, snd ?s)"
    by (simp add: Store_p1_def l StoreFile_p1_def Let_def split: prod.splits)
  have st: "StoreFile_p1 ''s/'' rpc_ok (file_msgs ''f'' [] 0 ''text'') (p1_fs []) = (DFS_OK, snd ?s)"
    using s by (simp add: Store_p1_def l split: prod.splits) (simp add: StoreFile_p1_def Let_def)
  have "fs_content (snd ?s) (WrapPath ''s/'' ''f'') = Some ''text''"
    using StoreFile_p1_writes [OF st] by (simp add: ofstream_write_content p1_fs_def)
  then have f: "?f = (DFS_OK, snd ?f)" by (simp add: Fetch_p1_def FetchFile_def)
  have "fs_content (snd ?f) (WrapPath ''b/'' ''f'') = fs_content (p1_fs [(''a/f'', ''text'')]) (WrapPath ''a/'' ''f'')"
    using p1_store_fetch [OF _ _ _ _ s f] by (simp add: p1_fs_def)
  with l show ?thesis by (simp add: WrapPath_def)
qed

lemma concat_map_take: "\<exists>k. concat (map f (take n ms)) = take k (concat (map f ms))"
proof -
  have "concat (map f ms) = concat (map f (take n ms)) @ concat (map f (drop n ms))"
    by (simp flip: concat_append map_append)
  then show ?thesis by (intro exI [of _ "length (concat (map f (take n ms)))"]) simp
qed

lemma FetchFile_prefix:
  assumes "FetchFile sm c name sfs = (st, ms)"
  shows "\<exists>k. concat (map msg_data (take n ms)) =
    take k (case fs_content sfs (WrapPath sm name) of None \<Rightarrow> [] | Some d \<Rightarrow> d)"
proof (cases "fs_content sfs (WrapPath sm name)")
  case (Some d)
  with assms obtain j where "ms = take j (file_msgs name [] 0 d)"
    by (auto simp: FetchFile_def dest: send_msgs_prefix)
  then have "take n ms = take (min n j) (file_msgs name [] 0 d)" by (simp add: min.commute)
  with concat_map_take [of msg_data "min n j" "file_msgs name [] 0 d"] Some show ?thesis
    by (simp add: file_msgs_data)
qed (use assms in \<open>simp add: FetchFile_def\<close>)

text \<open>
  Part 1: a Fetch that is answered in any way, also with an error, has thrown away what the
  local file contained; what it holds then is the beginning of the server's file, and nothing when
  the server has no such file.
\<close>

theorem p1_fetch_replaces_local:
  assumes "fs_writable lfs (WrapPath cm name)" "Fetch_p1 cm sm c name sfs lfs = (st, lfs')"
  shows "\<exists>k. fs_content lfs' (WrapPath cm name) =
    Some (take k (case fs_content sfs (WrapPath sm name) of None \<Rightarrow> [] | Some d \<Rightarrow> d))"
proof -
  obtain st' ms where dn: "rpc_download c (\<lambda>c. FetchFile sm c name) sfs = (st', ms)" by force
  with assms(2) have l: "lfs' = ofstream_write (WrapPath cm name) (concat (map msg_data ms)) lfs"
    by (auto simp: Fetch_p1_def)
  obtain st2 all where h: "FetchFile sm c name sfs = (st2, all)" by force
  from dn h have "\<exists>n. ms = take n all"
    by (cases "rc_cut c") (auto simp: rpc_download_def cut_msgs_def intro: exI [of _ "length all"] exI [of _ 0] split: if_splits)
  then obtain n where "ms = take n all" ..
  with FetchFile_prefix [OF h, of n] l ofstream_write_content [OF assms(1)] show ?thesis by auto
qed

theorem p1_fetch_replaces_local_witness:
  "fs_content (snd (Fetch_p1 ''b/'' ''s/'' rpc_ok ''f'' (p1_fs []) (p1_fs [(''b/f'', ''old'')]))) ''b/f'' = Some []"
proof -
  let ?r = "Fetch_p1 ''b/'' ''s/'' rpc_ok ''f'' (p1_fs []) (p1_fs [(''b/f'', ''old'')])"
  have "?r = (fst ?r, snd ?r)" by simp
  from p1_fetch_replaces_local [OF _ this] show ?thesis
    by (simp add: p1_fs_def fs_content_def WrapPath_def)
qed

end
