(* ===== verification/DFSClient2.thy ===== *)
theory DFSClient2
  imports DFSServer2 DFSPart1
begin

text \<open>
  grpc/part2: the client node of dfslib-clientnode-p2.cpp against the server of DFSServer2, and
  the programs dfs-client-p2.cpp and dfs-server-p2.cpp. The callback of inotify and the handler
  of the server's list both run under the mutex of the node, so they are single steps here.
\<close>

record dfs_env =
  de_mount :: string
  de_client_id :: string
  de_server_mount :: string
  de_junk :: "nat \<Rightarrow> string"

section \<open>The requests of the client\<close>

definition RequestWriteAccess :: "dfs_env \<Rightarrow> rpc_call \<Rightarrow> string \<Rightarrow> dfs_server \<Rightarrow> int \<times> dfs_server" where
  "RequestWriteAccess e c filename s =
     (case rpc_unary c () (WriteLock (de_client_id e) filename) s of
        (st, _, s') \<Rightarrow>
          (if st = DFS_OK then DFS_OK
           else if st = 4 then DFS_DEADLINE_EXCEEDED
           else if st = 8 then DFS_RESOURCE_EXHAUSTED
           else DFS_CANCELLED, s'))"

definition Store_p2 ::
  "dfs_env \<Rightarrow> rpc_call \<Rightarrow> rpc_call \<Rightarrow> string \<Rightarrow> filesys \<Rightarrow> dfs_server \<Rightarrow> int \<times> dfs_server" where
  "Store_p2 e c1 c2 filename lfs s =
     (let path = WrapPath (de_mount e) filename in
      case fs_content lfs path of
        None \<Rightarrow> (DFS_CANCELLED, s)
      | Some d \<Rightarrow>
          (case RequestWriteAccess e c1 filename s of
             (status_code, s1) \<Rightarrow>
               if status_code \<noteq> DFS_OK then (status_code, s1)
               else (case rpc_upload c2
                        (file_msgs filename (de_client_id e) (file_crc (de_junk e) path lfs) d)
                        (StoreFile_p2 (de_server_mount e) (de_junk e)) s1 of
                       (st, s2) \<Rightarrow>
                         (if st = DFS_OK then DFS_OK
                          else if st = 4 then DFS_DEADLINE_EXCEEDED
                          else if st = 6 then DFS_ALREADY_EXISTS
                          else DFS_CANCELLED, s2))))"

text \<open>
  Fetch compares the checksum in the answer to Stat with that of the local file without looking
  at the status of the call.
\<close>

definition Fetch_p2 ::
  "dfs_env \<Rightarrow> rpc_call \<Rightarrow> rpc_call \<Rightarrow> string \<Rightarrow> dfs_server \<Rightarrow> filesys \<Rightarrow> int \<times> filesys" where
  "Fetch_p2 e c1 c2 filename s lfs =
     (let path = WrapPath (de_mount e) filename in
      case rpc_unary c1 empty_status_crc (StatusFile_p2 (de_server_mount e) (de_junk e) filename) s of
        (_, status_res, _) \<Rightarrow>
          if sc_crc status_res = file_crc (de_junk e) path lfs then (DFS_ALREADY_EXISTS, lfs)
          else if \<not> fs_writable lfs path then (DFS_CANCELLED, lfs)
          else (case rpc_download c2 (FetchFile_p2 (de_server_mount e) filename) s of
                  (st, ms) \<Rightarrow>
                    (if st = DFS_OK then DFS_OK
                     else if st = 4 then DFS_DEADLINE_EXCEEDED
                     else if st = 5 then DFS_NOT_FOUND
                     else DFS_CANCELLED,
                     ofstream_write path (concat (map msg_data ms)) lfs)))"

definition Delete_p2 :: "dfs_env \<Rightarrow> rpc_call \<Rightarrow> rpc_call \<Rightarrow> string \<Rightarrow> dfs_server \<Rightarrow> int \<times> dfs_server" where
  "Delete_p2 e c1 c2 filename s =
     (case RequestWriteAccess e c1 filename s of
        (status_code, s1) \<Rightarrow>
          if status_code \<noteq> DFS_OK then (status_code, s1)
          else (case rpc_unary c2 () (DeleteFile_p2 (de_server_mount e) (de_client_id e) filename) s1 of
                  (st, _, s2) \<Rightarrow>
                    (if st = DFS_OK then DFS_OK
                     else if st = 4 then DFS_DEADLINE_EXCEEDED
                     else if st = 5 then DFS_NOT_FOUND
                     else DFS_CANCELLED, s2)))"

definition List_p2 ::
  "dfs_env \<Rightarrow> directory \<Rightarrow> rpc_call \<Rightarrow> dfs_server \<Rightarrow> (string \<Rightarrow> int option) \<Rightarrow> int \<times> (string \<Rightarrow> int option)" where
  "List_p2 e dir c s file_map =
     (case rpc_unary c [] (\<lambda>c s. case ListFile_p2 (de_server_mount e) dir c s of
               Ret (st, l) \<Rightarrow> (st, l, s) | _ \<Rightarrow> (DFS_UNAVAILABLE, [], s)) s of
        (st, l, _) \<Rightarrow>
          if st = DFS_OK then (DFS_OK, map_insert_all l file_map)
          else (if st = 4 then DFS_DEADLINE_EXCEEDED else DFS_CANCELLED, file_map))"

definition Stat_p2 :: "dfs_env \<Rightarrow> rpc_call \<Rightarrow> string \<Rightarrow> dfs_server \<Rightarrow> int \<times> status_crc option" where
  "Stat_p2 e c filename s =
     (case rpc_unary c empty_status_crc (StatusFile_p2 (de_server_mount e) (de_junk e) filename) s of
        (st, r, _) \<Rightarrow>
          if st = DFS_OK then (DFS_OK, Some r)
          else (if st = 4 then DFS_DEADLINE_EXCEEDED else DFS_CANCELLED, None))"

section \<open>The list of the server's files\<close>

text \<open>
  One entry of the reply. access() is 0 when the file can be read, so the first branch is taken
  for a file that is not there: stat fails and st\_mtime is what the local variable held, \<open>mt\<close>.
  The calls are numbered: 0 and 1 for Store or Fetch, 2 and 3 for Delete.
\<close>

definition handle_entry ::
  "dfs_env \<Rightarrow> int \<Rightarrow> (nat \<Rightarrow> rpc_call) \<Rightarrow> status_crc \<Rightarrow> filesys \<times> dfs_server \<Rightarrow> filesys \<times> dfs_server" where
  "handle_entry e mt cs r w =
     (case w of (lfs, s) \<Rightarrow>
        let name = sc_name r; path = WrapPath (de_mount e) name in
        if fs_files lfs path = None
        then (let (lfs1, s1) =
                  (if sc_crc r \<noteq> file_crc (de_junk e) path lfs
                   then if sc_mtime r < mt then (lfs, snd (Store_p2 e (cs 0) (cs 1) name lfs s))
                        else (snd (Fetch_p2 e (cs 0) (cs 1) name s lfs), s)
                   else (lfs, s))
              in (lfs1, if sc_crc r = 0 then snd (Delete_p2 e (cs 2) (cs 3) path s1) else s1))
        else (snd (Fetch_p2 e (cs 0) (cs 1) name s lfs), s))"

fun handle_entries ::
  "dfs_env \<Rightarrow> (nat \<Rightarrow> int) \<Rightarrow> (nat \<Rightarrow> nat \<Rightarrow> rpc_call) \<Rightarrow> nat \<Rightarrow> status_crc list \<Rightarrow>
   filesys \<times> dfs_server \<Rightarrow> filesys \<times> dfs_server" where
  "handle_entries e mt cs k [] w = w"
| "handle_entries e mt cs k (r # rs) w =
     handle_entries e mt cs (Suc k) rs (handle_entry e (mt k) (cs k) r w)"

text \<open>
  One turn of HandleCallbackList: the completion (ok, status, reply). A turn that is not ok
  sleeps. Each turn ends with InitCallbackList, the next request for the list.
\<close>

definition HandleCallbackList ::
  "dfs_env \<Rightarrow> (nat \<Rightarrow> int) \<Rightarrow> (nat \<Rightarrow> nat \<Rightarrow> rpc_call) \<Rightarrow> bool \<times> int \<times> status_crc list \<Rightarrow>
   filesys \<times> dfs_server \<Rightarrow> filesys \<times> dfs_server" where
  "HandleCallbackList e mt cs completion w =
     (case completion of (ok, st, reply) \<Rightarrow>
        if ok \<and> st = DFS_OK then handle_entries e mt cs 0 reply w else w)"

section \<open>inotify\<close>

definition IN_MODIFY :: "32 word" where "IN_MODIFY = 0x2"
definition IN_CREATE :: "32 word" where "IN_CREATE = 0x100"
definition IN_DELETE :: "32 word" where "IN_DELETE = 0x200"

text \<open>The regular expression: any characters but line ends, a dot and one of the extensions.\<close>

definition watched_extensions :: "string list" where
  "watched_extensions =
     [''.jpg'', ''.png'', ''.gif'', ''.txt'', ''.xlsx'', ''.docx'', ''.md'', ''.psd'']"

definition watched_file :: "string \<Rightarrow> bool" where
  "watched_file f = list_ex (\<lambda>x. length x \<le> length f \<and> drop (length f - length x) f = x \<and>
     list_all (\<lambda>c. c \<noteq> char_of (10::nat) \<and> c \<noteq> char_of (13::nat)) (take (length f - length x) f))
     watched_extensions"

text \<open>The part after the last slash.\<close>

definition dfs_basename :: "string \<Rightarrow> string" where
  "dfs_basename f = rev (takeWhile (\<lambda>c. c \<noteq> CHR ''/'') (rev f))"

definition InotifyEventCallback ::
  "dfs_env \<Rightarrow> (nat \<Rightarrow> rpc_call) \<Rightarrow> 32 word \<Rightarrow> string \<Rightarrow> filesys \<Rightarrow> dfs_server \<Rightarrow> dfs_server" where
  "InotifyEventCallback e cs emask filename lfs s =
     (if \<not> watched_file filename then s
      else (let b = dfs_basename filename;
                s1 = (if emask AND IN_CREATE \<noteq> 0 then snd (Store_p2 e (cs 0) (cs 1) b lfs s) else s);
                s2 = (if emask AND IN_MODIFY \<noteq> 0 then snd (Store_p2 e (cs 2) (cs 3) b lfs s1) else s1)
            in if emask AND IN_DELETE \<noteq> 0 then snd (Delete_p2 e (cs 4) (cs 5) b s2) else s2))"

text \<open>
  InotifyWatcher: the events of one read, each with its mask and name. Hidden files and other
  events are skipped.
\<close>

fun InotifyWatcher ::
  "dfs_env \<Rightarrow> (nat \<Rightarrow> nat \<Rightarrow> rpc_call) \<Rightarrow> 32 word \<Rightarrow> nat \<Rightarrow> (32 word \<times> string) list \<Rightarrow>
   filesys \<Rightarrow> dfs_server \<Rightarrow> dfs_server" where
  "InotifyWatcher e cs event_type k [] lfs s = s"
| "InotifyWatcher e cs event_type k ((emask, name) # evs) lfs s =
     InotifyWatcher e cs event_type (Suc k) evs lfs
       (if event_type AND emask \<noteq> 0 \<and> (name = [] \<or> hd name \<noteq> CHR ''.'')
        then InotifyEventCallback e (cs k) emask (de_mount e @ name) lfs s else s)"

text \<open>
  Mount: the path it watches with, the descriptors of inotify and the mask. back() of an empty
  string is undefined; exit(-1) is status 255. Mount then runs until its threads end.
\<close>

definition Mount :: "string \<Rightarrow> int \<Rightarrow> int \<Rightarrow> (string \<times> int \<times> int \<times> 32 word) outcome" where
  "Mount filepath fd wd =
     (if filepath = [] then Undef
      else if fd < 0 then Exits 255
      else Ret (dfs_clean_path filepath, fd, wd, (IN_CREATE OR IN_MODIFY) OR IN_DELETE))"

text \<open>
  Unmount: the flag of the node, and the system calls for the watches, each with its inotify and
  its watch descriptor. The arguments of inotify\_rm\_watch are exchanged. The result of
  std::unique is not used; on descriptors that differ it changes nothing.
\<close>

datatype unmount_call = InotifyRmWatch int int | CloseFd int

definition Unmount :: "(int \<times> int) list \<Rightarrow> bool \<times> unmount_call list" where
  "Unmount watches =
     (True, map (\<lambda>(fd, wd). InotifyRmWatch wd fd) watches @ map (\<lambda>(fd, wd). CloseFd fd) watches)"

text \<open>The identifier of a client: the name of its host and the number of its thread.\<close>

definition new_client_id :: "string \<Rightarrow> string \<Rightarrow> string" where
  "new_client_id host thread_id = host @ ''T'' @ thread_id"

lemma new_client_id_owns: "new_client_id h t \<noteq> []"
  by (simp add: new_client_id_def)

section \<open>The mains\<close>

text \<open>The command mount is not part of the second chain of tests, so it is logged as unknown too.\<close>

definition ProcessCommand_p2 :: "string \<Rightarrow> string \<Rightarrow> dfs_request list" where
  "ProcessCommand_p2 command filename =
     (if command = ''mount'' then [ReqMount] else []) @
     [if command = ''fetch'' then ReqFetch filename
      else if command = ''store'' then ReqStore filename
      else if command = ''delete'' then ReqDelete filename
      else if command = ''list'' then ReqList
      else if command = ''stat'' then ReqStat filename
      else ReqUnknown]"

definition dfs_client_default_p2 :: dfs_client_config where
  "dfs_client_default_p2 = \<lparr>dc_deadline_timeout = 10000, dc_debug_level = 1, dc_mount_path = [],
     dc_server_address = ''0.0.0.0:42001''\<rparr>"

definition dfs_client_main_p2 ::
  "string option \<Rightarrow> (string \<Rightarrow> bool) \<Rightarrow> opts \<Rightarrow> string list \<Rightarrow>
   (int \<times> string \<times> int \<times> string \<times> dfs_request list) outcome" where
  "dfs_client_main_p2 cwd exists os args =
     (case cwd of
        None \<Rightarrow> Exits 1
      | Some dir \<Rightarrow>
          bind_outcome (option_loop dfs_client_switch os dfs_client_default_p2) (\<lambda>c.
            let mount = (if dc_mount_path c = [] then dir @ ''/mnt/client'' else dc_mount_path c);
                (command, filename) = dfs_positional args [] []
            in if \<not> exists mount then Exits 1
               else if command = [] then Exits 1
               else if \<not> strstr ''fetch store delete list stat mount sync'' command then Exits 1
               else if filename = [] \<and> \<not> strstr ''list mount sync'' command then Exits 1
               else Ret (dfs_log_level 1 (dc_debug_level c), dfs_clean_path mount, dc_deadline_timeout c,
                         dc_server_address c, ProcessCommand_p2 command filename)))"

definition dfs_server_switch_p2 :: "char \<Rightarrow> string option \<Rightarrow> dfs_server_config \<Rightarrow> dfs_server_config outcome" where
  "dfs_server_switch_p2 ch arg c =
     (if ch = CHR ''a'' then string_arg arg (\<lambda>s. c\<lparr>dsc_server_address := s\<rparr>)
      else if ch = CHR ''d'' then stoi_arg arg (\<lambda>n. c\<lparr>dsc_debug_level := n\<rparr>)
      else if ch = CHR ''m'' then string_arg arg (\<lambda>s. c\<lparr>dsc_mount_path := s\<rparr>)
      else if ch = CHR ''n'' then stoi_arg arg (\<lambda>n. c\<lparr>dsc_num_async_threads := n\<rparr>)
      else Exits 1)"

definition dfs_server_main_p2 :: "opts \<Rightarrow> (int \<times> string \<times> string \<times> int) outcome" where
  "dfs_server_main_p2 os =
     bind_outcome (option_loop dfs_server_switch_p2 os dfs_server_default) (\<lambda>c.
       Ret (dfs_log_level 1 (dsc_debug_level c), dsc_server_address c, dfs_clean_path (dsc_mount_path c),
            dsc_num_async_threads c))"

section \<open>Lemmas\<close>

lemma RequestWriteAccess_ok:
  assumes "ds_write_map s n = [] \<or> ds_write_map s n = de_client_id e"
  shows "RequestWriteAccess e rpc_ok n s =
    (DFS_OK, s\<lparr>ds_write_map := (ds_write_map s)(n := de_client_id e)\<rparr>)"
  using CheckLock_cases [of "de_client_id e" n s] assms
  by (auto simp: RequestWriteAccess_def WriteLock_def dfs_status)

lemma RequestWriteAccess_locked:
  assumes "ds_write_map s n \<noteq> []" "ds_write_map s n \<noteq> de_client_id e"
  shows "RequestWriteAccess e rpc_ok n s = (DFS_RESOURCE_EXHAUSTED, s)"
  using CheckLock_excluded [OF refl assms(1), of "de_client_id e"] assms
  by (auto simp: RequestWriteAccess_def WriteLock_def dfs_status)

lemma CheckLock_own: "CheckLock i n (s\<lparr>ds_write_map := (ds_write_map s)(n := i)\<rparr>) =
    (DFS_OK, s\<lparr>ds_write_map := (ds_write_map s)(n := i)\<rparr>)"
  by (simp add: CheckLock_def)

lemma file_msgs_Cons:
  obtains m ms where "file_msgs name cid crc d = m # ms" "fm_name m = name" "fm_clientid m = cid"
    "fm_crc m = crc" "msg_data m @ concat (map msg_data ms) = d"
proof -
  obtain m ms where ms: "file_msgs name cid crc d = m # ms"
    using file_msgs_shape(1) by (cases "file_msgs name cid crc d") auto
  with that file_msgs_shape(2) [of m name cid crc d] file_msgs_data [of name cid crc d] show thesis by simp
qed

lemma StoreFile_p2_file:
  assumes "CheckLock i n s = (DFS_OK, s1)"
  shows "StoreFile_p2 sm junk rpc_ok (file_msgs n i crc d) s =
    (if crc = file_crc junk (WrapPath sm n) (ds_fs s1) then (DFS_ALREADY_EXISTS, ReleaseLock n s1)
     else if \<not> fs_writable (ds_fs s1) (WrapPath sm n) then (DFS_CANCELLED, ReleaseLock n s1)
     else (DFS_OK, ReleaseLock n (s1\<lparr>ds_fs := ofstream_write (WrapPath sm n) d (ds_fs s1)\<rparr>)))"
proof -
  obtain m ms where m: "file_msgs n i crc d = m # ms" "fm_name m = n" "fm_clientid m = i"
    "fm_crc m = crc" "msg_data m @ concat (map msg_data ms) = d" by (rule file_msgs_Cons)
  then show ?thesis using assms by (simp add: StoreFile_p2_def Let_def)
qed

text \<open>What Store does when the calls arrive, on every branch.\<close>

lemma Store_p2_result:
  assumes d: "fs_content lfs (WrapPath (de_mount e) n) = Some d"
    and free: "ds_write_map s n = [] \<or> ds_write_map s n = de_client_id e"
  shows "Store_p2 e rpc_ok rpc_ok n lfs s =
    (if file_crc (de_junk e) (WrapPath (de_mount e) n) lfs =
        file_crc (de_junk e) (WrapPath (de_server_mount e) n) (ds_fs s)
     then (DFS_ALREADY_EXISTS, ReleaseLock n s)
     else if \<not> fs_writable (ds_fs s) (WrapPath (de_server_mount e) n) then (DFS_CANCELLED, ReleaseLock n s)
     else (DFS_OK, ReleaseLock n (s\<lparr>ds_fs := ofstream_write (WrapPath (de_server_mount e) n) d (ds_fs s)\<rparr>)))"
  unfolding Store_p2_def Let_def d RequestWriteAccess_ok [OF free] prod.case option.case
  by (simp add: StoreFile_p2_file [OF CheckLock_own] ReleaseLock_def dfs_status)

lemma Fetch_p2_result:
  assumes f: "fs_files (ds_fs s) (WrapPath (de_server_mount e) n) = Some f"
    and w: "fs_writable lfs (WrapPath (de_mount e) n)"
    and crc: "file_crc (de_junk e) (WrapPath (de_server_mount e) n) (ds_fs s) \<noteq>
      file_crc (de_junk e) (WrapPath (de_mount e) n) lfs"
  shows "Fetch_p2 e rpc_ok rpc_ok n s lfs =
    (DFS_OK, ofstream_write (WrapPath (de_mount e) n) (df_content f) lfs)"
  using assms
  by (simp add: Fetch_p2_def Let_def StatusFile_p2_def status_of_def FetchFile_p2_def FetchFile_def
      fs_content_def file_msgs_data)

section \<open>Results\<close>

text \<open>
  C10. Part 2: when the write lock is free, Store puts the file on the server, answers OK and leaves
  the lock free, and a Fetch of another client then gives it exactly that content; neither touches
  another file. This needs checksums that differ between the old and the new content.
\<close>

theorem p2_store_fetch:
  assumes "fs_content lfs (WrapPath (de_mount e) n) = Some d"
    and "ds_write_map s n = [] \<or> ds_write_map s n = de_client_id e"
    and "fs_writable (ds_fs s) (WrapPath (de_server_mount e) n)"
    and "fs_writable lfs' (WrapPath (de_mount e') n)" "de_server_mount e' = de_server_mount e"
    and "dfs_file_checksum dfs_crc_table (de_junk e) (Some d) \<noteq>
      file_crc (de_junk e) (WrapPath (de_server_mount e) n) (ds_fs s)"
    and "dfs_file_checksum dfs_crc_table (de_junk e') (Some d) \<noteq>
      file_crc (de_junk e') (WrapPath (de_mount e') n) lfs'"
  shows "\<exists>s' lfs''. Store_p2 e rpc_ok rpc_ok n lfs s = (DFS_OK, s') \<and> ds_write_map s' n = [] \<and>
    Fetch_p2 e' rpc_ok rpc_ok n s' lfs' = (DFS_OK, lfs'') \<and>
    fs_content lfs'' (WrapPath (de_mount e') n) = Some d \<and>
    (\<forall>p. p \<noteq> WrapPath (de_server_mount e) n \<longrightarrow> fs_files (ds_fs s') p = fs_files (ds_fs s) p) \<and>
    (\<forall>p. p \<noteq> WrapPath (de_mount e') n \<longrightarrow> fs_files lfs'' p = fs_files lfs' p)"
proof -
  let ?p = "WrapPath (de_server_mount e) n"
  let ?s = "ReleaseLock n (s\<lparr>ds_fs := ofstream_write ?p d (ds_fs s)\<rparr>)"
  have st: "Store_p2 e rpc_ok rpc_ok n lfs s = (DFS_OK, ?s)"
    using Store_p2_result [OF assms(1,2)] assms(3,6) by (simp add: file_crc_def assms(1))
  have c: "fs_content (ds_fs ?s) ?p = Some d"
    using assms(3) by (simp add: ReleaseLock_def ofstream_write_content)
  then obtain f where f: "fs_files (ds_fs ?s) (WrapPath (de_server_mount e') n) = Some f" "df_content f = d"
    unfolding assms(5) by (auto simp: fs_content_def)
  have "Fetch_p2 e' rpc_ok rpc_ok n ?s lfs' = (DFS_OK, ofstream_write (WrapPath (de_mount e') n) d lfs')"
    using Fetch_p2_result [OF f(1) assms(4)] assms(5,7) c f(2) by (simp add: file_crc_def)
  with st ofstream_write_content [OF assms(4)] show ?thesis by (auto simp: ReleaseLock_def)
qed

text \<open>
  Part 2: an empty file is never stored. Its checksum is 0, which is also the checksum of a file
  that does not exist: the server answers that the file already exists and does not create it.
\<close>

theorem empty_file_not_stored:
  assumes "fs_content lfs (WrapPath (de_mount e) n) = Some []"
    and "ds_write_map s n = [] \<or> ds_write_map s n = de_client_id e"
    and "fs_files (ds_fs s) (WrapPath (de_server_mount e) n) = None"
  shows "\<exists>s'. Store_p2 e rpc_ok rpc_ok n lfs s = (DFS_ALREADY_EXISTS, s') \<and>
    fs_files (ds_fs s') (WrapPath (de_server_mount e) n) = None"
proof -
  have "file_crc (de_junk e) (WrapPath (de_mount e) n) lfs = 0"
    by (simp add: file_crc_def assms(1) dfs_file_checksum_def Let_def)
  moreover have "file_crc (de_junk e) (WrapPath (de_server_mount e) n) (ds_fs s) = 0"
    by (simp add: file_crc_def fs_content_def assms(3) dfs_file_checksum_def)
  ultimately show ?thesis
    using Store_p2_result [OF assms(1,2)] assms(3) by (simp add: ReleaseLock_def)
qed

text \<open>
  C37. Part 2: a Delete of a file that the server does not have leaves the write lock with the
  client: from then on another client's Store of that name fails with RESOURCE_EXHAUSTED.
\<close>

theorem delete_missing_keeps_lock:
  assumes "ds_write_map s n = []" "de_client_id e \<noteq> []" "de_client_id e' \<noteq> de_client_id e"
    and "fs_files (ds_fs s) (WrapPath (de_server_mount e) n) = None"
    and "fs_content lfs' (WrapPath (de_mount e') n) = Some d"
  shows "\<exists>s'. Delete_p2 e rpc_ok rpc_ok n s = (DFS_NOT_FOUND, s') \<and>
    ds_write_map s' n = de_client_id e \<and>
    Store_p2 e' rpc_ok rpc_ok n lfs' s' = (DFS_RESOURCE_EXHAUSTED, s')"
proof -
  let ?s = "s\<lparr>ds_write_map := (ds_write_map s)(n := de_client_id e)\<rparr>"
  have "RequestWriteAccess e rpc_ok n s = (DFS_OK, ?s)" by (rule RequestWriteAccess_ok) (simp add: assms(1))
  then have "Delete_p2 e rpc_ok rpc_ok n s = (DFS_NOT_FOUND, ?s)"
    using assms(4) by (simp add: Delete_p2_def DeleteFile_p2_def dfs_status)
  moreover have "RequestWriteAccess e' rpc_ok n ?s = (DFS_RESOURCE_EXHAUSTED, ?s)"
    by (rule RequestWriteAccess_locked) (use assms(2,3) in auto)
  then have "Store_p2 e' rpc_ok rpc_ok n lfs' ?s = (DFS_RESOURCE_EXHAUSTED, ?s)"
    using assms(5) by (simp add: Store_p2_def Let_def dfs_status)
  ultimately show ?thesis by (intro exI [of _ ?s]) simp
qed

section \<open>One turn of the list handler\<close>

lemma callback_entries_status:
  "r \<in> set (callback_entries sm junk fs es) \<Longrightarrow>
     \<exists>n f. fs_files fs (WrapPath sm n) = Some f \<and> r = status_of sm junk n fs f"
  by (induction sm junk fs es rule: callback_entries.induct) (auto split: if_splits option.splits)

text \<open>What the turn makes of one local file.\<close>

definition follows_server :: "dfs_env \<Rightarrow> dfs_server \<Rightarrow> filesys \<Rightarrow> filesys \<Rightarrow> string \<Rightarrow> bool" where
  "follows_server e s lfs lfs' n \<longleftrightarrow>
     (let l = WrapPath (de_mount e) n; r = WrapPath (de_server_mount e) n in
      if file_crc (de_junk e) r (ds_fs s) = file_crc (de_junk e) l lfs
      then fs_files lfs' l = fs_files lfs l
      else fs_content lfs' l = fs_content (ds_fs s) r)"

lemma file_crc_cong: "fs_content fs p = fs_content fs' p' \<Longrightarrow> file_crc junk p fs = file_crc junk p' fs'"
  by (simp add: file_crc_def)

text \<open>
  When an entry is fetched: the local file can be written and exists, or it does not and the entry
  has a checksum and is not older than \<open>mt\<close>.
\<close>

definition entry_fetched :: "dfs_env \<Rightarrow> int \<Rightarrow> filesys \<Rightarrow> status_crc \<Rightarrow> bool" where
  "entry_fetched e mt lfs r \<longleftrightarrow>
     fs_writable lfs (WrapPath (de_mount e) (sc_name r)) \<and>
     (fs_files lfs (WrapPath (de_mount e) (sc_name r)) \<noteq> None \<or> sc_crc r \<noteq> 0 \<and> mt \<le> sc_mtime r)"

lemma file_crc_None: "fs_files fs p = None \<Longrightarrow> file_crc junk p fs = 0"
  by (simp add: file_crc_def fs_content_def dfs_file_checksum_def)

lemma handle_entry_follows:
  assumes ex: "entry_fetched e mt lfs r"
    and f: "fs_files (ds_fs s) (WrapPath (de_server_mount e) n) = Some f"
    and r: "r = status_of (de_server_mount e) (de_junk e) n (ds_fs s) f"
  obtains lfs1 where "handle_entry e mt (\<lambda>j. rpc_ok) r (lfs, s) = (lfs1, s)"
    "follows_server e s lfs lfs1 n"
    "\<And>p. p \<noteq> WrapPath (de_mount e) n \<Longrightarrow> fs_files lfs1 p = fs_files lfs p"
    "fs_files lfs1 (WrapPath (de_mount e) n) \<noteq> None" "fs_writable lfs1 = fs_writable lfs"
proof -
  have n: "sc_name r = n" "sc_crc r = file_crc (de_junk e) (WrapPath (de_server_mount e) n) (ds_fs s)"
    by (simp_all add: r status_of_def)
  have w: "fs_writable lfs (WrapPath (de_mount e) n)" using ex n by (simp add: entry_fetched_def)
  show thesis
  proof (cases "file_crc (de_junk e) (WrapPath (de_server_mount e) n) (ds_fs s) =
      file_crc (de_junk e) (WrapPath (de_mount e) n) lfs")
    case True
    then have "Fetch_p2 e rpc_ok rpc_ok n s lfs = (DFS_ALREADY_EXISTS, lfs)"
      using f by (simp add: Fetch_p2_def Let_def StatusFile_p2_def status_of_def)
    moreover have x: "fs_files lfs (WrapPath (de_mount e) n) \<noteq> None"
      using ex True n file_crc_None [of lfs "WrapPath (de_mount e) n" "de_junk e"] by (auto simp: entry_fetched_def)
    ultimately have "handle_entry e mt (\<lambda>j. rpc_ok) r (lfs, s) = (lfs, s)"
      using n by (auto simp: handle_entry_def Let_def)
    from that [OF this] True x show thesis by (simp add: follows_server_def Let_def)
  next
    case False
    let ?l = "ofstream_write (WrapPath (de_mount e) n) (df_content f) lfs"
    have "Fetch_p2 e rpc_ok rpc_ok n s lfs = (DFS_OK, ?l)" by (rule Fetch_p2_result [OF f w False])
    then have h: "handle_entry e mt (\<lambda>j. rpc_ok) r (lfs, s) = (?l, s)"
      using ex n False by (auto simp: handle_entry_def Let_def entry_fetched_def)
    have c: "fs_content ?l (WrapPath (de_mount e) n) = Some (df_content f)"
      by (rule ofstream_write_content [OF w])
    then have "follows_server e s lfs ?l n" using False f by (simp add: follows_server_def fs_content_def Let_def)
    moreover have "fs_files ?l (WrapPath (de_mount e) n) \<noteq> None" using c by (auto simp: fs_content_def)
    ultimately show thesis using that [OF h] by simp
  qed
qed

lemma follows_server_step:
  assumes "follows_server e s lfs lfs1 n" "follows_server e s lfs1 lfs2 n"
  shows "follows_server e s lfs lfs2 n"
proof -
  let ?l = "WrapPath (de_mount e) n" and ?r = "WrapPath (de_server_mount e) n"
  show ?thesis
  proof (cases "file_crc (de_junk e) ?r (ds_fs s) = file_crc (de_junk e) ?l lfs")
    case True
    with assms(1) have u: "fs_files lfs1 ?l = fs_files lfs ?l" by (simp add: follows_server_def Let_def)
    then have "file_crc (de_junk e) ?l lfs1 = file_crc (de_junk e) ?l lfs" by (simp add: file_crc_def fs_content_def)
    with True assms(2) u show ?thesis by (simp add: follows_server_def Let_def)
  next
    case False
    with assms(1) have c: "fs_content lfs1 ?l = fs_content (ds_fs s) ?r" by (simp add: follows_server_def Let_def)
    then have "file_crc (de_junk e) ?l lfs1 = file_crc (de_junk e) ?r (ds_fs s)" by (rule file_crc_cong)
    with False assms(2) c show ?thesis by (simp add: follows_server_def fs_content_def Let_def)
  qed
qed

lemma handle_entries_follow:
  assumes "\<forall>r\<in>set rs. \<exists>n f. fs_files (ds_fs s) (WrapPath (de_server_mount e) n) = Some f \<and>
      r = status_of (de_server_mount e) (de_junk e) n (ds_fs s) f"
    and "\<And>r k. r \<in> set rs \<Longrightarrow> entry_fetched e (mt k) lfs r"
  shows "\<exists>lfs'. handle_entries e mt (\<lambda>k j. rpc_ok) k rs (lfs, s) = (lfs', s) \<and>
    (\<forall>r\<in>set rs. follows_server e s lfs lfs' (sc_name r)) \<and>
    (\<forall>p. p \<notin> (\<lambda>r. WrapPath (de_mount e) (sc_name r)) ` set rs \<longrightarrow> fs_files lfs' p = fs_files lfs p)"
  using assms
proof (induction rs arbitrary: lfs k)
  case Nil
  then show ?case by simp
next
  case (Cons r rs)
  obtain n f where f: "fs_files (ds_fs s) (WrapPath (de_server_mount e) n) = Some f"
    and r: "r = status_of (de_server_mount e) (de_junk e) n (ds_fs s) f" using Cons.prems(1) by auto
  then have n: "sc_name r = n" by (simp add: status_of_def)
  obtain lfs1 where h: "handle_entry e (mt k) (\<lambda>j. rpc_ok) r (lfs, s) = (lfs1, s)"
    "follows_server e s lfs lfs1 n"
    "\<And>p. p \<noteq> WrapPath (de_mount e) n \<Longrightarrow> fs_files lfs1 p = fs_files lfs p"
    "fs_files lfs1 (WrapPath (de_mount e) n) \<noteq> None" "fs_writable lfs1 = fs_writable lfs"
    by (rule handle_entry_follows [OF _ f r, of "mt k" lfs]) (use Cons.prems(2) in auto)
  have "entry_fetched e (mt j) lfs1 x" if "x \<in> set rs" for x j
    using Cons.prems(2) [of x j] that h(3-5) by (cases "sc_name x = n") (auto simp: entry_fetched_def)
  then obtain lfs' where I: "handle_entries e mt (\<lambda>k j. rpc_ok) (Suc k) rs (lfs1, s) = (lfs', s)"
    "\<forall>x\<in>set rs. follows_server e s lfs1 lfs' (sc_name x)"
    "\<forall>p. p \<notin> (\<lambda>r. WrapPath (de_mount e) (sc_name r)) ` set rs \<longrightarrow> fs_files lfs' p = fs_files lfs1 p"
    using Cons.IH [of lfs1 "Suc k"] Cons.prems(1) by (metis list.set_intros(2))
  have same: "follows_server e s lfs lfs' m" if "fs_files lfs1 (WrapPath (de_mount e) m) = fs_files lfs (WrapPath (de_mount e) m)"
    "follows_server e s lfs1 lfs' m" for m
  proof -
    have "fs_content lfs1 (WrapPath (de_mount e) m) = fs_content lfs (WrapPath (de_mount e) m)"
      using that(1) by (simp add: fs_content_def)
    then have "file_crc (de_junk e) (WrapPath (de_mount e) m) lfs1 = file_crc (de_junk e) (WrapPath (de_mount e) m) lfs"
      by (rule file_crc_cong)
    with that show ?thesis by (simp add: follows_server_def Let_def)
  qed
  have "follows_server e s lfs lfs' (sc_name x)" if "x \<in> set rs" for x
    using that I(2) h(2,3) same follows_server_step [of e s lfs lfs1 "sc_name x" lfs']
    by (cases "sc_name x = n") auto
  moreover have "follows_server e s lfs lfs' n"
  proof (cases "n \<in> sc_name ` set rs")
    case True
    then show ?thesis using calculation by auto
  next
    case False
    then have "WrapPath (de_mount e) n \<notin> (\<lambda>r. WrapPath (de_mount e) (sc_name r)) ` set rs"
      by (auto simp: image_iff)
    then have "fs_files lfs' (WrapPath (de_mount e) n) = fs_files lfs1 (WrapPath (de_mount e) n)"
      using I(3) by blast
    moreover from this have "fs_content lfs' (WrapPath (de_mount e) n) = fs_content lfs1 (WrapPath (de_mount e) n)"
      by (simp add: fs_content_def)
    ultimately show ?thesis using h(2) by (simp add: follows_server_def Let_def)
  qed
  ultimately show ?case using h(1,3) I n by (intro exI [of _ lfs']) auto
qed


section \<open>Witnesses\<close>

text \<open>Two clients, A with the mount path a/ and B with b/, and a server with the mount path s/.\<close>

definition dfs_A :: dfs_env where
  "dfs_A = \<lparr>de_mount = ''a/'', de_client_id = ''A'', de_server_mount = ''s/'', de_junk = (\<lambda>n. replicate n NUL)\<rparr>"

definition dfs_B :: dfs_env where
  "dfs_B = \<lparr>de_mount = ''b/'', de_client_id = ''B'', de_server_mount = ''s/'', de_junk = (\<lambda>n. replicate n NUL)\<rparr>"

definition dfs_srv :: "(string \<times> string) list \<Rightarrow> dfs_server" where
  "dfs_srv files = \<lparr>ds_fs = p1_fs files, ds_write_map = (\<lambda>n. [])\<rparr>"

lemma p1_fs_get [simp]:
  "fs_files (p1_fs files) p = map_option (\<lambda>d. \<lparr>df_content = d, df_mtime = 1, df_ctime = 1\<rparr>) (map_of files p)"
  "fs_writable (p1_fs files) p" "fs_content (p1_fs files) p = map_of files p"
  by (simp_all add: p1_fs_def fs_content_def option.map_comp o_def option.map_ident)

lemma dfs_envs [simp]:
  "de_mount dfs_A = ''a/''" "de_client_id dfs_A = ''A''" "de_server_mount dfs_A = ''s/''"
  "de_mount dfs_B = ''b/''" "de_client_id dfs_B = ''B''" "de_server_mount dfs_B = ''s/''"
  "length (de_junk dfs_A k) = k" "length (de_junk dfs_B k) = k"
  "ds_fs (dfs_srv files) = p1_fs files" "ds_write_map (dfs_srv files) = (\<lambda>n. [])"
  by (simp_all add: dfs_A_def dfs_B_def dfs_srv_def)

lemma crc32_1: "crc_Calculate [49] CRC_32 = 0x83DCEFB7"
  using crc_Calculate_int [where 'a = 32, of 32 "0x4c11db7" "0xffffffff" "[49]" "0xffffffff" True True]
  by (simp add: int_crc_eval CRC_32_def)

lemma checksum_1:
  assumes "\<And>n. length (junk n) = n"
  shows "dfs_file_checksum dfs_crc_table junk (Some ''1'') \<noteq> 0"
proof -
  have "checksum_input ''1'' = ''1''"
    by (simp add: checksum_input_def checksum_bufsize_def DFS_BUFFERSIZE_def Let_def)
  with checksum_of_file [of "''1''" junk, OF _ _ assms] show ?thesis
    by (simp add: byte_of_def crc32_1)
qed

lemma checksum_None: "dfs_file_checksum table junk None = 0"
  by (simp add: dfs_file_checksum_def)

theorem p2_store_fetch_witness:
  "\<exists>s' lfs''. Store_p2 dfs_A rpc_ok rpc_ok ''f'' (p1_fs [(''a/f'', ''1'')]) (dfs_srv []) = (DFS_OK, s') \<and>
    Fetch_p2 dfs_B rpc_ok rpc_ok ''f'' s' (p1_fs []) = (DFS_OK, lfs'') \<and>
    fs_content lfs'' ''b/f'' = Some ''1''"
  using p2_store_fetch [of "p1_fs [(''a/f'', ''1'')]" dfs_A "''f''" "''1''" "dfs_srv []" "p1_fs []" dfs_B]
    checksum_1 [of "de_junk dfs_A"] checksum_1 [of "de_junk dfs_B"]
  by (auto simp: WrapPath_def file_crc_def checksum_None)

theorem empty_file_not_stored_witness:
  "\<exists>s'. Store_p2 dfs_A rpc_ok rpc_ok ''f'' (p1_fs [(''a/f'', [])]) (dfs_srv []) = (DFS_ALREADY_EXISTS, s') \<and>
    fs_files (ds_fs s') ''s/f'' = None"
  using empty_file_not_stored [of "p1_fs [(''a/f'', [])]" dfs_A "''f''" "dfs_srv []"]
  by (simp add: WrapPath_def)

theorem delete_missing_keeps_lock_witness:
  "\<exists>s'. Delete_p2 dfs_A rpc_ok rpc_ok ''f'' (dfs_srv []) = (DFS_NOT_FOUND, s') \<and>
    Store_p2 dfs_B rpc_ok rpc_ok ''f'' (p1_fs [(''b/f'', ''1'')]) s' = (DFS_RESOURCE_EXHAUSTED, s')"
  using delete_missing_keeps_lock [of "dfs_srv []" "''f''" dfs_A dfs_B "p1_fs [(''b/f'', ''1'')]" "''1''"]
  by (auto simp: WrapPath_def)


end
