(* ===== verification/CommandLine.thy ===== *)
theory CommandLine
  imports GetOpt DFSClient2
begin

text \<open>
  The tables of options of all programs, and the mains of grpc on their whole command line.
\<close>

section \<open>The tables\<close>

text \<open>The option string of the call of getopt\_long, and the long options.\<close>

definition echoclient_options :: optspec where
  "echoclient_options =
     (''p:s:m:hx'',
      [(''server'', required_argument, CHR ''s''), (''port'', required_argument, CHR ''p''),
       (''message'', required_argument, CHR ''m''), (''help'', no_argument, CHR ''h'')])"

definition echoserver_options :: optspec where
  "echoserver_options =
     (''hx:m:p:'',
      [(''help'', no_argument, CHR ''h''), (''port'', required_argument, CHR ''p''),
       (''maxnpending'', required_argument, CHR ''m'')])"

definition transferclient_options :: optspec where
  "transferclient_options =
     (''xp:s:h:o:'',
      [(''server'', required_argument, CHR ''s''), (''output'', required_argument, CHR ''o''),
       (''port'', required_argument, CHR ''p''), (''help'', no_argument, CHR ''h'')])"

definition transferserver_options :: optspec where
  "transferserver_options =
     (''hf:xp:'',
      [(''help'', no_argument, CHR ''h''), (''port'', required_argument, CHR ''p''),
       (''filename'', required_argument, CHR ''f'')])"

definition download_options :: optspec where
  "download_options =
     (''l:rhp:s:n:'',
      [(''help'', no_argument, CHR ''h''), (''nrequests'', required_argument, CHR ''n''),
       (''port'', required_argument, CHR ''p''), (''workload-path'', required_argument, CHR ''l''),
       (''server'', required_argument, CHR ''s'')])"

definition gf_server_options :: optspec where
  "gf_server_options =
     (''hal:p:m:'',
      [(''help'', no_argument, CHR ''h''), (''content'', required_argument, CHR ''m''),
       (''port'', required_argument, CHR ''p'')])"

definition mt_client_options :: optspec where
  "mt_client_options =
     (''p:n:hs:t:r:w:'',
      [(''help'', no_argument, CHR ''h''), (''nrequests'', required_argument, CHR ''r''),
       (''server'', required_argument, CHR ''s''), (''port'', required_argument, CHR ''p''),
       (''workload-path'', required_argument, CHR ''w''),
       (''nthreads'', required_argument, CHR ''t'')])"

definition mt_server_options :: optspec where
  "mt_server_options =
     (''p:d:rhm:t:'',
      [(''help'', no_argument, CHR ''h''), (''delay'', required_argument, CHR ''d''),
       (''nthreads'', required_argument, CHR ''t''), (''content'', required_argument, CHR ''m''),
       (''port'', required_argument, CHR ''p'')])"

definition webproxy_options :: optspec where
  "webproxy_options =
     (''p:qs:xt:h'',
      [(''help'', no_argument, CHR ''h''), (''thread-count'', required_argument, CHR ''t''),
       (''port'', required_argument, CHR ''p''), (''server'', required_argument, CHR ''s'')])"

definition cacheproxy_options :: optspec where
  "cacheproxy_options =
     (''s:qht:xn:p:lz:'',
      [(''server'', required_argument, CHR ''s''),
       (''segment-count'', required_argument, CHR ''n''),
       (''listen-port'', required_argument, CHR ''p''),
       (''thread-count'', required_argument, CHR ''t''),
       (''segment-size'', required_argument, CHR ''z''), (''help'', no_argument, CHR ''h''),
       (''hidden'', no_argument, CHR ''i'')])"

definition cached_options :: optspec where
  "cached_options =
     (''d:ic:hlt:x'',
      [(''cachedir'', required_argument, CHR ''c''), (''nthreads'', required_argument, CHR ''t''),
       (''help'', no_argument, CHR ''h''), (''hidden'', no_argument, CHR ''i''),
       (''delay'', required_argument, CHR ''d'')])"

definition dfs_client_p1_options :: optspec where
  "dfs_client_p1_options =
     (''a:d:m:t:h'',
      [(''address'', optional_argument, CHR ''a''),
       (''debug_level'', optional_argument, CHR ''d''),
       (''mount_path'', optional_argument, CHR ''m''),
       (''deadline_timeout'', optional_argument, CHR ''t''), (''help'', no_argument, CHR ''h'')])"

definition dfs_server_p1_options :: optspec where
  "dfs_server_p1_options =
     (''a:d:m:h'',
      [(''address'', optional_argument, CHR ''a''),
       (''debug_level'', optional_argument, CHR ''d''),
       (''mount_path'', optional_argument, CHR ''m''), (''help'', no_argument, CHR ''h'')])"

definition dfs_client_p2_options :: optspec where
  "dfs_client_p2_options =
     (''a:d:m:r:t:h'',
      [(''address'', optional_argument, CHR ''a''),
       (''debug_level'', optional_argument, CHR ''d''),
       (''mount_path'', optional_argument, CHR ''m''),
       (''deadline_timeout'', optional_argument, CHR ''t''), (''help'', no_argument, CHR ''h'')])"

definition dfs_server_p2_options :: optspec where
  "dfs_server_p2_options =
     (''a:d:m:n:h'',
      [(''address'', optional_argument, CHR ''a''),
       (''debug_level'', optional_argument, CHR ''d''),
       (''mount_path'', optional_argument, CHR ''m''),
       (''num_async_threads'', optional_argument, CHR ''n''), (''help'', no_argument, CHR ''h'')])"

definition program_options :: "optspec list" where
  "program_options =
     [echoclient_options, echoserver_options, transferclient_options,
      transferserver_options, download_options, gf_server_options, mt_client_options,
      mt_server_options, webproxy_options, cacheproxy_options, cached_options,
      dfs_client_p1_options, dfs_server_p1_options, dfs_client_p2_options,
      dfs_server_p2_options]"

lemma program_options_names: "\<forall>sp\<in>set program_options. spec_names_ok sp"
  by code_simp


section \<open>The mains of grpc on their command lines\<close>

text \<open>argv without the name of the program.\<close>

definition dfs_client_argv_p1 ::
  "string option \<Rightarrow> (string \<Rightarrow> bool) \<Rightarrow> string list \<Rightarrow> (int \<times> string \<times> int \<times> string \<times> dfs_request) outcome" where
  "dfs_client_argv_p1 cwd exists argv =
     (case getopt_long dfs_client_p1_options argv of (os, args) \<Rightarrow> dfs_client_main_p1 cwd exists os args)"

definition dfs_client_argv_p2 ::
  "string option \<Rightarrow> (string \<Rightarrow> bool) \<Rightarrow> string list \<Rightarrow> (int \<times> string \<times> int \<times> string \<times> dfs_request list) outcome" where
  "dfs_client_argv_p2 cwd exists argv =
     (case getopt_long dfs_client_p2_options argv of (os, args) \<Rightarrow> dfs_client_main_p2 cwd exists os args)"

definition dfs_server_argv_p1 :: "string list \<Rightarrow> (int \<times> string \<times> string) outcome" where
  "dfs_server_argv_p1 argv = dfs_server_main_p1 (fst (getopt_long dfs_server_p1_options argv))"

definition dfs_server_argv_p2 :: "string list \<Rightarrow> (int \<times> string \<times> string \<times> int) outcome" where
  "dfs_server_argv_p2 argv = dfs_server_main_p2 (fst (getopt_long dfs_server_p2_options argv))"

text \<open>A long option of these programs gets no argument from the next element.\<close>

lemma getopt_optional:
  assumes "spec_names_ok sp" "map_of (snd sp) n = Some (optional_argument, c)"
  shows "getopt_long sp ((''--'' @ n) # argv) = ((c, None) # fst (getopt_long sp argv), snd (getopt_long sp argv))"
  using getopt_long_name(1) [OF assms] long_step_name(1) [OF assms(2)] names_ok_map_of [OF assms]
  by (simp add: Let_def del: getopt_long.simps(2))

lemma dfs_options_optional:
  "n \<in> {''address'', ''debug_level'', ''mount_path''} \<Longrightarrow>
     \<exists>c\<in>{CHR ''a'', CHR ''d'', CHR ''m''}.
       map_of (snd dfs_client_p1_options) n = Some (optional_argument, c) \<and>
       map_of (snd dfs_client_p2_options) n = Some (optional_argument, c) \<and>
       map_of (snd dfs_server_p1_options) n = Some (optional_argument, c) \<and>
       map_of (snd dfs_server_p2_options) n = Some (optional_argument, c)"
  by (auto simp: dfs_client_p1_options_def dfs_client_p2_options_def dfs_server_p1_options_def dfs_server_p2_options_def)

lemma dfs_names_ok:
  "spec_names_ok dfs_client_p1_options" "spec_names_ok dfs_client_p2_options"
  "spec_names_ok dfs_server_p1_options" "spec_names_ok dfs_server_p2_options"
  using program_options_names by (simp_all add: program_options_def)

text \<open>
  The long options address, debug\_level and mount\_path of all four programs of grpc are
  declared with an optional argument, but the value behind a blank, as the usage text shows it, is not
  their argument: optarg is a null pointer, and a string is made from it.
\<close>

theorem dfs_long_option_null:
  assumes "n \<in> {''address'', ''debug_level'', ''mount_path''}"
  shows "dfs_client_argv_p1 (Some dir) exists ((''--'' @ n) # argv) = Undef \<and>
    dfs_client_argv_p2 (Some dir) exists ((''--'' @ n) # argv) = Undef \<and>
    dfs_server_argv_p1 ((''--'' @ n) # argv) = Undef \<and> dfs_server_argv_p2 ((''--'' @ n) # argv) = Undef"
proof -
  obtain c where c: "c \<in> {CHR ''a'', CHR ''d'', CHR ''m''}"
    and m: "map_of (snd dfs_client_p1_options) n = Some (optional_argument, c)"
      "map_of (snd dfs_client_p2_options) n = Some (optional_argument, c)"
      "map_of (snd dfs_server_p1_options) n = Some (optional_argument, c)"
      "map_of (snd dfs_server_p2_options) n = Some (optional_argument, c)"
    using dfs_options_optional [OF assms] by blast
  have u: "dfs_client_switch c None cf = Undef" "dfs_server_switch_p1 c None cs = Undef"
    "dfs_server_switch_p2 c None cs = Undef" for cf cs
    using c by (auto simp: dfs_client_switch_def dfs_server_switch_p1_def dfs_server_switch_p2_def string_arg_def stoi_arg_def)
  show ?thesis
    unfolding dfs_client_argv_p1_def dfs_client_argv_p2_def dfs_server_argv_p1_def dfs_server_argv_p2_def
      getopt_optional [OF dfs_names_ok(1) m(1)] getopt_optional [OF dfs_names_ok(2) m(2)]
      getopt_optional [OF dfs_names_ok(3) m(3)] getopt_optional [OF dfs_names_ok(4) m(4)]
    by (simp add: dfs_client_main_p1_def dfs_client_main_p2_def dfs_server_main_p1_def dfs_server_main_p2_def u)
qed

section \<open>Witnesses\<close>


theorem dfs_long_option_null_witness:
  "dfs_client_argv_p2 (Some ''/home'') (\<lambda>p. True) [''--mount_path'', ''mnt'', ''list''] = Undef"
  using dfs_long_option_null [of "''mount_path''" "''/home''" "\<lambda>p. True" "[''mnt'', ''list'']"] by simp

end
