(* ===== verification/DFSConcurrent.thy ===== *)
theory DFSConcurrent
  imports DFSServer2
begin

text \<open>
  StoreFile of grpc/part2/dfslib-servernode-p2.cpp when several calls run at once, as the threads
  of the gRPC server run them: one handler is a sequence of steps, and the steps of different
  handlers are taken in any order. Only CheckLock is under the mutex.
\<close>

section \<open>A handler in steps\<close>

text \<open>
  The handler has read the first message: client, file name, checksum and data are known. It
  takes the lock, compares the checksums, opens the file (which empties it), writes the messages
  one after the other from its own position in the file on, and releases the lock.
\<close>

datatype spos = TStart | TCrc | TOpen | TWrite nat "string list" | TRelease int | TDone int

record store_thread =
  th_client :: string
  th_name :: string
  th_crc :: "32 word"
  th_data :: "string list"
  th_pos :: spos

record store_sys =
  ss_server :: dfs_server
  ss_threads :: "store_thread list"

text \<open>A write at a position of a file; what lies between its end and the position is zero.\<close>

definition write_at :: "nat \<Rightarrow> string \<Rightarrow> string \<Rightarrow> string" where
  "write_at off d c = take off (c @ replicate (off - length c) NUL) @ d @ drop (off + length d) c"

definition stream_write :: "string \<Rightarrow> nat \<Rightarrow> string \<Rightarrow> filesys \<Rightarrow> filesys" where
  "stream_write p off d fs =
     (case fs_content fs p of None \<Rightarrow> fs | Some c \<Rightarrow> ofstream_write p (write_at off d c) fs)"

definition StoreFile_step ::
  "string \<Rightarrow> (nat \<Rightarrow> string) \<Rightarrow> store_thread \<Rightarrow> dfs_server \<Rightarrow> (spos \<times> dfs_server) option" where
  "StoreFile_step sm junk th s =
     (let path = WrapPath sm (th_name th) in
      case th_pos th of
        TStart \<Rightarrow>
          (case CheckLock (th_client th) (th_name th) s of
             (st, s') \<Rightarrow> Some (if st = DFS_OK then TCrc else TDone DFS_RESOURCE_EXHAUSTED, s'))
      | TCrc \<Rightarrow>
          Some (if th_crc th = file_crc junk path (ds_fs s) then TRelease DFS_ALREADY_EXISTS else TOpen, s)
      | TOpen \<Rightarrow>
          Some (if \<not> fs_writable (ds_fs s) path then (TRelease DFS_CANCELLED, s)
                else (TWrite 0 (th_data th), s\<lparr>ds_fs := ofstream_write path [] (ds_fs s)\<rparr>))
      | TWrite off [] \<Rightarrow> Some (TRelease DFS_OK, s)
      | TWrite off (d # ds) \<Rightarrow>
          Some (TWrite (off + length d) ds, s\<lparr>ds_fs := stream_write path off d (ds_fs s)\<rparr>)
      | TRelease st \<Rightarrow> Some (TDone st, ReleaseLock (th_name th) s)
      | TDone st \<Rightarrow> None)"

definition store_step :: "string \<Rightarrow> (nat \<Rightarrow> string) \<Rightarrow> nat \<Rightarrow> store_sys \<Rightarrow> store_sys option" where
  "store_step sm junk w g =
     (if length (ss_threads g) \<le> w then None
      else (case StoreFile_step sm junk (ss_threads g ! w) (ss_server g) of
              None \<Rightarrow> None
            | Some (pos, s) \<Rightarrow>
                Some \<lparr>ss_server = s, ss_threads = (ss_threads g)[w := (ss_threads g ! w)\<lparr>th_pos := pos\<rparr>]\<rparr>))"

inductive store_reach :: "string \<Rightarrow> (nat \<Rightarrow> string) \<Rightarrow> store_sys \<Rightarrow> store_sys \<Rightarrow> bool" for sm junk g0 where
  store_init: "store_reach sm junk g0 g0"
| store_next: "store_reach sm junk g0 g \<Longrightarrow> store_step sm junk w g = Some g' \<Longrightarrow> store_reach sm junk g0 g'"

section \<open>The critical section\<close>

fun critical :: "spos \<Rightarrow> bool" where
  "critical TStart = False"
| "critical (TDone st) = False"
| "critical _ = True"

definition same_job :: "store_thread \<Rightarrow> store_thread \<Rightarrow> bool" where
  "same_job t u \<longleftrightarrow> th_client t = th_client u \<and> th_name t = th_name u"

text \<open>All calls are new, and no client runs two calls for one name at once.\<close>

definition fresh_calls :: "store_sys \<Rightarrow> bool" where
  "fresh_calls g \<longleftrightarrow>
     (\<forall>t\<in>set (ss_threads g). th_client t \<noteq> [] \<and> th_pos t = TStart) \<and>
     (\<forall>i j. i < j \<and> j < length (ss_threads g) \<longrightarrow> \<not> same_job (ss_threads g ! i) (ss_threads g ! j))"

text \<open>
  Data of a call, whole or as far as it is written, and what a name may hold when nobody is
  writing it: the first content, or all the data of a call that has written it.
\<close>

definition whole_store :: "store_sys \<Rightarrow> string \<Rightarrow> string option \<Rightarrow> bool" where
  "whole_store g n c \<longleftrightarrow> (\<exists>t\<in>set (ss_threads g). th_name t = n \<and>
     th_pos t \<in> {TRelease DFS_OK, TDone DFS_OK} \<and> c = Some (concat (th_data t)))"

definition writing :: "store_thread \<Rightarrow> bool" where
  "writing t = (case th_pos t of TWrite off ds \<Rightarrow> True | _ \<Rightarrow> False)"

definition written :: "store_thread \<Rightarrow> string option \<Rightarrow> bool" where
  "written t c = (case th_pos t of
     TWrite off ds \<Rightarrow> (\<exists>ds0. th_data t = ds0 @ ds \<and> c = Some (concat ds0) \<and> off = length (concat ds0)) | _ \<Rightarrow> True)"

definition store_inv :: "string \<Rightarrow> (string \<Rightarrow> string option \<Rightarrow> bool) \<Rightarrow> store_sys \<Rightarrow> store_sys \<Rightarrow> bool" where
  "store_inv sm Q g0 g \<longleftrightarrow>
     map (\<lambda>t. (th_client t, th_name t, th_data t)) (ss_threads g) =
       map (\<lambda>t. (th_client t, th_name t, th_data t)) (ss_threads g0) \<and>
     fs_writable (ds_fs (ss_server g)) = fs_writable (ds_fs (ss_server g0)) \<and>
     (\<forall>t\<in>set (ss_threads g). critical (th_pos t) \<longrightarrow>
        ds_write_map (ss_server g) (th_name t) = th_client t) \<and>
     (\<forall>t\<in>set (ss_threads g). written t (fs_content (ds_fs (ss_server g)) (WrapPath sm (th_name t))) \<and>
        (writing t \<longrightarrow> fs_writable (ds_fs (ss_server g)) (WrapPath sm (th_name t)))) \<and>
     (\<forall>n. (\<forall>t\<in>set (ss_threads g). th_name t = n \<longrightarrow> \<not> writing t) \<longrightarrow>
        Q n (fs_content (ds_fs (ss_server g)) (WrapPath sm n)) \<or>
        whole_store g n (fs_content (ds_fs (ss_server g)) (WrapPath sm n)))"

section \<open>Every step keeps the invariant\<close>

lemma all_update_iff:
  "w < length xs \<Longrightarrow> (\<forall>t\<in>set (xs[w := x]). P t) \<longleftrightarrow> P x \<and> (\<forall>v<length xs. v \<noteq> w \<longrightarrow> P (xs ! v))"
  by (auto simp: all_set_conv_all_nth nth_list_update)

lemma whole_store_update:
  assumes "w < length (ss_threads g)" "whole_store g n c"
    and "th_name (ss_threads g ! w) = n \<Longrightarrow> th_pos (ss_threads g ! w) \<in> {TRelease DFS_OK, TDone DFS_OK} \<Longrightarrow>
      p \<in> {TRelease DFS_OK, TDone DFS_OK}"
  shows "whole_store \<lparr>ss_server = s, ss_threads = (ss_threads g)[w := (ss_threads g ! w)\<lparr>th_pos := p\<rparr>]\<rparr> n c"
proof -
  obtain v where v: "v < length (ss_threads g)" "th_name (ss_threads g ! v) = n"
    "th_pos (ss_threads g ! v) \<in> {TRelease DFS_OK, TDone DFS_OK}" "c = Some (concat (th_data (ss_threads g ! v)))"
    using assms(2) unfolding whole_store_def by (metis in_set_conv_nth)
  show ?thesis
  proof (cases "v = w")
    case True
    with v assms(1,3) show ?thesis
      unfolding whole_store_def by (intro bexI [of _ "(ss_threads g ! w)\<lparr>th_pos := p\<rparr>"]) (auto intro: set_update_memI)
  next
    case False
    then have "ss_threads g ! v \<in> set ((ss_threads g)[w := (ss_threads g ! w)\<lparr>th_pos := p\<rparr>])"
      using v(1) by (metis length_list_update nth_list_update_neq nth_mem)
    with v show ?thesis unfolding whole_store_def by auto
  qed
qed

lemma store_inv_frame:
  assumes inv: "store_inv sm Q g0 g" and w: "w < length (ss_threads g)"
    and th: "th = ss_threads g ! w" and n: "n = th_name th"
    and g': "g' = \<lparr>ss_server = s', ss_threads = (ss_threads g)[w := th\<lparr>th_pos := p\<rparr>]\<rparr>"
    and a: "fs_writable (ds_fs s') = fs_writable (ds_fs (ss_server g))"
    and b: "critical p \<Longrightarrow> ds_write_map s' n = th_client th"
    and c: "\<And>v. v < length (ss_threads g) \<Longrightarrow> v \<noteq> w \<Longrightarrow> critical (th_pos (ss_threads g ! v)) \<Longrightarrow>
      ds_write_map s' (th_name (ss_threads g ! v)) = th_client (ss_threads g ! v)"
    and d: "written (th\<lparr>th_pos := p\<rparr>) (fs_content (ds_fs s') (WrapPath sm n))"
    and d': "writing (th\<lparr>th_pos := p\<rparr>) \<Longrightarrow> fs_writable (ds_fs s') (WrapPath sm n)"
    and f: "\<And>m. m \<noteq> n \<Longrightarrow> fs_content (ds_fs s') (WrapPath sm m) = fs_content (ds_fs (ss_server g)) (WrapPath sm m)"
    and e: "\<And>v. v < length (ss_threads g) \<Longrightarrow> v \<noteq> w \<Longrightarrow> th_name (ss_threads g ! v) = n \<Longrightarrow>
      writing (ss_threads g ! v) \<Longrightarrow>
      fs_content (ds_fs s') (WrapPath sm n) = fs_content (ds_fs (ss_server g)) (WrapPath sm n)"
    and i: "\<not> writing (th\<lparr>th_pos := p\<rparr>) \<Longrightarrow>
      (\<And>v. v < length (ss_threads g) \<Longrightarrow> v \<noteq> w \<Longrightarrow> th_name (ss_threads g ! v) = n \<Longrightarrow> \<not> writing (ss_threads g ! v)) \<Longrightarrow>
      Q n (fs_content (ds_fs s') (WrapPath sm n)) \<or>
      whole_store g' n (fs_content (ds_fs s') (WrapPath sm n))"
  shows "store_inv sm Q g0 g'"
proof -
  have other: "written (ss_threads g ! v) (fs_content (ds_fs s') (WrapPath sm (th_name (ss_threads g ! v)))) \<and>
      (writing (ss_threads g ! v) \<longrightarrow> fs_writable (ds_fs s') (WrapPath sm (th_name (ss_threads g ! v))))"
    if v: "v < length (ss_threads g)" "v \<noteq> w" for v
  proof -
    let ?t = "ss_threads g ! v"
    have o: "written ?t (fs_content (ds_fs (ss_server g)) (WrapPath sm (th_name ?t)))"
      "writing ?t \<longrightarrow> fs_writable (ds_fs s') (WrapPath sm (th_name ?t))"
      using inv v(1) a unfolding store_inv_def by auto
    have nw: "\<not> writing ?t \<Longrightarrow> written ?t x" for x
      by (cases "th_pos ?t") (simp_all add: writing_def written_def)
    show ?thesis
    proof (cases "writing ?t \<and> th_name ?t = n")
      case True
      with o e [OF v] show ?thesis by simp
    next
      case False
      with o nw f [of "th_name ?t"] show ?thesis by (cases "writing ?t") simp_all
    qed
  qed
  have keep: "whole_store g' m x" if "m \<noteq> n" "whole_store g m x" for m x
    unfolding g' th using whole_store_update [OF w that(2)] that(1) n th by auto
  have last: "Q m (fs_content (ds_fs s') (WrapPath sm m)) \<or>
      whole_store g' m (fs_content (ds_fs s') (WrapPath sm m))"
    if no: "\<forall>t\<in>set (ss_threads g'). th_name t = m \<longrightarrow> \<not> writing t" for m
  proof (cases "m = n")
    case True
    from no have "\<not> writing (th\<lparr>th_pos := p\<rparr>)"
      "\<And>v. v < length (ss_threads g) \<Longrightarrow> v \<noteq> w \<Longrightarrow> th_name (ss_threads g ! v) = n \<Longrightarrow> \<not> writing (ss_threads g ! v)"
      unfolding g' store_sys.select_convs all_update_iff [OF w] using True n by auto
    note i' = i [OF this]
    show ?thesis unfolding True by (rule i')
  next
    case False
    have "\<forall>t\<in>set (ss_threads g). th_name t = m \<longrightarrow> \<not> writing t"
      using no False n unfolding g' store_sys.select_convs all_update_iff [OF w]
      by (auto simp: all_set_conv_all_nth th)
    with inv have "Q m (fs_content (ds_fs (ss_server g)) (WrapPath sm m)) \<or>
        whole_store g m (fs_content (ds_fs (ss_server g)) (WrapPath sm m))"
      unfolding store_inv_def by blast
    with f [OF False] keep [OF False] show ?thesis by auto
  qed
  have m: "map (\<lambda>t. (th_client t, th_name t, th_data t)) (ss_threads g') =
      map (\<lambda>t. (th_client t, th_name t, th_data t)) (ss_threads g)"
    unfolding g' by (rule nth_equalityI) (auto simp: nth_list_update [OF w] th)
  show ?thesis
    unfolding store_inv_def m
  proof (intro conjI)
    show "\<forall>t\<in>set (ss_threads g'). critical (th_pos t) \<longrightarrow> ds_write_map (ss_server g') (th_name t) = th_client t"
      unfolding g' store_sys.select_convs all_update_iff [OF w] using b c n by auto
    show "\<forall>t\<in>set (ss_threads g'). written t (fs_content (ds_fs (ss_server g')) (WrapPath sm (th_name t))) \<and>
        (writing t \<longrightarrow> fs_writable (ds_fs (ss_server g')) (WrapPath sm (th_name t)))"
      unfolding g' store_sys.select_convs all_update_iff [OF w] using d d' other n by auto
    show "\<forall>n. (\<forall>t\<in>set (ss_threads g'). th_name t = n \<longrightarrow> \<not> writing t) \<longrightarrow>
        Q n (fs_content (ds_fs (ss_server g')) (WrapPath sm n)) \<or>
        whole_store g' n (fs_content (ds_fs (ss_server g')) (WrapPath sm n))"
      using last unfolding g' by simp
    show "map (\<lambda>t. (th_client t, th_name t, th_data t)) (ss_threads g) =
        map (\<lambda>t. (th_client t, th_name t, th_data t)) (ss_threads g0)"
      using inv unfolding store_inv_def by blast
    show "fs_writable (ds_fs (ss_server g')) = fs_writable (ds_fs (ss_server g0))"
      using inv a unfolding store_inv_def g' by simp
  qed
qed

definition distinct_calls :: "store_sys \<Rightarrow> bool" where
  "distinct_calls g \<longleftrightarrow> (\<forall>t\<in>set (ss_threads g). th_client t \<noteq> []) \<and>
     (\<forall>i j. i < length (ss_threads g) \<longrightarrow> j < length (ss_threads g) \<longrightarrow>
        same_job (ss_threads g ! i) (ss_threads g ! j) \<longrightarrow> i = j)"

text \<open>Two handlers in the critical section of one name are the same one.\<close>

lemma store_exclusive:
  assumes "store_inv sm Q g0 g" "distinct_calls g"
    and "v < length (ss_threads g)" "w < length (ss_threads g)"
    and "critical (th_pos (ss_threads g ! v))" "critical (th_pos (ss_threads g ! w))"
    and "th_name (ss_threads g ! v) = th_name (ss_threads g ! w)"
  shows "v = w"
proof -
  have "ds_write_map (ss_server g) (th_name (ss_threads g ! x)) = th_client (ss_threads g ! x)"
    if "x < length (ss_threads g)" "critical (th_pos (ss_threads g ! x))" for x
    using assms(1) that unfolding store_inv_def by (metis nth_mem)
  with assms(3-7) have "same_job (ss_threads g ! v) (ss_threads g ! w)" unfolding same_job_def by metis
  with assms(2-4) show ?thesis by (simp add: distinct_calls_def)
qed

lemma writing_critical: "writing t \<Longrightarrow> critical (th_pos t)"
  by (cases "th_pos t") (simp_all add: writing_def)

lemma stream_write_append:
  assumes "fs_content fs p = Some c" "off = length c" "fs_writable fs p"
  shows "fs_content (stream_write p off d fs) p = Some (c @ d)"
  using assms by (simp add: stream_write_def write_at_def ofstream_write_content)

lemma stream_write_other [simp]:
  "q \<noteq> p \<Longrightarrow> fs_content (stream_write p off d fs) q = fs_content fs q"
  "fs_writable (stream_write p off d fs) = fs_writable fs"
  by (simp_all add: stream_write_def fs_content_def split: option.splits)

lemma ofstream_other_content [simp]:
  "q \<noteq> p \<Longrightarrow> fs_content (ofstream_write p d fs) q = fs_content fs q"
  by (simp add: fs_content_def)

lemma store_inv_quiet:
  assumes inv: "store_inv sm Q g0 g"
    and no: "\<And>v. v < length (ss_threads g) \<Longrightarrow> th_name (ss_threads g ! v) = n \<Longrightarrow> \<not> writing (ss_threads g ! v)"
  shows "Q n (fs_content (ds_fs (ss_server g)) (WrapPath sm n)) \<or>
    whole_store g n (fs_content (ds_fs (ss_server g)) (WrapPath sm n))"
proof -
  have "\<forall>t\<in>set (ss_threads g). th_name t = n \<longrightarrow> \<not> writing t"
    using no by (auto simp: all_set_conv_all_nth)
  with inv show ?thesis unfolding store_inv_def by blast
qed

text \<open>A step that leaves the files alone and does not end a complete store.\<close>

lemma store_inv_frame_same:
  assumes inv: "store_inv sm Q g0 g" and w: "w < length (ss_threads g)"
    and th: "th = ss_threads g ! w" and n: "n = th_name th"
    and fs: "ds_fs s' = ds_fs (ss_server g)"
    and b: "critical p \<Longrightarrow> ds_write_map s' n = th_client th"
    and c: "\<And>v. v < length (ss_threads g) \<Longrightarrow> v \<noteq> w \<Longrightarrow> critical (th_pos (ss_threads g ! v)) \<Longrightarrow>
      ds_write_map s' (th_name (ss_threads g ! v)) = th_client (ss_threads g ! v)"
    and nw: "\<not> writing (th\<lparr>th_pos := p\<rparr>)" "\<not> writing th"
    and r: "th_pos th \<in> {TRelease DFS_OK, TDone DFS_OK} \<Longrightarrow> p \<in> {TRelease DFS_OK, TDone DFS_OK}"
  shows "store_inv sm Q g0 \<lparr>ss_server = s', ss_threads = (ss_threads g)[w := th\<lparr>th_pos := p\<rparr>]\<rparr>"
proof (rule store_inv_frame [OF inv w th n refl])
  show "written (th\<lparr>th_pos := p\<rparr>) (fs_content (ds_fs s') (WrapPath sm n))"
    using nw(1) by (cases p) (simp_all add: writing_def written_def)
  let ?g' = "\<lparr>ss_server = s', ss_threads = (ss_threads g)[w := th\<lparr>th_pos := p\<rparr>]\<rparr>"
  assume no: "\<And>v. v < length (ss_threads g) \<Longrightarrow> v \<noteq> w \<Longrightarrow> th_name (ss_threads g ! v) = n \<Longrightarrow>
      \<not> writing (ss_threads g ! v)"
  have "Q n (fs_content (ds_fs (ss_server g)) (WrapPath sm n)) \<or>
    whole_store g n (fs_content (ds_fs (ss_server g)) (WrapPath sm n))"
  proof (rule store_inv_quiet [OF inv])
    fix v
    assume "v < length (ss_threads g)" "th_name (ss_threads g ! v) = n"
    then show "\<not> writing (ss_threads g ! v)" using no nw(2) th by (cases "v = w") auto
  qed
  then show "Q n (fs_content (ds_fs s') (WrapPath sm n)) \<or>
      whole_store ?g' n (fs_content (ds_fs s') (WrapPath sm n))"
    unfolding fs th using whole_store_update [OF w] r th by blast
qed (use fs b c nw in auto)

lemma store_step_cases:
  assumes "store_step sm junk w g = Some g'"
  obtains th p s' where "w < length (ss_threads g)" "th = ss_threads g ! w"
    "StoreFile_step sm junk th (ss_server g) = Some (p, s')"
    "g' = \<lparr>ss_server = s', ss_threads = (ss_threads g)[w := th\<lparr>th_pos := p\<rparr>]\<rparr>"
  using assms by (auto simp: store_step_def split: if_splits option.splits)

lemma critical_owner:
  assumes "store_inv sm Q g0 g" "v < length (ss_threads g)" "critical (th_pos (ss_threads g ! v))"
  shows "ds_write_map (ss_server g) (th_name (ss_threads g ! v)) = th_client (ss_threads g ! v)"
  using assms unfolding store_inv_def by (metis nth_mem)

lemma start_step_inv:
  assumes inv: "store_inv sm Q g0 g" and ds: "distinct_calls g" and w: "w < length (ss_threads g)"
    and th: "th = ss_threads g ! w" and pos: "th_pos th = TStart"
    and ck: "CheckLock (th_client th) (th_name th) (ss_server g) = (st, s')"
  shows "store_inv sm Q g0 \<lparr>ss_server = s', ss_threads = (ss_threads g)
    [w := th\<lparr>th_pos := if st = DFS_OK then TCrc else TDone DFS_RESOURCE_EXHAUSTED\<rparr>]\<rparr>"
proof (rule store_inv_frame_same [OF inv w th refl])
  show "ds_fs s' = ds_fs (ss_server g)" by (rule CheckLock_fs [OF ck])
  show "ds_write_map s' (th_name th) = th_client th"
    if "critical (if st = DFS_OK then TCrc else TDone DFS_RESOURCE_EXHAUSTED)"
    using that ck by (auto simp: CheckLock_def dfs_status split: if_splits)
  show "ds_write_map s' (th_name (ss_threads g ! v)) = th_client (ss_threads g ! v)"
    if v: "v < length (ss_threads g)" "v \<noteq> w" "critical (th_pos (ss_threads g ! v))" for v
  proof -
    have o: "ds_write_map (ss_server g) (th_name (ss_threads g ! v)) = th_client (ss_threads g ! v)"
      by (rule critical_owner [OF inv v(1,3)])
    have "th_client (ss_threads g ! v) \<noteq> []" using ds v(1) by (simp add: distinct_calls_def)
    with o ck show ?thesis by (auto simp: CheckLock_def split: if_splits)
  qed
qed (use pos in \<open>auto simp: writing_def dfs_status\<close>)

lemma open_step_inv:
  assumes inv: "store_inv sm Q g0 g" and ds: "distinct_calls g" and w: "w < length (ss_threads g)"
    and th: "th = ss_threads g ! w" and pos: "th_pos th = TOpen"
    and wr: "fs_writable (ds_fs (ss_server g)) (WrapPath sm (th_name th))"
  shows "store_inv sm Q g0 \<lparr>ss_server = (ss_server g)\<lparr>ds_fs := ofstream_write (WrapPath sm (th_name th)) [] (ds_fs (ss_server g))\<rparr>,
    ss_threads = (ss_threads g)[w := th\<lparr>th_pos := TWrite 0 (th_data th)\<rparr>]\<rparr>"
proof (rule store_inv_frame [OF inv w th refl refl])
  show "written (th\<lparr>th_pos := TWrite 0 (th_data th)\<rparr>)
      (fs_content (ds_fs ((ss_server g)\<lparr>ds_fs := ofstream_write (WrapPath sm (th_name th)) [] (ds_fs (ss_server g))\<rparr>))
        (WrapPath sm (th_name th)))"
    using ofstream_write_content [OF wr] by (simp add: written_def)
  show "ds_write_map ((ss_server g)\<lparr>ds_fs := ofstream_write (WrapPath sm (th_name th)) [] (ds_fs (ss_server g))\<rparr>)
      (th_name th) = th_client th"
    using critical_owner [OF inv w] pos th by simp
next
  fix v
  assume v: "v < length (ss_threads g)" "v \<noteq> w" "th_name (ss_threads g ! v) = th_name th" "writing (ss_threads g ! v)"
  then have "v = w"
    using store_exclusive [OF inv ds v(1) w writing_critical [OF v(4)]] pos th by simp
  with v(2) show "fs_content (ds_fs ((ss_server g)\<lparr>ds_fs := ofstream_write (WrapPath sm (th_name th)) [] (ds_fs (ss_server g))\<rparr>))
      (WrapPath sm (th_name th)) = fs_content (ds_fs (ss_server g)) (WrapPath sm (th_name th))" by simp
qed (use critical_owner [OF inv] wr in \<open>auto simp: writing_def\<close>)

lemma write_step_inv:
  assumes inv: "store_inv sm Q g0 g" and ds: "distinct_calls g" and w: "w < length (ss_threads g)"
    and th: "th = ss_threads g ! w" and pos: "th_pos th = TWrite off (d # rest)"
  shows "store_inv sm Q g0 \<lparr>ss_server = (ss_server g)\<lparr>ds_fs := stream_write (WrapPath sm (th_name th)) off d (ds_fs (ss_server g))\<rparr>,
    ss_threads = (ss_threads g)[w := th\<lparr>th_pos := TWrite (off + length d) rest\<rparr>]\<rparr>"
proof (rule store_inv_frame [OF inv w th refl refl])
  have cur: "written th (fs_content (ds_fs (ss_server g)) (WrapPath sm (th_name th)))"
    "fs_writable (ds_fs (ss_server g)) (WrapPath sm (th_name th))"
    using inv w pos th unfolding store_inv_def by (auto simp: writing_def)
  then obtain ds0 where d0: "th_data th = ds0 @ d # rest" "off = length (concat ds0)"
    "fs_content (ds_fs (ss_server g)) (WrapPath sm (th_name th)) = Some (concat ds0)"
    using pos by (auto simp: written_def)
  show "written (th\<lparr>th_pos := TWrite (off + length d) rest\<rparr>)
      (fs_content (ds_fs ((ss_server g)\<lparr>ds_fs := stream_write (WrapPath sm (th_name th)) off d (ds_fs (ss_server g))\<rparr>))
        (WrapPath sm (th_name th)))"
    using stream_write_append [OF d0(3,2) cur(2)] d0
    by (auto simp: written_def intro: exI [of _ "ds0 @ [d]"])
  show "ds_write_map ((ss_server g)\<lparr>ds_fs := stream_write (WrapPath sm (th_name th)) off d (ds_fs (ss_server g))\<rparr>)
      (th_name th) = th_client th"
    using critical_owner [OF inv w] pos th by simp
  show "fs_writable (ds_fs ((ss_server g)\<lparr>ds_fs := stream_write (WrapPath sm (th_name th)) off d (ds_fs (ss_server g))\<rparr>))
      (WrapPath sm (th_name th))"
    using cur(2) by simp
next
  fix v
  assume v: "v < length (ss_threads g)" "v \<noteq> w" "th_name (ss_threads g ! v) = th_name th" "writing (ss_threads g ! v)"
  then have "v = w"
    using store_exclusive [OF inv ds v(1) w writing_critical [OF v(4)]] pos th by simp
  with v(2) show "fs_content (ds_fs ((ss_server g)\<lparr>ds_fs := stream_write (WrapPath sm (th_name th)) off d (ds_fs (ss_server g))\<rparr>))
      (WrapPath sm (th_name th)) = fs_content (ds_fs (ss_server g)) (WrapPath sm (th_name th))" by simp
qed (use critical_owner [OF inv] in \<open>auto simp: writing_def\<close>)

lemma finish_step_inv:
  assumes inv: "store_inv sm Q g0 g" and w: "w < length (ss_threads g)"
    and th: "th = ss_threads g ! w" and pos: "th_pos th = TWrite off []"
  shows "store_inv sm Q g0 \<lparr>ss_server = ss_server g, ss_threads = (ss_threads g)[w := th\<lparr>th_pos := TRelease DFS_OK\<rparr>]\<rparr>"
proof (rule store_inv_frame [OF inv w th refl refl])
  have "written th (fs_content (ds_fs (ss_server g)) (WrapPath sm (th_name th)))"
    using inv w pos th unfolding store_inv_def by auto
  then have "fs_content (ds_fs (ss_server g)) (WrapPath sm (th_name th)) = Some (concat (th_data th))"
    using pos by (auto simp: written_def)
  then have "whole_store \<lparr>ss_server = ss_server g, ss_threads = (ss_threads g)[w := th\<lparr>th_pos := TRelease DFS_OK\<rparr>]\<rparr>
      (th_name th) (fs_content (ds_fs (ss_server g)) (WrapPath sm (th_name th)))"
    using w unfolding whole_store_def
    by (intro bexI [of _ "th\<lparr>th_pos := TRelease DFS_OK\<rparr>"]) (auto intro: set_update_memI)
  then show "Q (th_name th) (fs_content (ds_fs (ss_server g)) (WrapPath sm (th_name th))) \<or>
    whole_store \<lparr>ss_server = ss_server g, ss_threads = (ss_threads g)[w := th\<lparr>th_pos := TRelease DFS_OK\<rparr>]\<rparr>
      (th_name th) (fs_content (ds_fs (ss_server g)) (WrapPath sm (th_name th)))" ..
  show "ds_write_map (ss_server g) (th_name th) = th_client th" using critical_owner [OF inv w] pos th by simp
qed (use critical_owner [OF inv] in \<open>auto simp: writing_def written_def\<close>)

lemma release_step_inv:
  assumes inv: "store_inv sm Q g0 g" and ds: "distinct_calls g" and w: "w < length (ss_threads g)"
    and th: "th = ss_threads g ! w" and pos: "th_pos th = TRelease st"
  shows "store_inv sm Q g0 \<lparr>ss_server = ReleaseLock (th_name th) (ss_server g),
    ss_threads = (ss_threads g)[w := th\<lparr>th_pos := TDone st\<rparr>]\<rparr>"
proof (rule store_inv_frame_same [OF inv w th refl])
  fix v
  assume v: "v < length (ss_threads g)" "v \<noteq> w" "critical (th_pos (ss_threads g ! v))"
  have "th_name (ss_threads g ! v) \<noteq> th_name th"
    using store_exclusive [OF inv ds v(1) w v(3)] v(2) pos th by auto
  with critical_owner [OF inv v(1,3)]
  show "ds_write_map (ReleaseLock (th_name th) (ss_server g)) (th_name (ss_threads g ! v)) = th_client (ss_threads g ! v)"
    by (simp add: lk.release_owner)
qed (use pos in \<open>auto simp: writing_def ReleaseLock_def\<close>)

lemma store_step_inv:
  assumes inv: "store_inv sm Q g0 g" and ds: "distinct_calls g" and step: "store_step sm junk w g = Some g'"
  shows "store_inv sm Q g0 g'"
proof -
  obtain th p s' where w: "w < length (ss_threads g)" and th: "th = ss_threads g ! w"
    and st: "StoreFile_step sm junk th (ss_server g) = Some (p, s')"
    and g': "g' = \<lparr>ss_server = s', ss_threads = (ss_threads g)[w := th\<lparr>th_pos := p\<rparr>]\<rparr>"
    using step by (rule store_step_cases)
  have quiet: "store_inv sm Q g0 \<lparr>ss_server = ss_server g, ss_threads = (ss_threads g)[w := th\<lparr>th_pos := q\<rparr>]\<rparr>"
    if "critical (th_pos th)" "\<not> writing th" "\<not> writing (th\<lparr>th_pos := q\<rparr>)"
      "th_pos th \<notin> {TRelease DFS_OK, TDone DFS_OK}" for q
    by (rule store_inv_frame_same [OF inv w th refl])
      (use that critical_owner [OF inv] w th in auto)
  show ?thesis
  proof (cases "th_pos th")
    case TStart
    obtain c s1 where ck: "CheckLock (th_client th) (th_name th) (ss_server g) = (c, s1)" by force
    from start_step_inv [OF inv ds w th TStart ck] st ck TStart show ?thesis
      by (auto simp: g' StoreFile_step_def Let_def)
  next
    case TCrc
    with quiet [of p] st show ?thesis
      by (auto simp: g' StoreFile_step_def Let_def writing_def dfs_status split: if_splits)
  next
    case TOpen
    with quiet [of p] open_step_inv [OF inv ds w th TOpen] st show ?thesis
      by (auto simp: g' StoreFile_step_def Let_def writing_def split: if_splits)
  next
    case (TWrite off ds')
    show ?thesis
    proof (cases ds')
      case Nil
      with TWrite finish_step_inv [OF inv w th] st show ?thesis by (auto simp: g' StoreFile_step_def Let_def)
    next
      case (Cons d rest)
      with TWrite write_step_inv [OF inv ds w th] st show ?thesis by (auto simp: g' StoreFile_step_def Let_def)
    qed
  next
    case (TRelease r)
    with release_step_inv [OF inv ds w th TRelease] st show ?thesis by (auto simp: g' StoreFile_step_def Let_def)
  next
    case (TDone r)
    with st show ?thesis by (simp add: StoreFile_step_def Let_def)
  qed
qed

lemma distinct_calls_kept:
  assumes "store_inv sm Q g0 g" "distinct_calls g0"
  shows "distinct_calls g"
proof -
  let ?f = "\<lambda>t. (th_client t, th_name t, th_data t)"
  have m: "map ?f (ss_threads g) = map ?f (ss_threads g0)"
    using assms(1) unfolding store_inv_def by (rule conjunct1)
  from arg_cong [OF m, of length] have l: "length (ss_threads g) = length (ss_threads g0)"
    by (simp only: length_map)
  have n: "?f (ss_threads g ! i) = ?f (ss_threads g0 ! i)" if "i < length (ss_threads g0)" for i
    using arg_cong [OF m, of "\<lambda>xs. xs ! i"] that l by (simp only: nth_map)
  have "th_client (ss_threads g ! i) = th_client (ss_threads g0 ! i)"
    "th_name (ss_threads g ! i) = th_name (ss_threads g0 ! i)" if "i < length (ss_threads g0)" for i
    using n [OF that] by simp_all
  with assms(2) l show ?thesis by (simp add: distinct_calls_def same_job_def all_set_conv_all_nth)
qed

text \<open>What the files hold at first.\<close>

definition first_content :: "string \<Rightarrow> store_sys \<Rightarrow> string \<Rightarrow> string option \<Rightarrow> bool" where
  "first_content sm g0 n c \<longleftrightarrow> c = fs_content (ds_fs (ss_server g0)) (WrapPath sm n)"

lemma fresh_calls_inv:
  assumes "fresh_calls g" and "\<And>n. Q n (fs_content (ds_fs (ss_server g)) (WrapPath sm n))"
  shows "distinct_calls g \<and> store_inv sm Q g g"
proof
  show "distinct_calls g"
    unfolding distinct_calls_def
  proof (intro conjI allI impI)
    fix i j
    assume "i < length (ss_threads g)" "j < length (ss_threads g)" and s: "same_job (ss_threads g ! i) (ss_threads g ! j)"
    moreover have "same_job (ss_threads g ! j) (ss_threads g ! i)" using s by (simp add: same_job_def)
    ultimately show "i = j" using assms unfolding fresh_calls_def by (metis linorder_neq_iff)
  qed (use assms in \<open>simp add: fresh_calls_def\<close>)
  show "store_inv sm Q g g"
    using assms by (auto simp: fresh_calls_def store_inv_def written_def writing_def)
qed

lemma store_reach_inv:
  assumes "store_reach sm junk g0 g" "fresh_calls g0"
  shows "store_inv sm (first_content sm g0) g0 g \<and> distinct_calls g"
  using assms(1)
proof (induction rule: store_reach.induct)
  case store_init
  then show ?case using fresh_calls_inv [OF assms(2)] by (simp add: first_content_def)
next
  case (store_next g w g')
  then have inv: "store_inv sm (first_content sm g0) g0 g" and "distinct_calls g" by simp_all
  from store_step_inv [OF this store_next.hyps(2)] have i': "store_inv sm (first_content sm g0) g0 g'" .
  have "distinct_calls g0"
    using fresh_calls_inv [OF assms(2), of "first_content sm g0" sm] by (simp add: first_content_def)
  with i' distinct_calls_kept [OF i'] show ?case by simp
qed

text \<open>
  Calls of StoreFile by different clients, in any interleaving: no two of them are between taking
  and releasing the lock of one name at the same time, and a file that nobody is writing holds what
  it held at first or all the data of one call that wrote it, never a mixture.
\<close>

theorem stores_not_mixed:
  assumes "fresh_calls g0" "store_reach sm junk g0 g"
  shows "(\<forall>v<length (ss_threads g). \<forall>w<length (ss_threads g).
      critical (th_pos (ss_threads g ! v)) \<and> critical (th_pos (ss_threads g ! w)) \<and>
      th_name (ss_threads g ! v) = th_name (ss_threads g ! w) \<longrightarrow> v = w) \<and>
    (\<forall>n. (\<forall>t\<in>set (ss_threads g). th_name t = n \<longrightarrow> \<not> writing t) \<longrightarrow>
      fs_content (ds_fs (ss_server g)) (WrapPath sm n) = fs_content (ds_fs (ss_server g0)) (WrapPath sm n) \<or>
      whole_store g n (fs_content (ds_fs (ss_server g)) (WrapPath sm n)))"
proof (intro conjI)
  have inv: "store_inv sm (first_content sm g0) g0 g" and "distinct_calls g"
    using store_reach_inv [OF assms(2,1)] by simp_all
  from this(2) show "\<forall>v<length (ss_threads g). \<forall>w<length (ss_threads g).
      critical (th_pos (ss_threads g ! v)) \<and> critical (th_pos (ss_threads g ! w)) \<and>
      th_name (ss_threads g ! v) = th_name (ss_threads g ! w) \<longrightarrow> v = w"
    using store_exclusive [OF inv] by blast
  show "\<forall>n. (\<forall>t\<in>set (ss_threads g). th_name t = n \<longrightarrow> \<not> writing t) \<longrightarrow>
      fs_content (ds_fs (ss_server g)) (WrapPath sm n) = fs_content (ds_fs (ss_server g0)) (WrapPath sm n) \<or>
      whole_store g n (fs_content (ds_fs (ss_server g)) (WrapPath sm n))"
    using inv unfolding store_inv_def first_content_def by blast
qed

fun store_run :: "string \<Rightarrow> (nat \<Rightarrow> string) \<Rightarrow> nat list \<Rightarrow> store_sys \<Rightarrow> store_sys option" where
  "store_run sm junk [] g = Some g"
| "store_run sm junk (w # ws) g =
     (case store_step sm junk w g of None \<Rightarrow> None | Some g' \<Rightarrow> store_run sm junk ws g')"

lemma store_run_reach:
  "store_run sm junk ws g = Some g' \<Longrightarrow> store_reach sm junk g0 g \<Longrightarrow> store_reach sm junk g0 g'"
  by (induction ws arbitrary: g) (auto split: option.splits intro: store_next)

definition store_demo_thread :: "string \<Rightarrow> string list \<Rightarrow> store_thread" where
  "store_demo_thread c ds = \<lparr>th_client = c, th_name = ''f'', th_crc = 1, th_data = ds, th_pos = TStart\<rparr>"

definition demo_stores :: store_sys where
  "demo_stores = \<lparr>ss_server = dfs_empty_server (\<lambda>n. []),
     ss_threads = [store_demo_thread ''A'' [''a'', ''b''], store_demo_thread ''B'' [''c'']]\<rparr>"

text \<open>B asks for the lock while A writes, and is turned away.\<close>

definition store_schedule :: "nat list" where
  "store_schedule = [0, 0, 0, 0, 1, 0, 0, 0]"

lemma store_demo_run:
  "\<exists>g. store_run ''s/'' (\<lambda>n. replicate n NUL) store_schedule demo_stores = Some g \<and>
     map th_pos (ss_threads g) = [TDone DFS_OK, TDone DFS_RESOURCE_EXHAUSTED] \<and>
     map th_data (ss_threads g) = [[''a'', ''b''], [''c'']] \<and> fs_content (ds_fs (ss_server g)) ''s/f'' = Some ''ab''"
  by (simp add: store_schedule_def demo_stores_def store_demo_thread_def dfs_empty_server_def store_step_def
      StoreFile_step_def CheckLock_def ReleaseLock_def file_crc_def dfs_file_checksum_def fs_content_def
      WrapPath_def ofstream_write_def stream_write_def write_at_def dfs_status)

lemma store_demo_fresh: "fresh_calls demo_stores"
proof -
  have "\<not> same_job (ss_threads demo_stores ! i) (ss_threads demo_stores ! j)"
    if "i < j" "j < length (ss_threads demo_stores)" for i j
  proof -
    from that have "j < 2" by (simp add: demo_stores_def)
    with that(1) have ij: "i = 0" "j = 1" by arith+
    show ?thesis unfolding ij by (simp add: demo_stores_def store_demo_thread_def same_job_def)
  qed
  then show ?thesis
    by (simp add: fresh_calls_def) (simp add: demo_stores_def store_demo_thread_def dfs_empty_server_def)
qed

theorem stores_not_mixed_witness:
  "\<exists>g. store_run ''s/'' (\<lambda>n. replicate n NUL) store_schedule demo_stores = Some g \<and>
     whole_store g ''f'' (fs_content (ds_fs (ss_server g)) (WrapPath ''s/'' ''f''))"
proof -
  obtain g where g: "store_run ''s/'' (\<lambda>n. replicate n NUL) store_schedule demo_stores = Some g"
    "map th_pos (ss_threads g) = [TDone DFS_OK, TDone DFS_RESOURCE_EXHAUSTED]"
    "fs_content (ds_fs (ss_server g)) ''s/f'' = Some ''ab''"
    using store_demo_run by (elim exE conjE)
  note reach = store_run_reach [OF g(1) store_init]
  have none: "\<forall>t\<in>set (ss_threads g). th_name t = ''f'' \<longrightarrow> \<not> writing t"
  proof (intro ballI impI)
    fix t
    assume "t \<in> set (ss_threads g)"
    then have "th_pos t \<in> set (map th_pos (ss_threads g))" by simp
    then show "\<not> writing t" unfolding g(2) by (auto simp: writing_def)
  qed
  let ?c = "fs_content (ds_fs (ss_server g)) (WrapPath ''s/'' ''f'')"
  have init: "?c \<noteq> fs_content (ds_fs (ss_server demo_stores)) (WrapPath ''s/'' ''f'')"
  proof -
    have n: "WrapPath ''s/'' ''f'' = ''s/f''" by (simp add: WrapPath_def)
    have "fs_content (ds_fs (ss_server demo_stores)) ''s/f'' = None"
      by (simp add: demo_stores_def dfs_empty_server_def fs_content_def)
    with g(3) show ?thesis unfolding n by (metis option.distinct(1))
  qed
  have "?c = fs_content (ds_fs (ss_server demo_stores)) (WrapPath ''s/'' ''f'') \<or> whole_store g ''f'' ?c"
    by (rule conjunct2 [OF stores_not_mixed [OF store_demo_fresh reach], THEN spec, THEN mp, OF none])
  with init have "whole_store g ''f'' ?c" by simp
  with g(1) show ?thesis by (intro exI conjI)
qed

end
