(* ===== verification/DFSReaders.thy ===== *)
theory DFSReaders
  imports DFSConcurrent
begin

text \<open>
  The handlers of grpc/part2/dfslib-servernode-p2.cpp in steps and whole: StoreFile taken step by
  step without another call in between is StoreFile of DFSServer2, and so is FetchFile, which takes
  no lock, so that its reads can fall between the steps of a StoreFile.
\<close>

section \<open>A store that runs alone\<close>

text \<open>The call whose messages are \<open>ms\<close>.\<close>

definition thread_of_msgs :: "file_msg list \<Rightarrow> store_thread" where
  "thread_of_msgs ms =
     (let first = (case ms of [] \<Rightarrow> empty_msg | m # _ \<Rightarrow> m) in
      \<lparr>th_client = fm_clientid first, th_name = fm_name first, th_crc = fm_crc first,
       th_data = msg_data first # map msg_data (tl ms), th_pos = TStart\<rparr>)"

fun store_alone ::
  "string \<Rightarrow> (nat \<Rightarrow> string) \<Rightarrow> nat \<Rightarrow> store_thread \<Rightarrow> dfs_server \<Rightarrow> store_thread \<times> dfs_server" where
  "store_alone sm junk 0 th s = (th, s)"
| "store_alone sm junk (Suc k) th s =
     (case StoreFile_step sm junk th s of
        None \<Rightarrow> (th, s)
      | Some (pos, s') \<Rightarrow> store_alone sm junk k (th\<lparr>th_pos := pos\<rparr>) s')"

lemma store_alone_step:
  "StoreFile_step sm junk th s = Some (pos, s') \<Longrightarrow>
     store_alone sm junk (Suc k) th s = store_alone sm junk k (th\<lparr>th_pos := pos\<rparr>) s'"
  by simp

lemma ofstream_write_twice [simp]: "ofstream_write p d (ofstream_write p c fs) = ofstream_write p d fs"
  by (simp add: ofstream_write_def)

lemma stream_write_append_eq:
  "fs_writable fs p \<Longrightarrow> stream_write p (length c) d (ofstream_write p c fs) = ofstream_write p (c @ d) fs"
  by (simp add: stream_write_def ofstream_write_content write_at_def)

lemma store_alone_TDone: "th_pos th = TDone st \<Longrightarrow> store_alone sm junk k th s = (th, s)"
  by (cases k) (simp_all add: StoreFile_step_def Let_def)

lemma store_alone_TRelease [simp]:
  "th_pos th = TRelease st \<Longrightarrow>
     store_alone sm junk (Suc k) th s = (th\<lparr>th_pos := TDone st\<rparr>, ReleaseLock (th_name th) s)"
  by (simp add: StoreFile_step_def store_alone_TDone Let_def)

declare store_alone.simps(2) [simp del]

text \<open>The writes, one after the other, are one write.\<close>

lemma store_alone_TWrite:
  assumes "th_pos th = TWrite (length c) ds" "ds_fs s = ofstream_write (WrapPath sm (th_name th)) c fs"
    and "fs_writable fs (WrapPath sm (th_name th))"
  shows "store_alone sm junk (length ds + 2 + k) th s =
    (th\<lparr>th_pos := TDone DFS_OK\<rparr>,
     ReleaseLock (th_name th) (s\<lparr>ds_fs := ofstream_write (WrapPath sm (th_name th)) (c @ concat ds) fs\<rparr>))"
  using assms
proof (induction ds arbitrary: th c s)
  case Nil
  have "StoreFile_step sm junk th s = Some (TRelease DFS_OK, s)"
    using Nil.prems(1) by (simp add: StoreFile_step_def Let_def)
  moreover have "s\<lparr>ds_fs := ofstream_write (WrapPath sm (th_name th)) c fs\<rparr> = s"
    unfolding Nil.prems(2) [symmetric] by simp
  ultimately show ?case by (simp add: store_alone_step)
next
  case (Cons d ds)
  let ?p = "WrapPath sm (th_name th)" and ?th = "th\<lparr>th_pos := TWrite (length (c @ d)) ds\<rparr>"
  let ?s = "s\<lparr>ds_fs := ofstream_write ?p (c @ d) fs\<rparr>"
  have "StoreFile_step sm junk th s = Some (TWrite (length (c @ d)) ds, ?s)"
    using Cons.prems by (simp add: StoreFile_step_def Let_def stream_write_append_eq)
  moreover have "store_alone sm junk (length ds + 2 + k) ?th ?s =
    (?th\<lparr>th_pos := TDone DFS_OK\<rparr>, ReleaseLock (th_name ?th) (?s\<lparr>ds_fs := ofstream_write ?p ((c @ d) @ concat ds) fs\<rparr>))"
    using Cons.IH [of ?th "c @ d" ?s] Cons.prems(3) by simp
  ultimately show ?case by (simp add: store_alone_step)
qed

lemma store_alone_StoreFile:
  "\<exists>th s'. store_alone sm junk (length ms + 6) (thread_of_msgs ms) s = (th, s') \<and>
    (\<exists>st. th_pos th = TDone st \<and> StoreFile_p2 sm junk rpc_ok ms s = (st, s'))"
proof -
  let ?f = "case ms of [] \<Rightarrow> empty_msg | m # _ \<Rightarrow> m"
  let ?th = "thread_of_msgs ms" and ?n = "fm_name ?f" and ?i = "fm_clientid ?f"
  let ?p = "WrapPath sm ?n" and ?ds = "msg_data ?f # map msg_data (tl ms)"
  have th: "th_client ?th = ?i" "th_name ?th = ?n" "th_crc ?th = fm_crc ?f" "th_data ?th = ?ds" "th_pos ?th = TStart"
    by (simp_all add: thread_of_msgs_def Let_def)
  have num: "length ms + 6 = Suc (Suc (Suc (Suc (length ms + 2))))" by simp
  obtain st s1 where l: "CheckLock ?i ?n s = (st, s1)" by force
  show ?thesis
  proof (cases "st = DFS_OK")
    case False
    then have "StoreFile_step sm junk ?th s = Some (TDone DFS_RESOURCE_EXHAUSTED, s1)"
      using l th by (simp add: StoreFile_step_def Let_def)
    then show ?thesis
      unfolding num using l False by (simp add: store_alone_step store_alone_TDone StoreFile_p2_def Let_def)
  next
    case ok: True
    then have 1: "StoreFile_step sm junk ?th s = Some (TCrc, s1)"
      using l th by (simp add: StoreFile_step_def Let_def)
    show ?thesis
    proof (cases "fm_crc ?f = file_crc junk ?p (ds_fs s1)")
      case True
      then have "StoreFile_step sm junk (?th\<lparr>th_pos := TCrc\<rparr>) s1 = Some (TRelease DFS_ALREADY_EXISTS, s1)"
        using th by (simp add: StoreFile_step_def Let_def)
      with 1 True ok l th show ?thesis
          unfolding num by (simp add: store_alone_step StoreFile_p2_def Let_def)
    next
      case crc: False
      then have 2: "StoreFile_step sm junk (?th\<lparr>th_pos := TCrc\<rparr>) s1 = Some (TOpen, s1)"
        using th by (simp add: StoreFile_step_def Let_def)
      show ?thesis
      proof (cases "fs_writable (ds_fs s1) ?p")
        case False
        then have "StoreFile_step sm junk (?th\<lparr>th_pos := TOpen\<rparr>) s1 = Some (TRelease DFS_CANCELLED, s1)"
          using th by (simp add: StoreFile_step_def Let_def)
        with 1 2 False ok crc l th show ?thesis
          unfolding num by (simp add: store_alone_step StoreFile_p2_def Let_def)
      next
        case w: True
        let ?s2 = "s1\<lparr>ds_fs := ofstream_write ?p [] (ds_fs s1)\<rparr>" and ?t = "?th\<lparr>th_pos := TWrite 0 ?ds\<rparr>"
        have 3: "StoreFile_step sm junk (?th\<lparr>th_pos := TOpen\<rparr>) s1 = Some (TWrite 0 ?ds, ?s2)"
          using w th by (simp add: StoreFile_step_def Let_def)
        obtain k where k: "Suc (length ms + 2) = length ?ds + 2 + k"
          by (cases ms) auto
        have 4: "store_alone sm junk (Suc (length ms + 2)) ?t ?s2 =
          (?t\<lparr>th_pos := TDone DFS_OK\<rparr>, ReleaseLock ?n (?s2\<lparr>ds_fs := ofstream_write ?p ([] @ concat ?ds) (ds_fs s1)\<rparr>))"
          unfolding k using store_alone_TWrite [of ?t "[]" ?ds ?s2 sm "ds_fs s1" junk k] w th by simp
        have "store_alone sm junk (length ms + 6) ?th s = store_alone sm junk (Suc (length ms + 2)) ?t ?s2"
          unfolding num using 1 2 3 by (simp add: store_alone_step)
        with 4 ok crc w l show ?thesis by (simp add: StoreFile_p2_def Let_def)
      qed
    qed
  qed
qed



section \<open>FetchFile in steps\<close>

text \<open>
  The handler opens the file and reads it buffer by buffer from its own position on; IsCancelled
  is asked before each read, and a read that is not full ends the loop. \<open>ft_sent\<close> are the
  contents of the messages.
\<close>

datatype fpos = FStart | FRead nat | FDone int

record fetch_thread =
  ft_name :: string
  ft_pos :: fpos
  ft_sent :: "string list"

definition FetchFile_step :: "string \<Rightarrow> rpc_call \<Rightarrow> fetch_thread \<Rightarrow> filesys \<Rightarrow> fetch_thread option" where
  "FetchFile_step sm c ft fs =
     (let content = fs_content fs (WrapPath sm (ft_name ft)) in
      case ft_pos ft of
        FStart \<Rightarrow> Some (ft\<lparr>ft_pos := if content = None then FDone DFS_NOT_FOUND else FRead 0\<rparr>)
      | FRead off \<Rightarrow>
          if IsCancelled c (length (ft_sent ft)) then Some (ft\<lparr>ft_pos := FDone DFS_DEADLINE_EXCEEDED\<rparr>)
          else (let d = take BUFSIZ (drop off (case content of None \<Rightarrow> [] | Some d \<Rightarrow> d)) in
                Some (ft\<lparr>ft_pos := if length d < BUFSIZ then FDone DFS_OK else FRead (off + BUFSIZ),
                         ft_sent := ft_sent ft @ [d]\<rparr>))
      | FDone st \<Rightarrow> None)"

fun fetch_alone :: "string \<Rightarrow> rpc_call \<Rightarrow> nat \<Rightarrow> filesys \<Rightarrow> fetch_thread \<Rightarrow> fetch_thread" where
  "fetch_alone sm c 0 fs ft = ft"
| "fetch_alone sm c (Suc k) fs ft =
     (case FetchFile_step sm c ft fs of None \<Rightarrow> ft | Some ft' \<Rightarrow> fetch_alone sm c k fs ft')"

definition fetch_start :: "string \<Rightarrow> fetch_thread" where
  "fetch_start name = \<lparr>ft_name = name, ft_pos = FStart, ft_sent = []\<rparr>"

lemma fetch_alone_FDone [simp]: "ft_pos ft = FDone st \<Longrightarrow> fetch_alone sm c k fs ft = ft"
  by (cases k) (simp_all add: FetchFile_step_def Let_def)

lemma fetch_alone_step:
  "FetchFile_step sm c ft fs = Some ft' \<Longrightarrow> fetch_alone sm c (Suc k) fs ft = fetch_alone sm c k fs ft'"
  by simp

declare fetch_alone.simps(2) [simp del]

text \<open>The messages of the handler, as the loop sends them.\<close>

fun send_chunks :: "rpc_call \<Rightarrow> nat \<Rightarrow> string list \<Rightarrow> int \<times> string list" where
  "send_chunks c k [] = (DFS_OK, [])"
| "send_chunks c k (d # ds) =
     (if IsCancelled c k then (DFS_DEADLINE_EXCEEDED, [])
      else (case send_chunks c (Suc k) ds of (st, sent) \<Rightarrow> (st, d # sent)))"

lemma send_msgs_chunks:
  "send_msgs c k (map f ds) = (st, sent) \<Longrightarrow> (\<And>d. fm_content (f d) = d) \<Longrightarrow>
     send_chunks c k ds = (st, map fm_content sent)"
  by (induction ds arbitrary: k st sent) (auto split: if_splits prod.splits)

lemma fetch_alone_FRead:
  assumes "ft_pos ft = FRead off" "fs_content fs (WrapPath sm (ft_name ft)) = Some d"
  shows "fetch_alone sm c (length (read_chunks (drop off d)) + k) fs ft =
    ft\<lparr>ft_pos := FDone (fst (send_chunks c (length (ft_sent ft)) (read_chunks (drop off d)))),
       ft_sent := ft_sent ft @ snd (send_chunks c (length (ft_sent ft)) (read_chunks (drop off d)))\<rparr>"
  using assms
proof (induction "drop off d" arbitrary: off ft rule: read_chunks.induct)
  case 1
  let ?x = "drop off d" and ?n = "length (ft_sent ft)"
  show ?case
  proof (cases "IsCancelled c ?n")
    case True
    then have "FetchFile_step sm c ft fs = Some (ft\<lparr>ft_pos := FDone DFS_DEADLINE_EXCEEDED\<rparr>)"
      using "1.prems" by (simp add: FetchFile_step_def Let_def)
    with True show ?thesis by (cases "read_chunks ?x") (simp_all add: fetch_alone_step)
  next
    case nc: False
    show ?thesis
    proof (cases "length ?x < BUFSIZ")
      case True
      then have r: "read_chunks ?x = [?x]" by (simp add: read_chunks.simps [of ?x])
      have "FetchFile_step sm c ft fs = Some (ft\<lparr>ft_pos := FDone DFS_OK, ft_sent := ft_sent ft @ [?x]\<rparr>)"
        using "1.prems" nc True by (simp add: FetchFile_step_def Let_def)
      with nc show ?thesis unfolding r by (simp add: fetch_alone_step)
    next
      case False
      let ?ft = "ft\<lparr>ft_pos := FRead (off + BUFSIZ), ft_sent := ft_sent ft @ [take BUFSIZ ?x]\<rparr>"
      have r: "read_chunks ?x = take BUFSIZ ?x # read_chunks (drop (off + BUFSIZ) d)"
        using False by (simp add: read_chunks.simps [of ?x] add.commute)
      have "FetchFile_step sm c ft fs = Some ?ft"
        using "1.prems" nc False by (simp add: FetchFile_step_def Let_def)
      moreover have "fetch_alone sm c (length (read_chunks (drop (off + BUFSIZ) d)) + k) fs ?ft =
        ?ft\<lparr>ft_pos := FDone (fst (send_chunks c (length (ft_sent ?ft)) (read_chunks (drop (off + BUFSIZ) d)))),
          ft_sent := ft_sent ?ft @ snd (send_chunks c (length (ft_sent ?ft)) (read_chunks (drop (off + BUFSIZ) d)))\<rparr>"
        by (rule "1.hyps") (use "1.prems" False in \<open>auto simp: add.commute\<close>)
      ultimately show ?thesis
        using nc unfolding r by (simp add: fetch_alone_step split: prod.split)
    qed
  qed
qed

text \<open>Without a store in between, the steps are the handler as a whole.\<close>

lemma FetchFile_steps_alone:
  assumes "FetchFile_p2 sm n c s = (st, ms)"
  shows "\<exists>k. fetch_alone sm c k (ds_fs s) (fetch_start n) = \<lparr>ft_name = n, ft_pos = FDone st, ft_sent = map fm_content ms\<rparr>"
proof (cases "fs_content (ds_fs s) (WrapPath sm n)")
  case None
  have "FetchFile_step sm c (fetch_start n) (ds_fs s) = Some ((fetch_start n)\<lparr>ft_pos := FDone DFS_NOT_FOUND\<rparr>)"
    using None by (simp add: FetchFile_step_def fetch_start_def Let_def)
  with None assms show ?thesis
    by (intro exI [of _ 1]) (simp add: fetch_alone.simps(2) fetch_start_def FetchFile_p2_def FetchFile_def)
next
  case (Some d)
  let ?ft = "(fetch_start n)\<lparr>ft_pos := FRead 0\<rparr>"
  have 1: "FetchFile_step sm c (fetch_start n) (ds_fs s) = Some ?ft"
    using Some by (simp add: FetchFile_step_def fetch_start_def Let_def)
  have "send_msgs c 0 (file_msgs n [] 0 d) = (st, ms)"
    using Some assms by (simp add: FetchFile_p2_def FetchFile_def)
  then have "send_chunks c 0 (read_chunks d) = (st, map fm_content ms)"
    unfolding file_msgs_def by (rule send_msgs_chunks) simp
  then show ?thesis
    using fetch_alone_FRead [of ?ft 0 "ds_fs s" sm d c 0] Some 1
    by (intro exI [of _ "Suc (length (read_chunks d))"]) (simp add: fetch_alone_step fetch_start_def)
qed


section \<open>A fetch during a store\<close>

text \<open>Turns: None is one of the fetch, Some w one of the store w.\<close>

record rw_sys =
  rw_store :: store_sys
  rw_fetch :: fetch_thread

fun rw_step :: "string \<Rightarrow> (nat \<Rightarrow> string) \<Rightarrow> rpc_call \<Rightarrow> nat option \<Rightarrow> rw_sys \<Rightarrow> rw_sys option" where
  "rw_step sm junk c None r =
     map_option (\<lambda>ft. r\<lparr>rw_fetch := ft\<rparr>) (FetchFile_step sm c (rw_fetch r) (ds_fs (ss_server (rw_store r))))"
| "rw_step sm junk c (Some w) r = map_option (\<lambda>g. r\<lparr>rw_store := g\<rparr>) (store_step sm junk w (rw_store r))"

fun rw_run :: "string \<Rightarrow> (nat \<Rightarrow> string) \<Rightarrow> rpc_call \<Rightarrow> nat option list \<Rightarrow> rw_sys \<Rightarrow> rw_sys option" where
  "rw_run sm junk c [] r = Some r"
| "rw_run sm junk c (t # ts) r =
     (case rw_step sm junk c t r of None \<Rightarrow> None | Some r' \<Rightarrow> rw_run sm junk c ts r')"

abbreviation one_store :: "dfs_server \<Rightarrow> store_thread \<Rightarrow> fetch_thread \<Rightarrow> rw_sys" where
  "one_store s th ft \<equiv> \<lparr>rw_store = \<lparr>ss_server = s, ss_threads = [th]\<rparr>, rw_fetch = ft\<rparr>"

lemma rw_run_append:
  "rw_run sm junk c ts r = Some r' \<Longrightarrow> rw_run sm junk c (ts @ us) r = rw_run sm junk c us r'"
  by (induction ts arbitrary: r) (auto split: option.splits)

lemma rw_run_store_alone:
  "\<exists>ts. rw_run sm junk c ts (one_store s th ft) =
     Some (one_store (snd (store_alone sm junk k th s)) (fst (store_alone sm junk k th s)) ft)"
proof (induction k arbitrary: th s)
  case 0
  then show ?case by (intro exI [of _ "[]"]) simp
next
  case (Suc k)
  show ?case
  proof (cases "StoreFile_step sm junk th s")
    case None
    then show ?thesis by (intro exI [of _ "[]"]) (simp add: store_alone.simps(2))
  next
    case (Some q)
    obtain pos s' where q: "q = (pos, s')" by force
    obtain ts where "rw_run sm junk c ts (one_store s' (th\<lparr>th_pos := pos\<rparr>) ft) =
        Some (one_store (snd (store_alone sm junk (Suc k) th s)) (fst (store_alone sm junk (Suc k) th s)) ft)"
      using Suc.IH [of s' "th\<lparr>th_pos := pos\<rparr>"] Some q by (auto simp: store_alone_step)
    then show ?thesis
      using Some q by (intro exI [of _ "Some 0 # ts"]) (simp add: store_step_def)
  qed
qed

lemma rw_run_fetch_alone:
  "\<exists>ts. rw_run sm junk c ts (one_store s th ft) = Some (one_store s th (fetch_alone sm c k (ds_fs s) ft))"
proof (induction k arbitrary: ft)
  case 0
  then show ?case by (intro exI [of _ "[]"]) simp
next
  case (Suc k)
  show ?case
  proof (cases "FetchFile_step sm c ft (ds_fs s)")
    case None
    then show ?thesis by (intro exI [of _ "[]"]) (simp add: fetch_alone.simps(2))
  next
    case (Some ft')
    obtain ts where "rw_run sm junk c ts (one_store s th ft') = Some (one_store s th (fetch_alone sm c (Suc k) (ds_fs s) ft))"
      using Suc.IH [of ft'] Some by (auto simp: fetch_alone_step)
    then show ?thesis using Some by (intro exI [of _ "None # ts"]) simp
  qed
qed


lemma StoreFile_p2_written:
  assumes "StoreFile_p2 sm junk rpc_ok ms s = (DFS_OK, s')" "ms \<noteq> []"
  shows "fs_content (ds_fs s') (WrapPath sm (fm_name (hd ms))) = Some (concat (map msg_data ms))"
proof -
  obtain m ms' where ms: "ms = m # ms'" using assms(2) by (cases ms) auto
  let ?p = "WrapPath sm (fm_name m)"
  obtain st s1 where l: "CheckLock (fm_clientid m) (fm_name m) s = (st, s1)" by force
  with assms(1) have w: "fs_writable (ds_fs s1) ?p"
    and s': "s' = ReleaseLock (fm_name m) (s1\<lparr>ds_fs := ofstream_write ?p (concat (map msg_data ms)) (ds_fs s1)\<rparr>)"
    by (auto simp: StoreFile_p2_def Let_def ms dfs_status split: if_splits)
  then show ?thesis by (simp add: ReleaseLock_def ofstream_write_content ms)
qed

text \<open>
  C38. FetchFile takes no lock: when a StoreFile of the same name runs between its first two reads,
  both calls end with OK and the client has received the first buffer of the old file and the rest
  of the new one.
\<close>

theorem fetch_mixes_versions:
  assumes "StoreFile_p2 sm junk rpc_ok ms s = (DFS_OK, s')" "ms \<noteq> []"
    and "fs_content (ds_fs s) (WrapPath sm (fm_name (hd ms))) = Some d" "BUFSIZ \<le> length d"
  shows "\<exists>ts th ft. rw_run sm junk rpc_ok ts (one_store s (thread_of_msgs ms) (fetch_start (fm_name (hd ms)))) =
      Some (one_store s' th ft) \<and>
    th_pos th = TDone DFS_OK \<and> ft_pos ft = FDone DFS_OK \<and>
    concat (ft_sent ft) = take BUFSIZ d @ drop BUFSIZ (concat (map msg_data ms))"
proof -
  let ?n = "fm_name (hd ms)" and ?new = "concat (map msg_data ms)"
  let ?ft = "\<lparr>ft_name = ?n, ft_pos = FRead BUFSIZ, ft_sent = [take BUFSIZ d]\<rparr>"
  let ?run = "rw_run sm junk rpc_ok" and ?th = "thread_of_msgs ms"
  have 1: "?run [None, None] (one_store s ?th (fetch_start ?n)) = Some (one_store s ?th ?ft)"
    using assms(3,4) by (simp add: FetchFile_step_def fetch_start_def Let_def)
  obtain th where th: "store_alone sm junk (length ms + 6) ?th s = (th, s')" "th_pos th = TDone DFS_OK"
    using store_alone_StoreFile [of sm junk ms s] assms(1) by auto
  obtain ts where 2: "?run ts (one_store s ?th ?ft) = Some (one_store s' th ?ft)"
    using rw_run_store_alone [of sm junk rpc_ok s ?th ?ft "length ms + 6"] th(1) by auto
  let ?k = "length (read_chunks (drop BUFSIZ ?new))"
  obtain us where 3: "?run us (one_store s' th ?ft) = Some (one_store s' th (fetch_alone sm rpc_ok ?k (ds_fs s') ?ft))"
    using rw_run_fetch_alone by blast
  have c: "send_chunks rpc_ok k ds = (DFS_OK, ds)" for k ds
    by (induction ds arbitrary: k) simp_all
  have "fetch_alone sm rpc_ok ?k (ds_fs s') ?ft =
      ?ft\<lparr>ft_pos := FDone DFS_OK, ft_sent := [take BUFSIZ d] @ read_chunks (drop BUFSIZ ?new)\<rparr>"
    using fetch_alone_FRead [of ?ft BUFSIZ "ds_fs s'" sm ?new rpc_ok 0] StoreFile_p2_written [OF assms(1,2)]
    by (simp add: c)
  moreover have "?run ([None, None] @ ts @ us) (one_store s ?th (fetch_start ?n)) =
      Some (one_store s' th (fetch_alone sm rpc_ok ?k (ds_fs s') ?ft))"
    unfolding rw_run_append [OF 1] rw_run_append [OF 2] by (rule 3)
  ultimately show ?thesis
    using th(2) by (intro exI [of _ "[None, None] @ ts @ us"] exI [of _ th]) (simp add: concat_read_chunks)
qed

text \<open>An old file of one buffer and one byte, all a, and a new one of b.\<close>

definition old_server :: dfs_server where
  "old_server =
     \<lparr>ds_fs = \<lparr>fs_files = [''s/f'' \<mapsto> \<lparr>df_content = replicate 8193 (CHR ''a''), df_mtime = 1, df_ctime = 1\<rparr>],
               fs_writable = (\<lambda>p. True), fs_now = 2\<rparr>, ds_write_map = (\<lambda>n. [])\<rparr>"

definition new_msg :: "32 word \<Rightarrow> nat \<Rightarrow> file_msg" where
  "new_msg crc k = \<lparr>fm_name = ''f'', fm_size = int k, fm_content = replicate k (CHR ''b''), fm_clientid = ''B'', fm_crc = crc\<rparr>"

theorem fetch_mixes_versions_witness:
  "\<exists>ms ts s' th ft. rw_run ''s/'' (\<lambda>n. replicate n NUL) rpc_ok ts
      (one_store old_server (thread_of_msgs ms) (fetch_start ''f'')) = Some (one_store s' th ft) \<and>
    th_pos th = TDone DFS_OK \<and> ft_pos ft = FDone DFS_OK \<and>
    concat (ft_sent ft) = replicate 8192 (CHR ''a'') @ [CHR ''b'']"
proof -
  let ?j = "\<lambda>n. replicate n NUL"
  define x where "x = file_crc ?j ''s/f'' (ds_fs old_server) + 1"
  let ?ms = "[new_msg x 8192, new_msg x 1]"
  obtain st s' where s': "StoreFile_p2 ''s/'' ?j rpc_ok ?ms old_server = (st, s')" by force
  have x: "x \<noteq> file_crc ?j ''s/f'' (ds_fs old_server)" by (simp add: x_def)
  have l: "CheckLock ''B'' ''f'' old_server = (DFS_OK, old_server\<lparr>ds_write_map := (\<lambda>n. [])(''f'' := ''B'')\<rparr>)"
    by (simp add: CheckLock_def old_server_def)
  from s' have st: "st = DFS_OK"
    by (simp add: StoreFile_p2_def Let_def new_msg_def l WrapPath_def x) (simp add: old_server_def)
  have old: "fs_content (ds_fs old_server) (WrapPath ''s/'' (fm_name (hd ?ms))) = Some (replicate 8193 (CHR ''a''))"
    by (simp add: old_server_def fs_content_def WrapPath_def new_msg_def)
  have n: "fm_name (hd ?ms) = ''f''" by (simp add: new_msg_def)
  have r: "take BUFSIZ (replicate 8193 (CHR ''a'')) @ drop BUFSIZ (concat (map msg_data ?ms)) =
      replicate 8192 (CHR ''a'') @ [CHR ''b'']"
    by (simp add: BUFSIZ_def msg_data_def new_msg_def)
  have "BUFSIZ \<le> length (replicate 8193 (CHR ''a''))" by (simp add: BUFSIZ_def)
  from fetch_mixes_versions [OF s' [unfolded st] _ old this] show ?thesis
    unfolding n r by (metis list.distinct(1))
qed

end
