(* ===== verification/DFSHandlers.thy ===== *)
theory DFSHandlers
  imports DFSReaders
begin

text \<open>
  All handlers of grpc/part2/dfslib-servernode-p2.cpp that change the server, run at once: StoreFile
  (DFSConcurrent) and DeleteFile step by step, and WriteLock, whose effect is one call of CheckLock
  under the mutex, between any of their steps.
\<close>

section \<open>DeleteFile in steps\<close>

text \<open>The file is looked for before the lock is taken.\<close>

datatype dpos = DExist | DLock | DRemove | DRelease | DDone int

record delete_thread =
  dt_client :: string
  dt_name :: string
  dt_pos :: dpos

definition DeleteFile_step :: "string \<Rightarrow> delete_thread \<Rightarrow> dfs_server \<Rightarrow> (dpos \<times> dfs_server) option" where
  "DeleteFile_step sm th s =
     (let path = WrapPath sm (dt_name th) in
      case dt_pos th of
        DExist \<Rightarrow> Some (case fs_files (ds_fs s) path of None \<Rightarrow> DDone DFS_NOT_FOUND | Some _ \<Rightarrow> DLock, s)
      | DLock \<Rightarrow>
          (case CheckLock (dt_client th) (dt_name th) s of
             (st, s') \<Rightarrow> Some (if st = DFS_OK then DRemove else DDone DFS_RESOURCE_EXHAUSTED, s'))
      | DRemove \<Rightarrow> Some (DRelease, s\<lparr>ds_fs := remove_file path (ds_fs s)\<rparr>)
      | DRelease \<Rightarrow> Some (DDone DFS_OK, ReleaseLock (dt_name th) s)
      | DDone st \<Rightarrow> None)"

record handlers =
  hs_store :: store_sys
  hs_deletes :: "delete_thread list"

datatype handler_act = HStore nat | HDelete nat | HLock string string

fun handler_step :: "string \<Rightarrow> (nat \<Rightarrow> string) \<Rightarrow> handler_act \<Rightarrow> handlers \<Rightarrow> handlers option" where
  "handler_step sm junk (HStore w) h = map_option (\<lambda>g. h\<lparr>hs_store := g\<rparr>) (store_step sm junk w (hs_store h))"
| "handler_step sm junk (HDelete w) h =
     (if length (hs_deletes h) \<le> w then None
      else (case DeleteFile_step sm (hs_deletes h ! w) (ss_server (hs_store h)) of
              None \<Rightarrow> None
            | Some (pos, s) \<Rightarrow>
                Some (h\<lparr>hs_store := (hs_store h)\<lparr>ss_server := s\<rparr>,
                        hs_deletes := (hs_deletes h)[w := (hs_deletes h ! w)\<lparr>dt_pos := pos\<rparr>]\<rparr>)))"
| "handler_step sm junk (HLock i n) h =
     Some (h\<lparr>hs_store := (hs_store h)\<lparr>ss_server := snd (CheckLock i n (ss_server (hs_store h)))\<rparr>\<rparr>)"

fun handler_run :: "string \<Rightarrow> (nat \<Rightarrow> string) \<Rightarrow> handler_act list \<Rightarrow> handlers \<Rightarrow> handlers option" where
  "handler_run sm junk [] h = Some h"
| "handler_run sm junk (a # as) h =
     (case handler_step sm junk a h of None \<Rightarrow> None | Some h' \<Rightarrow> handler_run sm junk as h')"

section \<open>The invariant\<close>

fun deleting :: "dpos \<Rightarrow> bool" where
  "deleting DRemove = True" | "deleting DRelease = True" | "deleting _ = False"

fun removed :: "dpos \<Rightarrow> bool" where
  "removed DRelease = True" | "removed (DDone st) = (st = DFS_OK)" | "removed _ = False"

text \<open>Client and name of every call; the names of the calls that are between taking and releasing a lock.\<close>

definition all_jobs :: "handlers \<Rightarrow> (string \<times> string) list" where
  "all_jobs h = map (\<lambda>t. (th_client t, th_name t)) (ss_threads (hs_store h)) @
     map (\<lambda>d. (dt_client d, dt_name d)) (hs_deletes h)"

definition locked_names :: "handlers \<Rightarrow> string list" where
  "locked_names h = map th_name (filter (\<lambda>t. critical (th_pos t)) (ss_threads (hs_store h))) @
     map dt_name (filter (\<lambda>d. deleting (dt_pos d)) (hs_deletes h))"

text \<open>All calls are new, and no client has two calls for one name. Any locks may be taken.\<close>

definition fresh_handlers :: "handlers \<Rightarrow> bool" where
  "fresh_handlers h \<longleftrightarrow> fresh_calls (hs_store h) \<and>
     (\<forall>d\<in>set (hs_deletes h). dt_client d \<noteq> [] \<and> dt_pos d = DExist) \<and> distinct (all_jobs h)"

text \<open>What a file may hold that no StoreFile has completed: its first content, or nothing once it was removed.\<close>

definition file_state :: "string \<Rightarrow> handlers \<Rightarrow> delete_thread list \<Rightarrow> string \<Rightarrow> string option \<Rightarrow> bool" where
  "file_state sm h0 ds n c \<longleftrightarrow> first_content sm (hs_store h0) n c \<or>
     c = None \<and> (\<exists>d\<in>set ds. dt_name d = n \<and> removed (dt_pos d))"

definition handlers_inv :: "string \<Rightarrow> handlers \<Rightarrow> handlers \<Rightarrow> bool" where
  "handlers_inv sm h0 h \<longleftrightarrow>
     store_inv sm (file_state sm h0 (hs_deletes h)) (hs_store h0) (hs_store h) \<and>
     all_jobs h = all_jobs h0 \<and>
     (\<forall>d\<in>set (hs_deletes h). deleting (dt_pos d) \<longrightarrow>
        ds_write_map (ss_server (hs_store h)) (dt_name d) = dt_client d)"

section \<open>Locks of other calls are left alone\<close>

lemma CheckLock_taken: "ds_write_map s n \<noteq> [] \<Longrightarrow> ds_write_map (snd (CheckLock i m s)) n = ds_write_map s n"
  by (auto simp: CheckLock_def)

lemma store_step_locks:
  assumes step: "store_step sm junk w g = Some g'" and inv: "store_inv sm Q g0 g"
    and own: "ds_write_map (ss_server g) n = c" "c \<noteq> []"
    and other: "\<And>t. t \<in> set (ss_threads g) \<Longrightarrow> (th_client t, th_name t) \<noteq> (c, n)"
  shows "ds_write_map (ss_server g') n = c"
proof -
  obtain th p s' where w: "w < length (ss_threads g)" and th: "th = ss_threads g ! w"
    and st: "StoreFile_step sm junk th (ss_server g) = Some (p, s')"
    and g': "g' = \<lparr>ss_server = s', ss_threads = (ss_threads g)[w := th\<lparr>th_pos := p\<rparr>]\<rparr>"
    using step by (rule store_step_cases)
  show ?thesis
  proof (cases "th_pos th")
    case TStart
    with st have "s' = snd (CheckLock (th_client th) (th_name th) (ss_server g))"
      by (auto simp: StoreFile_step_def Let_def split: prod.splits)
    with CheckLock_taken [of "ss_server g" n] own show ?thesis by (simp add: g')
  next
    case (TRelease r)
    have "ds_write_map (ss_server g) (th_name th) = th_client th"
      using critical_owner [OF inv w] TRelease th by simp
    with other [of th] own w th have "th_name th \<noteq> n" by auto
    with st TRelease own show ?thesis by (auto simp: g' StoreFile_step_def Let_def ReleaseLock_def)
  next
    case (TWrite off ds)
    with st own show ?thesis by (cases ds) (auto simp: g' StoreFile_step_def Let_def)
  qed (use st own in \<open>auto simp: g' StoreFile_step_def Let_def split: if_splits\<close>)
qed

text \<open>A step of another handler on the server that does not disturb a StoreFile.\<close>

lemma store_inv_server:
  assumes inv: "store_inv sm Q g0 g" and mono: "\<And>n c. Q n c \<Longrightarrow> Q' n c"
    and wr: "fs_writable (ds_fs s') = fs_writable (ds_fs (ss_server g))"
    and own: "\<And>t. t \<in> set (ss_threads g) \<Longrightarrow> critical (th_pos t) \<Longrightarrow> ds_write_map s' (th_name t) = th_client t"
    and fs: "\<And>n. fs_content (ds_fs s') (WrapPath sm n) = fs_content (ds_fs (ss_server g)) (WrapPath sm n) \<or>
      Q' n (fs_content (ds_fs s') (WrapPath sm n)) \<and> (\<forall>t\<in>set (ss_threads g). th_name t = n \<longrightarrow> \<not> critical (th_pos t))"
  shows "store_inv sm Q' g0 (g\<lparr>ss_server := s'\<rparr>)"
proof -
  note i = inv [unfolded store_inv_def]
  have w: "written t (fs_content (ds_fs s') (WrapPath sm (th_name t)))" if t: "t \<in> set (ss_threads g)" for t
  proof (cases "writing t")
    case True
    with fs [of "th_name t"] t writing_critical
    have "fs_content (ds_fs s') (WrapPath sm (th_name t)) = fs_content (ds_fs (ss_server g)) (WrapPath sm (th_name t))"
      by blast
    with i t show ?thesis by simp
  next
    case False
    then show ?thesis by (cases "th_pos t") (simp_all add: writing_def written_def)
  qed
  have ws: "whole_store (g\<lparr>ss_server := s'\<rparr>) n c = whole_store g n c" for n c by (simp add: whole_store_def)
  have q: "Q' n (fs_content (ds_fs s') (WrapPath sm n)) \<or> whole_store g n (fs_content (ds_fs s') (WrapPath sm n))"
    if "\<forall>t\<in>set (ss_threads g). th_name t = n \<longrightarrow> \<not> writing t" for n
  proof (cases "fs_content (ds_fs s') (WrapPath sm n) = fs_content (ds_fs (ss_server g)) (WrapPath sm n)")
    case True
    from i that have "Q n (fs_content (ds_fs (ss_server g)) (WrapPath sm n)) \<or>
        whole_store g n (fs_content (ds_fs (ss_server g)) (WrapPath sm n))" by blast
    with mono show ?thesis unfolding True by blast
  next
    case False
    with fs [of n] show ?thesis by blast
  qed
  have wf: "\<forall>t\<in>set (ss_threads g). writing t \<longrightarrow> fs_writable (ds_fs s') (WrapPath sm (th_name t))"
    unfolding wr using i by blast
  show ?thesis
    unfolding store_inv_def ws store_sys.simps using i own w q wr wf by auto
qed


section \<open>Every step keeps the invariant\<close>

lemma file_state_mono:
  assumes "w < length ds" "removed (dt_pos (ds ! w)) \<Longrightarrow> removed p" "file_state sm h0 ds n c"
  shows "file_state sm h0 (ds[w := (ds ! w)\<lparr>dt_pos := p\<rparr>]) n c"
proof -
  have "\<exists>d\<in>set (ds[w := (ds ! w)\<lparr>dt_pos := p\<rparr>]). dt_name d = n \<and> removed (dt_pos d)"
    if d: "d \<in> set ds" "dt_name d = n" "removed (dt_pos d)" for d
  proof -
    obtain v where v: "v < length ds" "ds ! v = d" using d(1) by (auto simp: in_set_conv_nth)
    show ?thesis
    proof (cases "v = w")
      case True
      with v d assms(1,2) show ?thesis
        by (intro bexI [of _ "(ds ! w)\<lparr>dt_pos := p\<rparr>"]) (auto intro: set_update_memI)
    next
      case False
      with v have "d \<in> set (ds[w := (ds ! w)\<lparr>dt_pos := p\<rparr>])"
        by (metis length_list_update nth_list_update_neq nth_mem)
      with d show ?thesis by blast
    qed
  qed
  with assms(3) show ?thesis unfolding file_state_def by blast
qed

lemma jobs_of_store:
  assumes "map (\<lambda>t. (th_client t, th_name t, th_data t)) xs = map (\<lambda>t. (th_client t, th_name t, th_data t)) ys"
  shows "map (\<lambda>t. (th_client t, th_name t)) xs = map (\<lambda>t. (th_client t, th_name t)) ys"
  using arg_cong [OF assms, of "map (\<lambda>(a, b, c). (a, b))"] by (simp add: o_def)

lemma all_jobs_disjoint:
  assumes "distinct (all_jobs h)" "t \<in> set (ss_threads (hs_store h))" "d \<in> set (hs_deletes h)"
  shows "(th_client t, th_name t) \<noteq> (dt_client d, dt_name d)"
  using assms unfolding all_jobs_def distinct_append by (metis (no_types, lifting) IntI empty_iff image_eqI set_map)

lemma handlers_inv_store:
  assumes inv: "handlers_inv sm h0 h" and fresh: "fresh_handlers h0"
    and dc: "distinct_calls (hs_store h)" and step: "store_step sm junk w (hs_store h) = Some g"
  shows "handlers_inv sm h0 (h\<lparr>hs_store := g\<rparr>)"
proof -
  have si: "store_inv sm (file_state sm h0 (hs_deletes h)) (hs_store h0) (hs_store h)"
    and jobs: "all_jobs h = all_jobs h0" using inv by (simp_all add: handlers_inv_def)
  have si': "store_inv sm (file_state sm h0 (hs_deletes h)) (hs_store h0) g" by (rule store_step_inv [OF si dc step])
  have "map (\<lambda>t. (th_client t, th_name t)) (ss_threads g) = map (\<lambda>t. (th_client t, th_name t)) (ss_threads (hs_store h))"
    by (rule jobs_of_store) (use si si' in \<open>simp add: store_inv_def\<close>)
  then have "all_jobs (h\<lparr>hs_store := g\<rparr>) = all_jobs h0" using jobs by (simp add: all_jobs_def)
  moreover have "ds_write_map (ss_server g) (dt_name d) = dt_client d" if d: "d \<in> set (hs_deletes h)" "deleting (dt_pos d)" for d
  proof (rule store_step_locks [OF step si])
    show "ds_write_map (ss_server (hs_store h)) (dt_name d) = dt_client d" using inv d by (simp add: handlers_inv_def)
    have "(dt_client d, dt_name d) \<in> set (all_jobs h0)" using d(1) jobs [symmetric] by (simp add: all_jobs_def)
    then show "dt_client d \<noteq> []" using fresh by (auto simp: fresh_handlers_def fresh_calls_def all_jobs_def)
    have "distinct (all_jobs h)" using fresh jobs by (simp add: fresh_handlers_def)
    then show "(th_client t, th_name t) \<noteq> (dt_client d, dt_name d)" if "t \<in> set (ss_threads (hs_store h))" for t
      using all_jobs_disjoint that d(1) by blast
  qed
  ultimately show ?thesis using si' by (simp add: handlers_inv_def)
qed

lemma handlers_inv_lock:
  assumes inv: "handlers_inv sm h0 h" and fresh: "fresh_handlers h0" and dc: "distinct_calls (hs_store h)"
  shows "handlers_inv sm h0 (h\<lparr>hs_store := (hs_store h)\<lparr>ss_server := snd (CheckLock i n (ss_server (hs_store h)))\<rparr>\<rparr>)"
proof -
  let ?g = "hs_store h" and ?s = "snd (CheckLock i n (ss_server (hs_store h)))"
  have si: "store_inv sm (file_state sm h0 (hs_deletes h)) (hs_store h0) ?g" and jobs: "all_jobs h = all_jobs h0"
    using inv by (simp_all add: handlers_inv_def)
  have fs: "ds_fs ?s = ds_fs (ss_server ?g)" by (simp add: CheckLock_def)
  have "store_inv sm (file_state sm h0 (hs_deletes h)) (hs_store h0) (?g\<lparr>ss_server := ?s\<rparr>)"
  proof (rule store_inv_server [OF si])
    fix t
    assume t: "t \<in> set (ss_threads ?g)" "critical (th_pos t)"
    then have "ds_write_map (ss_server ?g) (th_name t) = th_client t" using si unfolding store_inv_def by blast
    moreover have "th_client t \<noteq> []" using dc t(1) by (simp add: distinct_calls_def)
    ultimately show "ds_write_map ?s (th_name t) = th_client t" by (metis CheckLock_taken)
  qed (simp_all add: fs)
  moreover have "ds_write_map ?s (dt_name d) = dt_client d" if d: "d \<in> set (hs_deletes h)" "deleting (dt_pos d)" for d
  proof -
    have "(dt_client d, dt_name d) \<in> set (all_jobs h0)" using d(1) jobs [symmetric] by (simp add: all_jobs_def)
    then have "dt_client d \<noteq> []" using fresh by (auto simp: fresh_handlers_def fresh_calls_def all_jobs_def)
    moreover have "ds_write_map (ss_server ?g) (dt_name d) = dt_client d" using inv d by (simp add: handlers_inv_def)
    ultimately show ?thesis by (metis CheckLock_taken)
  qed
  ultimately show ?thesis using jobs by (simp add: handlers_inv_def all_jobs_def)
qed


lemma handlers_inv_frame:
  assumes inv: "handlers_inv sm h0 h" and w: "w < length (hs_deletes h)" and d: "d = hs_deletes h ! w"
    and h': "h' = h\<lparr>hs_store := (hs_store h)\<lparr>ss_server := s'\<rparr>, hs_deletes := (hs_deletes h)[w := d\<lparr>dt_pos := p\<rparr>]\<rparr>"
    and rm: "removed (dt_pos d) \<Longrightarrow> removed p"
    and wr: "fs_writable (ds_fs s') = fs_writable (ds_fs (ss_server (hs_store h)))"
    and own: "\<And>t. t \<in> set (ss_threads (hs_store h)) \<Longrightarrow> critical (th_pos t) \<Longrightarrow> ds_write_map s' (th_name t) = th_client t"
    and others: "\<And>v. v < length (hs_deletes h) \<Longrightarrow> v \<noteq> w \<Longrightarrow> deleting (dt_pos (hs_deletes h ! v)) \<Longrightarrow>
      ds_write_map s' (dt_name (hs_deletes h ! v)) = dt_client (hs_deletes h ! v)"
    and mine: "deleting p \<Longrightarrow> ds_write_map s' (dt_name d) = dt_client d"
    and fs: "\<And>n. fs_content (ds_fs s') (WrapPath sm n) = fs_content (ds_fs (ss_server (hs_store h))) (WrapPath sm n) \<or>
      n = dt_name d \<and> removed p \<and> fs_content (ds_fs s') (WrapPath sm n) = None \<and>
      (\<forall>t\<in>set (ss_threads (hs_store h)). th_name t = n \<longrightarrow> \<not> critical (th_pos t))"
  shows "handlers_inv sm h0 h'"
proof -
  let ?ds = "(hs_deletes h)[w := d\<lparr>dt_pos := p\<rparr>]"
  have si: "store_inv sm (file_state sm h0 (hs_deletes h)) (hs_store h0) (hs_store h)"
    using inv by (simp add: handlers_inv_def)
  have gone: "file_state sm h0 ?ds (dt_name d) None" if "removed p"
    using that w unfolding file_state_def
    by (intro disjI2 conjI refl bexI [of _ "d\<lparr>dt_pos := p\<rparr>"]) (auto intro: set_update_memI)
  have "store_inv sm (file_state sm h0 ?ds) (hs_store h0) ((hs_store h)\<lparr>ss_server := s'\<rparr>)"
  proof (rule store_inv_server [OF si _ wr own])
    show "file_state sm h0 ?ds n c" if "file_state sm h0 (hs_deletes h) n c" for n c
      using file_state_mono [OF w _ that, of p] rm unfolding d by blast
    show "fs_content (ds_fs s') (WrapPath sm n) = fs_content (ds_fs (ss_server (hs_store h))) (WrapPath sm n) \<or>
        file_state sm h0 ?ds n (fs_content (ds_fs s') (WrapPath sm n)) \<and>
        (\<forall>t\<in>set (ss_threads (hs_store h)). th_name t = n \<longrightarrow> \<not> critical (th_pos t))" for n
      using fs [of n] gone by auto
  qed
  moreover have "all_jobs h' = all_jobs h0"
  proof -
    have "map (\<lambda>d. (dt_client d, dt_name d)) ?ds = map (\<lambda>d. (dt_client d, dt_name d)) (hs_deletes h)"
      unfolding map_update d using w by (simp add: list_update_same_conv)
    then have "all_jobs h' = all_jobs h" by (simp add: all_jobs_def h')
    with inv show ?thesis by (simp add: handlers_inv_def)
  qed
  moreover have "ds_write_map s' (dt_name e) = dt_client e" if e: "e \<in> set ?ds" "deleting (dt_pos e)" for e
  proof -
    obtain v where v: "v < length (hs_deletes h)" "e = ?ds ! v" using e(1) by (auto simp: in_set_conv_nth)
    show ?thesis
    proof (cases "v = w")
      case True
      with v w mine e(2) show ?thesis by simp
    next
      case False
      with v others [of v] e(2) show ?thesis by simp
    qed
  qed
  ultimately show ?thesis by (simp add: handlers_inv_def h')
qed

lemma handlers_inv_delete:
  assumes inv: "handlers_inv sm h0 h" and fresh: "fresh_handlers h0" and dc: "distinct_calls (hs_store h)"
    and step: "handler_step sm junk (HDelete w) h = Some h'"
  shows "handlers_inv sm h0 h'"
proof -
  define d where "d = hs_deletes h ! w"
  let ?s = "ss_server (hs_store h)"
  from step obtain p s' where w: "w < length (hs_deletes h)" and st: "DeleteFile_step sm d ?s = Some (p, s')"
    and h': "h' = h\<lparr>hs_store := (hs_store h)\<lparr>ss_server := s'\<rparr>, hs_deletes := (hs_deletes h)[w := d\<lparr>dt_pos := p\<rparr>]\<rparr>"
    by (auto simp: d_def split: if_splits option.splits)
  have jobs: "all_jobs h = all_jobs h0" using inv by (simp add: handlers_inv_def)
  have dist: "distinct (all_jobs h)" using fresh jobs by (simp add: fresh_handlers_def)
  have si: "store_inv sm (file_state sm h0 (hs_deletes h)) (hs_store h0) (hs_store h)"
    using inv by (simp add: handlers_inv_def)
  have din: "d \<in> set (hs_deletes h)" using w by (simp add: d_def)
  have ownt: "ds_write_map ?s (th_name t) = th_client t \<and> th_client t \<noteq> []"
    if "t \<in> set (ss_threads (hs_store h))" "critical (th_pos t)" for t
    using that si dc unfolding store_inv_def distinct_calls_def by blast
  have ownd: "ds_write_map ?s (dt_name (hs_deletes h ! v)) = dt_client (hs_deletes h ! v) \<and> dt_client (hs_deletes h ! v) \<noteq> []"
    if v: "v < length (hs_deletes h)" "deleting (dt_pos (hs_deletes h ! v))" for v
  proof -
    have m: "hs_deletes h ! v \<in> set (hs_deletes h)" using v(1) by simp
    then have "(dt_client (hs_deletes h ! v), dt_name (hs_deletes h ! v)) \<in> set (all_jobs h0)"
      using jobs [symmetric] by (simp add: all_jobs_def)
    then have "dt_client (hs_deletes h ! v) \<noteq> []" using fresh by (auto simp: fresh_handlers_def fresh_calls_def all_jobs_def)
    with inv m v(2) show ?thesis by (simp add: handlers_inv_def)
  qed
  note frame = handlers_inv_frame [OF inv w d_def h']
  show ?thesis
  proof (cases "dt_pos d")
    case DExist
    with st have "s' = ?s" "\<not> deleting p" by (auto simp: DeleteFile_step_def Let_def split: option.splits)
    with DExist show ?thesis by (intro frame) (use ownt ownd in auto)
  next
    case DLock
    then obtain c where c: "CheckLock (dt_client d) (dt_name d) ?s = (c, s')"
      and p: "p = (if c = DFS_OK then DRemove else DDone DFS_RESOURCE_EXHAUSTED)"
      using st by (auto simp: DeleteFile_step_def Let_def split: prod.splits)
    have s': "s' = snd (CheckLock (dt_client d) (dt_name d) ?s)" by (simp add: c)
    have fs: "ds_fs s' = ds_fs ?s" by (rule CheckLock_fs [OF c])
    have "ds_write_map s' (dt_name d) = dt_client d" if "deleting p"
      using that c p by (auto simp: CheckLock_def dfs_status split: if_splits)
    moreover have "ds_write_map s' n = ds_write_map ?s n" if "ds_write_map ?s n \<noteq> []" for n
      unfolding s' by (rule CheckLock_taken [OF that])
    ultimately show ?thesis using DLock fs ownt ownd by (intro frame) simp_all
  next
    case DRemove
    then have p: "p = DRelease" and s': "s' = ?s\<lparr>ds_fs := remove_file (WrapPath sm (dt_name d)) (ds_fs ?s)\<rparr>"
      using st by (auto simp: DeleteFile_step_def Let_def)
    have mine: "ds_write_map ?s (dt_name d) = dt_client d" using ownd [OF w] DRemove by (simp add: d_def)
    have free: "\<not> critical (th_pos t)" if "t \<in> set (ss_threads (hs_store h))" "th_name t = dt_name d" for t
      using ownt [OF that(1)] all_jobs_disjoint [OF dist that(1) din] mine that(2) by auto
    show ?thesis
    proof (rule frame)
      show "fs_content (ds_fs s') (WrapPath sm n) = fs_content (ds_fs ?s) (WrapPath sm n) \<or>
          n = dt_name d \<and> removed p \<and> fs_content (ds_fs s') (WrapPath sm n) = None \<and>
          (\<forall>t\<in>set (ss_threads (hs_store h)). th_name t = n \<longrightarrow> \<not> critical (th_pos t))" for n
        using free by (cases "n = dt_name d") (auto simp: s' p fs_content_def remove_file_def)
    qed (use DRemove ownt ownd mine in \<open>auto simp: s' p remove_file_def\<close>)
  next
    case DRelease
    then have p: "p = DDone DFS_OK" and s': "s' = ReleaseLock (dt_name d) ?s"
      using st by (auto simp: DeleteFile_step_def Let_def)
    have mine: "ds_write_map ?s (dt_name d) = dt_client d" using ownd [OF w] DRelease by (simp add: d_def)
    have t: "th_name t \<noteq> dt_name d" if "t \<in> set (ss_threads (hs_store h))" "critical (th_pos t)" for t
      using ownt [OF that] all_jobs_disjoint [OF dist that(1) din] mine by auto
    have v: "dt_name (hs_deletes h ! v) \<noteq> dt_name d"
      if v: "v < length (hs_deletes h)" "v \<noteq> w" "deleting (dt_pos (hs_deletes h ! v))" for v
    proof
      assume n: "dt_name (hs_deletes h ! v) = dt_name d"
      with ownd [OF v(1,3)] mine have "dt_client (hs_deletes h ! v) = dt_client d" by simp
      moreover have "distinct (map (\<lambda>d. (dt_client d, dt_name d)) (hs_deletes h))"
        using dist by (simp add: all_jobs_def)
      ultimately show False
        using n v(1,2) w nth_eq_iff_index_eq [of "map (\<lambda>d. (dt_client d, dt_name d)) (hs_deletes h)" v w]
        by (simp add: d_def)
    qed
    show ?thesis
      by (rule frame) (use DRelease t v ownt ownd in \<open>auto simp: s' p ReleaseLock_def\<close>)
  next
    case (DDone r)
    with st show ?thesis by (simp add: DeleteFile_step_def Let_def)
  qed
qed


lemma handler_run_inv:
  assumes "handler_run sm junk as h = Some h'" "fresh_handlers h0" "handlers_inv sm h0 h" "distinct_calls (hs_store h0)"
  shows "handlers_inv sm h0 h'"
  using assms(1,3)
proof (induction as arbitrary: h)
  case (Cons a as)
  then obtain h1 where h1: "handler_step sm junk a h = Some h1" "handler_run sm junk as h1 = Some h'"
    by (auto split: option.splits)
  have dc: "distinct_calls (hs_store h)"
    using distinct_calls_kept [OF _ assms(4)] Cons.prems(2) unfolding handlers_inv_def by blast
  have "handlers_inv sm h0 h1"
  proof (cases a)
    case (HStore w)
    with h1(1) obtain g where "store_step sm junk w (hs_store h) = Some g" "h1 = h\<lparr>hs_store := g\<rparr>" by auto
    with handlers_inv_store [OF Cons.prems(2) assms(2) dc] show ?thesis by blast
  next
    case (HDelete w)
    from handlers_inv_delete [OF Cons.prems(2) assms(2) dc h1(1) [unfolded HDelete]] show ?thesis .
  next
    case (HLock i n)
    with h1(1) handlers_inv_lock [OF Cons.prems(2) assms(2) dc, of i n] show ?thesis by simp
  qed
  with Cons.IH [OF h1(2)] show ?case by blast
qed simp

lemma fresh_handlers_inv:
  assumes "fresh_handlers h"
  shows "handlers_inv sm h h \<and> distinct_calls (hs_store h)"
proof -
  have "distinct_calls (hs_store h) \<and> store_inv sm (file_state sm h (hs_deletes h)) (hs_store h) (hs_store h)"
    by (rule fresh_calls_inv) (use assms in \<open>simp_all add: fresh_handlers_def file_state_def first_content_def\<close>)
  then show ?thesis using assms by (auto simp: handlers_inv_def fresh_handlers_def)
qed

text \<open>Who is between taking and releasing a lock owns it, so no two of them have the same name.\<close>

lemma locked_names_distinct:
  assumes inv: "handlers_inv sm h0 h" and "distinct (all_jobs h0)"
  shows "distinct (locked_names h)"
proof -
  let ?S = "filter (\<lambda>t. critical (th_pos t)) (ss_threads (hs_store h))"
  let ?D = "filter (\<lambda>d. deleting (dt_pos d)) (hs_deletes h)"
  let ?f = "\<lambda>n. (ds_write_map (ss_server (hs_store h)) n, n)"
  have "distinct (all_jobs h)" using assms by (simp add: handlers_inv_def)
  then have "distinct (map (\<lambda>t. (th_client t, th_name t)) ?S @ map (\<lambda>d. (dt_client d, dt_name d)) ?D)"
    unfolding all_jobs_def distinct_append by (auto simp: distinct_map_filter)
  moreover have "map (\<lambda>t. (th_client t, th_name t)) ?S = map ?f (map th_name ?S)"
    using inv by (auto simp: handlers_inv_def store_inv_def)
  moreover have "map (\<lambda>d. (dt_client d, dt_name d)) ?D = map ?f (map dt_name ?D)"
    using inv by (auto simp: handlers_inv_def)
  ultimately have "distinct (map ?f (locked_names h))" by (simp only: locked_names_def map_append)
  then show ?thesis unfolding distinct_map by (rule conjunct1)
qed

section \<open>Properties\<close>


text \<open>
  A stores a file; a delete by B that falls between its writes is turned away, and so is the request
  of C for the lock; a second delete, by D, comes when A is done.
\<close>

definition demo_delete :: "string \<Rightarrow> delete_thread" where
  "demo_delete c = \<lparr>dt_client = c, dt_name = ''f'', dt_pos = DExist\<rparr>"

definition demo_handlers :: handlers where
  "demo_handlers =
     \<lparr>hs_store = \<lparr>ss_server = dfs_empty_server (\<lambda>n. []), ss_threads = [store_demo_thread ''A'' [''a'', ''b'']]\<rparr>,
      hs_deletes = [demo_delete ''B'', demo_delete ''D'']\<rparr>"

definition demo_handler_acts :: "handler_act list" where
  "demo_handler_acts = [HStore 0, HStore 0, HStore 0, HStore 0, HDelete 0, HDelete 0, HLock ''C'' ''f'', HStore 0, HStore 0,
     HStore 0, HDelete 1, HDelete 1, HDelete 1, HDelete 1]"

lemmas demo_handler_simps = demo_handlers_def demo_delete_def store_demo_thread_def dfs_empty_server_def
  store_step_def StoreFile_step_def DeleteFile_step_def CheckLock_def ReleaseLock_def file_crc_def dfs_file_checksum_def
  fs_content_def WrapPath_def ofstream_write_def stream_write_def write_at_def remove_file_def dfs_status Let_def

lemma demo_handlers_run:
  "\<exists>h. handler_run ''s/'' (\<lambda>n. replicate n NUL) demo_handler_acts demo_handlers = Some h \<and>
     map th_pos (ss_threads (hs_store h)) = [TDone DFS_OK] \<and>
     map dt_pos (hs_deletes h) = [DDone DFS_RESOURCE_EXHAUSTED, DDone DFS_OK] \<and>
     fs_content (ds_fs (ss_server (hs_store h))) ''s/f'' = None"
  by (simp add: demo_handler_acts_def demo_handler_simps)

lemma demo_handlers_fresh: "fresh_handlers demo_handlers"
  by (simp add: fresh_handlers_def fresh_calls_def all_jobs_def demo_handlers_def demo_delete_def store_demo_thread_def)


text \<open>
  DeleteFile looks for the file before it takes the lock, so two deletes that overlap can both answer
  OK although only one of them has removed a file.
\<close>

definition two_deletes :: handlers where
  "two_deletes =
     \<lparr>hs_store = \<lparr>ss_server = (dfs_empty_server (\<lambda>n. []))\<lparr>ds_fs := ofstream_write ''s/f'' ''x''
        (ds_fs (dfs_empty_server (\<lambda>n. [])))\<rparr>, ss_threads = []\<rparr>,
      hs_deletes = [demo_delete ''B'', demo_delete ''D'']\<rparr>"

lemma deletes_both_ok:
  "\<exists>h. handler_run ''s/'' junk (map HDelete [0, 1, 0, 0, 0, 1, 1, 1]) two_deletes = Some h \<and>
     map dt_pos (hs_deletes h) = [DDone DFS_OK, DDone DFS_OK]"
  by (simp add: two_deletes_def demo_handler_simps)

end
