(* ===== verification/DFSSync.thy ===== *)
theory DFSSync
  imports DFSClient2
begin

text \<open>
  Two mounted clients and the server of grpc/part2: a change in the directory of one of them, seen
  by its inotify watcher, reaches the server, and with the next list of the server's files the
  directory of the other.
\<close>

section \<open>From one client to the server\<close>

definition event_flags :: "32 word" where
  "event_flags = (IN_CREATE OR IN_MODIFY) OR IN_DELETE"

lemma event_flags_eval:
  "event_flags AND IN_CREATE = 0x100" "event_flags AND IN_MODIFY = 0x2"
  "IN_CREATE \<noteq> 0" "IN_MODIFY \<noteq> 0" "IN_CREATE AND IN_MODIFY = 0" "IN_CREATE AND IN_DELETE = 0"
  "IN_MODIFY AND IN_CREATE = 0" "IN_MODIFY AND IN_DELETE = 0"
  by (simp_all add: event_flags_def IN_CREATE_def IN_MODIFY_def IN_DELETE_def)

lemma dfs_basename_mount:
  assumes "m = [] \<or> last m = CHR ''/''" "CHR ''/'' \<notin> set n"
  shows "dfs_basename (m @ n) = n"
proof -
  have t: "takeWhile (\<lambda>c. c \<noteq> CHR ''/'') (rev n @ xs) = rev n @ takeWhile (\<lambda>c. c \<noteq> CHR ''/'') xs" for xs
    using assms(2) by (intro takeWhile_append2) auto
  have "takeWhile (\<lambda>c. c \<noteq> CHR ''/'') (rev m) = []"
    using assms(1) by (cases m rule: rev_cases) auto
  then show ?thesis by (simp add: dfs_basename_def t)
qed

text \<open>One event of a file that is watched is one Store.\<close>

lemma InotifyWatcher_stores:
  assumes "watched_file (de_mount e @ n)" "CHR ''/'' \<notin> set n" "n = [] \<or> hd n \<noteq> CHR ''.''"
    and "de_mount e = [] \<or> last (de_mount e) = CHR ''/''" "ev \<in> {IN_CREATE, IN_MODIFY}"
  shows "InotifyWatcher e (\<lambda>k j. rpc_ok) event_flags 0 [(ev, n)] lfs s = snd (Store_p2 e rpc_ok rpc_ok n lfs s)"
  using assms(5)
proof (elim insertE emptyE)
  assume m: "ev = IN_CREATE"
  show ?thesis
    using assms(1-3) dfs_basename_mount [OF assms(4,2)]
    by (simp add: m event_flags_eval InotifyEventCallback_def Let_def)
next
  assume m: "ev = IN_MODIFY"
  show ?thesis
    using assms(1-3) dfs_basename_mount [OF assms(4,2)]
    by (simp add: m event_flags_eval InotifyEventCallback_def Let_def)
qed

section \<open>From the server to the other client\<close>

text \<open>The directory lists the file, and every regular file it lists exists.\<close>

definition listed :: "string \<Rightarrow> filesys \<Rightarrow> (string \<times> bool) list \<Rightarrow> bool" where
  "listed sm fs es \<longleftrightarrow> (\<forall>n. (n, True) \<in> set es \<longrightarrow> fs_files fs (WrapPath sm n) \<noteq> None)"

lemma callback_entries_listed:
  "listed sm fs es \<Longrightarrow> (n, True) \<in> set es \<Longrightarrow> fs_files fs (WrapPath sm n) = Some f \<Longrightarrow>
     status_of sm junk n fs f \<in> set (callback_entries sm junk fs es)"
proof (induction sm junk fs es rule: callback_entries.induct)
  case (2 sm junk fs m reg es)
  then show ?case by (cases reg) (auto simp: listed_def split: option.splits)
qed simp




end
