(* ===== verification/DFSCallData.thy ===== *)
theory DFSCallData
  imports DFSServer2
begin

text \<open>
  grpc/part2/src/dfslibx-call-data.h, dfslibx-service-runner.h and the queue of
  dfslib-servernode-p2.cpp: the server's asynchronous calls. An instance of DFSCallData is a tag;
  \<open>cd\_status\<close> maps the live ones to their state. A tag waits in queued\_tags until the queue thread
  passes it to RequestCallbackList, and from then on for a client (\<open>cd\_requested\<close>).
\<close>

section \<open>The operations\<close>

datatype call_status = CS_CREATE | CS_PROCESS | CS_FINISH

record call_pool =
  cd_status :: "nat \<Rightarrow> call_status option"
  cd_next :: nat
  queued_tags :: "(nat \<times> bool) list"
  cd_requested :: "nat list"
  cd_replies :: "(nat \<times> status_crc list) list"
  cd_starting :: nat
  cd_dropped :: "nat list"

definition RequestCallback :: "nat \<Rightarrow> call_pool \<Rightarrow> call_pool" where
  "RequestCallback tag s = s\<lparr>queued_tags := queued_tags s @ [(tag, False)]\<rparr>"

text \<open>Proceed in the state CREATE, which is how the constructor ends.\<close>

definition Proceed_create :: "nat \<Rightarrow> call_pool \<Rightarrow> call_pool" where
  "Proceed_create tag s = RequestCallback tag (s\<lparr>cd_status := (cd_status s)(tag \<mapsto> CS_PROCESS)\<rparr>)"

definition new_DFSCallData :: "call_pool \<Rightarrow> call_pool" where
  "new_DFSCallData s =
     Proceed_create (cd_next s)
       (s\<lparr>cd_status := (cd_status s)(cd_next s \<mapsto> CS_CREATE), cd_next := Suc (cd_next s)\<rparr>)"

text \<open>Proceed for an event of the completion queue; a tag that is not live is a dangling pointer.\<close>

definition Proceed :: "status_crc list outcome \<Rightarrow> nat \<Rightarrow> call_pool \<Rightarrow> call_pool outcome" where
  "Proceed reply tag s =
     (case cd_status s tag of
        None \<Rightarrow> Undef
      | Some CS_CREATE \<Rightarrow> Ret (Proceed_create tag s)
      | Some CS_PROCESS \<Rightarrow>
          (let s1 = new_DFSCallData s in
           bind_outcome reply (\<lambda>r.
             Ret (s1\<lparr>cd_status := (cd_status s1)(tag \<mapsto> CS_FINISH),
                     cd_replies := cd_replies s1 @ [(tag, r)]\<rparr>)))
      | Some CS_FINISH \<Rightarrow> Ret (s\<lparr>cd_status := (cd_status s)(tag := None)\<rparr>))"

text \<open>One pass of the queue thread: request every queued call, mark it, erase what is marked.\<close>

definition ProcessQueuedRequests :: "call_pool \<Rightarrow> call_pool" where
  "ProcessQueuedRequests s =
     (let marked = map (\<lambda>(t, fin). (t, True)) (queued_tags s)
      in s\<lparr>cd_requested := cd_requested s @ map fst (queued_tags s),
           queued_tags := filter (\<lambda>(t, fin). \<not> fin) marked\<rparr>)"

text \<open>Run starts num\_async\_threads threads; none when the number is not positive.\<close>

definition runner_start :: "int \<Rightarrow> call_pool" where
  "runner_start n = \<lparr>cd_status = (\<lambda>t. None), cd_next = 0, queued_tags = [], cd_requested = [],
     cd_replies = [], cd_starting = nat n, cd_dropped = []\<rparr>"

text \<open>
  The threads. HandleAsyncRPC first creates an instance, then handles events: a client has called
  a requested tag, or the answer of a finished one has been sent. An event that is not ok is
  dropped without Proceed; its instance stays in memory.
\<close>

inductive call_step :: "(status_crc list outcome) \<Rightarrow> call_pool \<Rightarrow> call_pool \<Rightarrow> bool" for reply where
  thread_start: "0 < cd_starting s \<Longrightarrow>
    call_step reply s (new_DFSCallData (s\<lparr>cd_starting := cd_starting s - 1\<rparr>))"
| queue_pass: "call_step reply s (ProcessQueuedRequests s)"
| client_calls: "t \<in> set (cd_requested s) \<Longrightarrow>
    Proceed reply t (s\<lparr>cd_requested := remove1 t (cd_requested s)\<rparr>) = Ret s' \<Longrightarrow>
    call_step reply s s'"
| event_not_ok: "t \<in> set (cd_requested s) \<Longrightarrow>
    call_step reply s (s\<lparr>cd_requested := remove1 t (cd_requested s),
      cd_dropped := t # cd_dropped s\<rparr>)"
| answer_sent: "cd_status s t = Some CS_FINISH \<Longrightarrow> Proceed reply t s = Ret s' \<Longrightarrow> call_step reply s s'"

inductive call_reachable :: "int \<Rightarrow> call_pool \<Rightarrow> bool" for n where
  init: "call_reachable n (runner_start n)"
| step: "call_reachable n s \<Longrightarrow> call_step reply s s' \<Longrightarrow> call_reachable n s'"

inductive_cases call_stepE: "call_step reply s s'"

section \<open>The invariant\<close>

text \<open>
  The instances in the state PROCESS are those that wait in one of the two places, or were
  dropped, each once; an instance that has answered is never asked again.
\<close>

definition call_waiting :: "call_pool \<Rightarrow> nat list" where
  "call_waiting s = map fst (queued_tags s) @ cd_requested s"

definition call_wf :: "call_pool \<Rightarrow> bool" where
  "call_wf s \<longleftrightarrow>
     distinct (call_waiting s @ cd_dropped s) \<and>
     (\<forall>t. cd_status s t = Some CS_PROCESS \<longleftrightarrow> t \<in> set (call_waiting s @ cd_dropped s)) \<and>
     (\<forall>t. cd_status s t \<noteq> Some CS_CREATE) \<and>
     (\<forall>t. cd_status s t = Some CS_FINISH \<longrightarrow> t \<in> fst ` set (cd_replies s)) \<and>
     (\<forall>t. cd_status s t \<noteq> None \<or> t \<in> fst ` set (cd_replies s) \<longrightarrow> t < cd_next s) \<and>
     (\<forall>t\<in>fst ` set (cd_replies s). cd_status s t \<noteq> Some CS_PROCESS) \<and>
     distinct (map fst (cd_replies s))"

definition call_count :: "call_pool \<Rightarrow> nat" where
  "call_count s = length (call_waiting s) + cd_starting s + length (cd_dropped s)"

lemma new_waiting:
  "call_waiting (new_DFSCallData s) = map fst (queued_tags s) @ cd_next s # cd_requested s"
  by (simp add: call_waiting_def new_DFSCallData_def Proceed_create_def RequestCallback_def)

lemma new_fields:
  "cd_status (new_DFSCallData s) = (cd_status s)(cd_next s \<mapsto> CS_PROCESS)"
  "cd_next (new_DFSCallData s) = Suc (cd_next s)" "cd_replies (new_DFSCallData s) = cd_replies s"
  "cd_starting (new_DFSCallData s) = cd_starting s" "cd_dropped (new_DFSCallData s) = cd_dropped s"
  by (simp_all add: new_DFSCallData_def Proceed_create_def RequestCallback_def)

lemma new_wf:
  assumes "call_wf s"
  shows "call_wf (new_DFSCallData s)"
proof -
  have fresh: "cd_next s \<notin> set (call_waiting s @ cd_dropped s)" "cd_next s \<notin> fst ` set (cd_replies s)"
    "cd_status s (cd_next s) = None"
    using assms unfolding call_wf_def by (metis less_irrefl option.distinct(1))+
  then show ?thesis
    using assms unfolding call_wf_def new_waiting new_fields
    by (auto simp: call_waiting_def less_Suc_eq)
qed

lemma queue_pass_wf:
  "call_waiting (ProcessQueuedRequests s) = cd_requested s @ map fst (queued_tags s)"
  "cd_status (ProcessQueuedRequests s) = cd_status s" "cd_next (ProcessQueuedRequests s) = cd_next s"
  "cd_replies (ProcessQueuedRequests s) = cd_replies s" "cd_starting (ProcessQueuedRequests s) = cd_starting s"
  "cd_dropped (ProcessQueuedRequests s) = cd_dropped s"
  by (auto simp: call_waiting_def ProcessQueuedRequests_def filter_empty_conv)

text \<open>A client's call: a new instance takes the place of the one that answers.\<close>

lemma client_calls_wf:
  assumes wf: "call_wf s" and t: "t \<in> set (cd_requested s)"
    and p: "Proceed reply t (s\<lparr>cd_requested := remove1 t (cd_requested s)\<rparr>) = Ret s'"
  shows "call_wf s' \<and> call_count s' = call_count s"
proof -
  let ?u = "s\<lparr>cd_requested := remove1 t (cd_requested s)\<rparr>"
  have st: "cd_status s t = Some CS_PROCESS" using wf t by (simp add: call_wf_def call_waiting_def)
  then obtain r where s': "s' = (new_DFSCallData ?u)
      \<lparr>cd_status := (cd_status (new_DFSCallData ?u))(t \<mapsto> CS_FINISH), cd_replies := cd_replies s @ [(t, r)]\<rparr>"
    using p by (auto simp: Proceed_def Let_def new_fields)
  have fresh: "cd_next s \<notin> set (call_waiting s @ cd_dropped s)" "cd_next s \<notin> fst ` set (cd_replies s)"
    "cd_status s (cd_next s) = None" "t \<noteq> cd_next s" "t \<notin> fst ` set (cd_replies s)"
    using wf st unfolding call_wf_def by (metis less_irrefl option.distinct(1))+
  have w: "call_waiting s' = map fst (queued_tags s) @ cd_next s # remove1 t (cd_requested s)"
    using new_waiting [of ?u] by (simp add: s' call_waiting_def)
  have d: "distinct (cd_requested s)" "t \<notin> set (map fst (queued_tags s))" "t \<notin> set (cd_dropped s)"
    using wf t by (auto simp: call_wf_def call_waiting_def)
  have "call_wf s'"
    unfolding call_wf_def w
    using wf fresh d t st unfolding call_wf_def
    by (auto simp: s' new_fields call_waiting_def less_Suc_eq set_remove1_eq)
  moreover have "Suc (length (remove1 t (cd_requested s))) = length (cd_requested s)"
    using t length_pos_if_in_set [OF t] by (simp add: length_remove1)
  then have "call_count s' = call_count s"
    by (simp add: call_count_def w) (simp add: call_waiting_def s' new_fields)
  ultimately show ?thesis by simp
qed

lemma starting_wf: "call_wf (s\<lparr>cd_starting := k\<rparr>) = call_wf s"
  by (simp add: call_wf_def call_waiting_def)

lemma call_step_inv:
  assumes "call_step reply s s'" "call_wf s"
  shows "call_wf s' \<and> call_count s' = call_count s"
  using assms(1)
proof cases
  case thread_start
  have "call_wf (s\<lparr>cd_starting := cd_starting s - 1\<rparr>)"
    using assms(2) by (simp only: starting_wf)
  from new_wf [OF this] thread_start show ?thesis
    by (simp add: call_count_def new_waiting new_fields) (simp add: call_waiting_def)
next
  case queue_pass
  let ?W = "(cd_requested s @ map fst (queued_tags s)) @ cd_dropped s"
  have W: "set ?W = set (call_waiting s @ cd_dropped s)"
    "distinct ?W = distinct (call_waiting s @ cd_dropped s)" by (auto simp: call_waiting_def)
  have "call_wf s'"
    using assms(2) unfolding queue_pass call_wf_def queue_pass_wf W .
  then show ?thesis by (simp add: queue_pass call_count_def queue_pass_wf) (simp add: call_waiting_def)
next
  case (client_calls t)
  with client_calls_wf [OF assms(2)] show ?thesis by simp
next
  case (event_not_ok t)
  have "Suc (length (remove1 t (cd_requested s))) = length (cd_requested s)"
    using event_not_ok(2) length_pos_if_in_set [OF event_not_ok(2)] by (simp add: length_remove1)
  with event_not_ok assms(2) show ?thesis
    by (auto simp: call_wf_def call_count_def call_waiting_def set_remove1_eq)
next
  case (answer_sent t)
  then have "s' = s\<lparr>cd_status := (cd_status s)(t := None)\<rparr>" by (simp add: Proceed_def)
  moreover have "t \<notin> set (call_waiting s @ cd_dropped s)"
    using answer_sent(1) assms(2) unfolding call_wf_def by (metis call_status.distinct(5) option.inject)
  ultimately show ?thesis
    using answer_sent(1) assms(2) by (auto simp: call_wf_def call_count_def call_waiting_def)
qed

lemma call_reachable_inv: "call_reachable n s \<Longrightarrow> call_wf s \<and> call_count s = nat n"
proof (induction rule: call_reachable.induct)
  case init
  show ?case by (simp add: runner_start_def call_wf_def call_count_def call_waiting_def)
next
  case (step s reply s')
  then show ?case using call_step_inv by metis
qed

text \<open>
  C25. The asynchronous server keeps as many instances waiting for clients as it has threads, less
  those that it dropped for an event that was not ok: each call is answered once and its instance
  replaced at once. No event finds a deleted instance, whatever the order of the threads.
\<close>

theorem callback_pool:
  assumes "call_reachable n s"
  shows "length (call_waiting s) + cd_starting s + length (cd_dropped s) = nat n \<and>
    distinct (call_waiting s) \<and> distinct (map fst (cd_replies s)) \<and>
    (\<forall>t. t \<in> set (cd_requested s) \<or> cd_status s t = Some CS_FINISH \<longrightarrow> Proceed (Ret r) t s \<noteq> Undef)"
proof -
  have i: "call_wf s" "call_count s = nat n" using call_reachable_inv [OF assms] by auto
  have "Proceed (Ret r) t s \<noteq> Undef" if "t \<in> set (cd_requested s) \<or> cd_status s t = Some CS_FINISH" for t
  proof -
    have "cd_status s t = Some CS_PROCESS \<or> cd_status s t = Some CS_FINISH"
      using i(1) that by (auto simp: call_wf_def call_waiting_def)
    then show ?thesis by (auto simp: Proceed_def Let_def)
  qed
  with i show ?thesis by (simp add: call_wf_def call_count_def)
qed

theorem callback_pool_witness:
  "length (call_waiting (ProcessQueuedRequests (new_DFSCallData (runner_start 1 \<lparr>cd_starting := 0\<rparr>)))) = 1"
proof -
  have "call_reachable 1 (new_DFSCallData (runner_start 1 \<lparr>cd_starting := 0\<rparr>))"
    using call_reachable.step [OF call_reachable.init [of 1], of "Ret []"] thread_start [of "runner_start 1" "Ret []"]
    by (simp add: runner_start_def)
  then have "call_reachable 1 (ProcessQueuedRequests (new_DFSCallData (runner_start 1 \<lparr>cd_starting := 0\<rparr>)))"
    by (rule call_reachable.step [OF _ queue_pass])
  from callback_pool [OF this, of "[]"] show ?thesis
    by (simp add: queue_pass_wf new_fields runner_start_def)
qed

section \<open>The next client is answered\<close>

lemma client_calls_replies:
  assumes "call_wf s" "t \<in> set (cd_requested s)"
  obtains s' where "call_step (Ret r) s s'" "cd_replies s' = cd_replies s @ [(t, r)]"
proof -
  let ?u = "s\<lparr>cd_requested := remove1 t (cd_requested s)\<rparr>"
  have "cd_status ?u t = Some CS_PROCESS" using assms by (simp add: call_wf_def call_waiting_def)
  then obtain s' where "Proceed (Ret r) t ?u = Ret s'" "cd_replies s' = cd_replies s @ [(t, r)]"
    by (auto simp: Proceed_def Let_def new_fields)
  with that client_calls [OF assms(2)] show thesis by blast
qed

text \<open>An instance that waits for a client is at most two steps away.\<close>

lemma instance_requested:
  assumes "call_wf s" "0 < length (call_waiting s) + cd_starting s"
  obtains s' t where "(call_step reply)\<^sup>*\<^sup>* s s'" "call_wf s'" "t \<in> set (cd_requested s')" "cd_replies s' = cd_replies s"
proof -
  define u where "u = (if call_waiting s = [] then new_DFSCallData (s\<lparr>cd_starting := cd_starting s - 1\<rparr>) else s)"
  have u: "(call_step reply)\<^sup>*\<^sup>* s u" "call_wf u" "call_waiting u \<noteq> []" "cd_replies u = cd_replies s"
  proof -
    show "(call_step reply)\<^sup>*\<^sup>* s u" using assms(2) thread_start [of s reply] by (auto simp: u_def)
    show "call_wf u" using assms(1) new_wf starting_wf by (auto simp: u_def)
    show "call_waiting u \<noteq> []" "cd_replies u = cd_replies s" by (auto simp: u_def new_waiting new_fields)
  qed
  let ?v = "ProcessQueuedRequests u"
  have step: "call_step reply u ?v" by (rule queue_pass)
  have "set (cd_requested ?v) = set (call_waiting u)"
    by (auto simp: ProcessQueuedRequests_def call_waiting_def)
  with u(3) obtain t where t: "t \<in> set (cd_requested ?v)" by (cases "call_waiting u") auto
  have "call_wf ?v" using call_step_inv [OF step u(2)] by simp
  moreover have "(call_step reply)\<^sup>*\<^sup>* s ?v" using u(1) step by (rule rtranclp.rtrancl_into_rtrancl)
  ultimately show thesis using that t u(4) by (simp add: queue_pass_wf)
qed

text \<open>
  C26. As long as not every instance of the pool was dropped, the next client that asks for the list of
  the server's files can be answered: from every reachable state the threads can go on until it is,
  with the list that ProcessCallback makes, and nobody is answered in between.
\<close>

theorem callback_answered:
  assumes "call_reachable n s" "length (cd_dropped s) < nat n"
  shows "\<exists>s' t. (call_step (Ret r))\<^sup>*\<^sup>* s s' \<and> cd_replies s' = cd_replies s @ [(t, r)]"
proof -
  have wf: "call_wf s" and "call_count s = nat n" using call_reachable_inv [OF assms(1)] by auto
  with assms(2) have "0 < length (call_waiting s) + cd_starting s" unfolding call_count_def by linarith
  then obtain u t where u: "(call_step (Ret r))\<^sup>*\<^sup>* s u" "call_wf u" "t \<in> set (cd_requested u)" "cd_replies u = cd_replies s"
    by (rule instance_requested [OF wf])
  obtain s' where "call_step (Ret r) u s'" "cd_replies s' = cd_replies u @ [(t, r)]"
    by (rule client_calls_replies [OF u(2,3)])
  with u show ?thesis by (metis rtranclp.rtrancl_into_rtrancl)
qed

theorem callback_answered_witness:
  "\<exists>s' t. (call_step (Ret []))\<^sup>*\<^sup>* (runner_start 4) s' \<and> cd_replies s' = [(t, [])]"
  using callback_answered [OF call_reachable.init, of 4 "[]"] by (simp add: runner_start_def)

end
