(* ===== verification/DFSNode.thy ===== *)
theory DFSNode
  imports DFSSync DFSCallData
begin

text \<open>
  The objects around the requests of grpc: the client node and its fields, the client that owns it,
  the request for the server's list that is always under way, the start of the server, the bytes
  that the inotify watcher reads, and the lines of the log.
\<close>

section \<open>The client node\<close>

text \<open>
  dfslibx-clientnode. \<open>dn_calls\<close> are the objects AsyncClientData that wait in the completion queue,
  the stub is null or has the address of its channel, and the deadline has no value at first.
\<close>

record dfs_node =
  dn_deadline_timeout :: "int option"
  dn_client_id :: string
  dn_mount_path :: string
  dn_unmounting :: bool
  dn_stub :: "string option"
  dn_calls :: "nat list"
  dn_next_call :: nat

definition new_DFSClientNode :: "string \<Rightarrow> string \<Rightarrow> dfs_node" where
  "new_DFSClientNode host thread_id =
     \<lparr>dn_deadline_timeout = None, dn_client_id = new_client_id host thread_id, dn_mount_path = ''mnt/client/'',
      dn_unmounting = False, dn_stub = None, dn_calls = [], dn_next_call = 0\<rparr>"

definition node_Unmount :: "dfs_node \<Rightarrow> dfs_node" where
  "node_Unmount n = n\<lparr>dn_unmounting := True\<rparr>"

definition Unmounting :: "dfs_node \<Rightarrow> bool" where
  "Unmounting n = dn_unmounting n"

definition ClientId :: "dfs_node \<Rightarrow> string" where
  "ClientId n = dn_client_id n"

definition CreateStub :: "string \<Rightarrow> dfs_node \<Rightarrow> dfs_node" where
  "CreateStub channel n = n\<lparr>dn_stub := Some channel\<rparr>"

definition node_SetMountPath :: "string \<Rightarrow> dfs_node \<Rightarrow> dfs_node" where
  "node_SetMountPath path n = n\<lparr>dn_mount_path := path\<rparr>"

definition node_SetDeadlineTimeout :: "int \<Rightarrow> dfs_node \<Rightarrow> dfs_node" where
  "node_SetDeadlineTimeout deadline n = n\<lparr>dn_deadline_timeout := Some deadline\<rparr>"

definition SetClientId :: "string \<Rightarrow> dfs_node \<Rightarrow> dfs_node" where
  "SetClientId i n = n\<lparr>dn_client_id := i\<rparr>"

definition MountPath :: "dfs_node \<Rightarrow> string" where
  "MountPath n = dn_mount_path n"

definition node_WrapPath :: "dfs_node \<Rightarrow> string \<Rightarrow> string" where
  "node_WrapPath n filepath = dn_mount_path n @ filepath"

text \<open>The owner of the node: it keeps the mount path and the deadline a second time.\<close>

record dfs_client =
  dfc_deadline_timeout :: "int option"
  dfc_mount_path :: string
  dfc_node :: dfs_node

definition new_DFSClient :: "string \<Rightarrow> string \<Rightarrow> dfs_client" where
  "new_DFSClient host thread_id =
     \<lparr>dfc_deadline_timeout = None, dfc_mount_path = [], dfc_node = new_DFSClientNode host thread_id\<rparr>"

definition InitializeClientNode :: "string \<Rightarrow> dfs_client \<Rightarrow> dfs_client" where
  "InitializeClientNode server_address c = c\<lparr>dfc_node := CreateStub server_address (dfc_node c)\<rparr>"

definition SetMountPath :: "string \<Rightarrow> dfs_client \<Rightarrow> dfs_client" where
  "SetMountPath path c =
     c\<lparr>dfc_mount_path := dfs_clean_path path, dfc_node := node_SetMountPath (dfs_clean_path path) (dfc_node c)\<rparr>"

definition SetDeadlineTimeout :: "int \<Rightarrow> dfs_client \<Rightarrow> dfs_client" where
  "SetDeadlineTimeout deadline c =
     c\<lparr>dfc_deadline_timeout := Some deadline, dfc_node := node_SetDeadlineTimeout deadline (dfc_node c)\<rparr>"

text \<open>What main does with its options before it runs the command.\<close>

definition dfs_client_setup :: "string \<Rightarrow> int \<Rightarrow> string \<Rightarrow> dfs_client \<Rightarrow> dfs_client" where
  "dfs_client_setup mount_path deadline server_address c =
     InitializeClientNode server_address (SetDeadlineTimeout deadline (SetMountPath mount_path c))"

text \<open>
  The handler of SIGINT and SIGTERM: Unmount of the client, whose watches are
  \<open>watches\<close>, and exit with 0.
\<close>

definition HandleSignal ::
  "int \<Rightarrow> (int \<times> int) list \<Rightarrow> dfs_client \<Rightarrow> dfs_client \<times> unmount_call list \<times> unit outcome" where
  "HandleSignal signum watches c =
     (c\<lparr>dfc_node := node_Unmount (dfc_node c)\<rparr>, snd (Unmount watches), Exits 0)"

lemma dfs_client_setup_node:
  "dfc_node (dfs_client_setup m d a (new_DFSClient h t)) =
     \<lparr>dn_deadline_timeout = Some d, dn_client_id = new_client_id h t, dn_mount_path = dfs_clean_path m,
      dn_unmounting = False, dn_stub = Some a, dn_calls = [], dn_next_call = 0\<rparr>"
  by (simp add: dfs_client_setup_def InitializeClientNode_def SetDeadlineTimeout_def SetMountPath_def
      new_DFSClient_def new_DFSClientNode_def CreateStub_def node_SetMountPath_def node_SetDeadlineTimeout_def)

text \<open>After the setup the mount path is empty or ends with a slash, as InotifyEventCallback needs.\<close>

lemma dfs_client_setup_mount:
  "MountPath (dfc_node (dfs_client_setup m d a (new_DFSClient h t))) = [] \<or>
     last (MountPath (dfc_node (dfs_client_setup m d a (new_DFSClient h t)))) = CHR ''/''"
  by (simp add: MountPath_def dfs_client_setup_node dfs_clean_path_def)

lemma node_WrapPath_eq: "node_WrapPath n f = WrapPath (MountPath n) f"
  by (simp add: node_WrapPath_def WrapPath_def MountPath_def)

section \<open>The request for the list that is under way\<close>

text \<open>A null stub is dereferenced. The new object is registered with the completion queue.\<close>

definition CallbackList :: "dfs_node \<Rightarrow> dfs_node outcome" where
  "CallbackList n =
     (case dn_stub n of
        None \<Rightarrow> Undef
      | Some _ \<Rightarrow> Ret (n\<lparr>dn_calls := dn_calls n @ [dn_next_call n], dn_next_call := Suc (dn_next_call n)\<rparr>))"

definition InitCallbackList :: "dfs_node \<Rightarrow> dfs_node outcome" where
  "InitCallbackList n = CallbackList n"

text \<open>
  The loop of HandleCallbackList: the tag of a completion is cast to its object, which is deleted
  when the turn is done, and the next request starts.
\<close>

type_synonym completion = "nat \<times> bool \<times> int \<times> status_crc list"

definition callback_turn ::
  "dfs_env \<Rightarrow> (nat \<Rightarrow> int) \<Rightarrow> (nat \<Rightarrow> nat \<Rightarrow> rpc_call) \<Rightarrow> completion \<Rightarrow>
   dfs_node \<times> filesys \<times> dfs_server \<Rightarrow> (dfs_node \<times> filesys \<times> dfs_server) outcome" where
  "callback_turn e mt cs cpl w =
     (case cpl of (tag, answer) \<Rightarrow> case w of (n, files) \<Rightarrow>
        if tag \<notin> set (dn_calls n) then Undef
        else bind_outcome (InitCallbackList (n\<lparr>dn_calls := remove1 tag (dn_calls n)\<rparr>))
               (\<lambda>n'. Ret (n', HandleCallbackList e mt cs answer files)))"

fun callback_loop ::
  "dfs_env \<Rightarrow> (nat \<Rightarrow> int) \<Rightarrow> (nat \<Rightarrow> nat \<Rightarrow> rpc_call) \<Rightarrow> completion list \<Rightarrow>
   dfs_node \<times> filesys \<times> dfs_server \<Rightarrow> (dfs_node \<times> filesys \<times> dfs_server) outcome" where
  "callback_loop e mt cs [] w = Ret w"
| "callback_loop e mt cs (c # cpls) w = bind_outcome (callback_turn e mt cs c w) (callback_loop e mt cs cpls)"

text \<open>Exactly one request is under way, and its object is the newest.\<close>

definition one_call :: "dfs_node \<Rightarrow> bool" where
  "one_call n \<longleftrightarrow> dn_stub n \<noteq> None \<and> dn_calls n \<noteq> [] \<and> dn_calls n = [dn_next_call n - 1] \<and> 0 < dn_next_call n"

lemma InitCallbackList_one_call:
  assumes "dn_stub n \<noteq> None" "dn_calls n = []"
  obtains n' where "InitCallbackList n = Ret n'" "one_call n'" "dn_calls n' = [dn_next_call n]"
    "dn_next_call n' = Suc (dn_next_call n)"
proof -
  obtain a where "dn_stub n = Some a" using assms(1) by auto
  with assms(2) that show thesis by (simp add: InitCallbackList_def CallbackList_def one_call_def)
qed

lemma callback_turn_one_call:
  assumes "one_call n" "dn_calls n = [k]"
  obtains n' where "callback_turn e mt cs (k, answer) (n, files) = Ret (n', HandleCallbackList e mt cs answer files)"
    "one_call n'" "dn_calls n' = [Suc k]"
proof -
  let ?n = "n\<lparr>dn_calls := remove1 k (dn_calls n)\<rparr>"
  have "dn_stub ?n \<noteq> None" "dn_calls ?n = []" "dn_next_call ?n = Suc k"
    using assms by (auto simp: one_call_def)
  with InitCallbackList_one_call [of ?n] obtain n' where "InitCallbackList ?n = Ret n'" "one_call n'" "dn_calls n' = [Suc k]"
    by metis
  with assms(2) that show thesis by (simp add: callback_turn_def)
qed

text \<open>
  The loop of HandleCallbackList, from the request that Mount starts: when the completion queue
  gives each request back, whatever its outcome, no object is used after it was deleted, exactly one
  request is under way after each turn, and the files are those of the turns one after the other.
\<close>

theorem callback_loop_polls:
  assumes "one_call n" "dn_calls n = [k]"
  shows "\<exists>n'. callback_loop e mt cs (zip [k..<k + length answers] answers) (n, files) =
      Ret (n', fold (HandleCallbackList e mt cs) answers files) \<and>
    one_call n' \<and> dn_calls n' = [k + length answers]"
  using assms
proof (induction answers arbitrary: n k files)
  case Nil
  then show ?case by simp
next
  case (Cons a answers)
  obtain n' where n': "callback_turn e mt cs (k, a) (n, files) = Ret (n', HandleCallbackList e mt cs a files)"
    "one_call n'" "dn_calls n' = [Suc k]" by (rule callback_turn_one_call [OF Cons.prems])
  have l: "k + length (a # answers) = Suc k + length answers" by simp
  have "[k..<Suc k + length answers] = k # [Suc k..<Suc k + length answers]"
    by (rule upt_conv_Cons) simp
  then show ?case unfolding l using Cons.IH [OF n'(2,3), of "HandleCallbackList e mt cs a files"] n'(1) by simp
qed


theorem callback_loop_polls_witness:
  "\<exists>n'. callback_loop dfs_A (\<lambda>k. 0) (\<lambda>k j. rpc_ok) [(0, False, 0, []), (1, True, DFS_CANCELLED, [])]
      (\<lparr>dn_deadline_timeout = Some 10, dn_client_id = ''A'', dn_mount_path = ''a/'', dn_unmounting = False,
        dn_stub = Some ''0.0.0.0:42001'', dn_calls = [0], dn_next_call = 1\<rparr>, p1_fs [], dfs_srv []) =
    Ret (n', p1_fs [], dfs_srv []) \<and> dn_calls n' = [2]"
proof -
  let ?n = "\<lparr>dn_deadline_timeout = Some 10, dn_client_id = ''A'', dn_mount_path = ''a/'', dn_unmounting = False,
    dn_stub = Some ''0.0.0.0:42001'', dn_calls = [0], dn_next_call = 1\<rparr>"
  have "one_call ?n" by (simp add: one_call_def)
  from callback_loop_polls [OF this, of 0 dfs_A "\<lambda>k. 0" "\<lambda>k j. rpc_ok" "[(False, 0, []), (True, DFS_CANCELLED, [])]"
      "(p1_fs [], dfs_srv [])"]
  show ?thesis by (auto simp: HandleCallbackList_def dfs_status upt_rec)
qed

section \<open>The start of the server\<close>

text \<open>
  DFSServerNode and DFSServiceImpl pass the address, the mount path and the number of threads on to
  the runner; Run starts the asynchronous threads, the server and the thread of the queue.
\<close>

record dfs_runner =
  rn_server_address :: string
  rn_num_async_threads :: int

definition SetAddress :: "string \<Rightarrow> dfs_runner \<Rightarrow> dfs_runner" where
  "SetAddress a r = r\<lparr>rn_server_address := a\<rparr>"

definition SetNumThreads :: "int \<Rightarrow> dfs_runner \<Rightarrow> dfs_runner" where
  "SetNumThreads n r = r\<lparr>rn_num_async_threads := n\<rparr>"

datatype runner_thread = AsyncThread int | ServerThread | QueueThread

function async_threads :: "int \<Rightarrow> runner_thread list" where
  "async_threads i = (if 0 < i then AsyncThread i # async_threads (i - 1) else [])"
  by pat_completeness auto
termination by (relation "measure nat") auto

declare async_threads.simps [simp del]

definition runner_Run :: "dfs_runner \<Rightarrow> string \<times> runner_thread list" where
  "runner_Run r = (rn_server_address r, async_threads (rn_num_async_threads r) @ [ServerThread, QueueThread])"

record dfs_service =
  sv_mount_path :: string
  sv_runner :: dfs_runner

definition new_DFSServiceImpl :: "dfs_runner \<Rightarrow> string \<Rightarrow> string \<Rightarrow> int \<Rightarrow> dfs_service" where
  "new_DFSServiceImpl r mount_path server_address n =
     \<lparr>sv_mount_path = mount_path, sv_runner = SetNumThreads n (SetAddress server_address r)\<rparr>"

record dfs_server_node =
  sn_server_address :: string
  sn_mount_path :: string
  sn_num_async_threads :: int

definition new_DFSServerNode :: "string \<Rightarrow> string \<Rightarrow> int \<Rightarrow> dfs_server_node" where
  "new_DFSServerNode a m n = \<lparr>sn_server_address = a, sn_mount_path = m, sn_num_async_threads = n\<rparr>"

definition DFSServerNode_Start :: "dfs_runner \<Rightarrow> dfs_server_node \<Rightarrow> string \<times> string \<times> runner_thread list" where
  "DFSServerNode_Start r sn =
     (let service = new_DFSServiceImpl r (sn_mount_path sn) (sn_server_address sn) (sn_num_async_threads sn)
      in (sv_mount_path service, runner_Run (sv_runner service)))"

lemma async_threads_length: "length (async_threads i) = nat i"
proof (induction i rule: async_threads.induct)
  case (1 i)
  have "0 < i \<Longrightarrow> Suc (nat (i - 1)) = nat i" by arith
  with 1 show ?case by (simp add: async_threads.simps [of i])
qed

text \<open>The server listens at the address of its options and has as many asynchronous threads as the
  pool of DFSCallData starts with.\<close>

lemma DFSServerNode_Start_threads:
  "DFSServerNode_Start r (new_DFSServerNode a m n) = (m, a, async_threads n @ [ServerThread, QueueThread]) \<and>
    length (async_threads n) = cd_starting (runner_start n)"
  by (simp add: DFSServerNode_Start_def new_DFSServerNode_def new_DFSServiceImpl_def runner_Run_def
      SetNumThreads_def SetAddress_def runner_start_def async_threads_length Let_def)

section \<open>Part 1\<close>

text \<open>The node of part 1 has no list to wait for; its server has no asynchronous threads.\<close>

record dfs_node_p1 =
  dn1_deadline_timeout :: "int option"
  dn1_client_id :: string
  dn1_mount_path :: string
  dn1_stub :: "string option"

definition new_DFSClientNode_p1 :: "string \<Rightarrow> string \<Rightarrow> dfs_node_p1" where
  "new_DFSClientNode_p1 host thread_id =
     \<lparr>dn1_deadline_timeout = None, dn1_client_id = host @ ''T'' @ thread_id, dn1_mount_path = ''mnt/client/'',
      dn1_stub = None\<rparr>"

definition CreateStub_p1 :: "string \<Rightarrow> dfs_node_p1 \<Rightarrow> dfs_node_p1" where
  "CreateStub_p1 channel n = n\<lparr>dn1_stub := Some channel\<rparr>"

definition node_SetMountPath_p1 :: "string \<Rightarrow> dfs_node_p1 \<Rightarrow> dfs_node_p1" where
  "node_SetMountPath_p1 path n = n\<lparr>dn1_mount_path := path\<rparr>"

definition node_SetDeadlineTimeout_p1 :: "int \<Rightarrow> dfs_node_p1 \<Rightarrow> dfs_node_p1" where
  "node_SetDeadlineTimeout_p1 deadline n = n\<lparr>dn1_deadline_timeout := Some deadline\<rparr>"

definition ClientId_p1 :: "dfs_node_p1 \<Rightarrow> string" where
  "ClientId_p1 n = dn1_client_id n"

definition MountPath_p1 :: "dfs_node_p1 \<Rightarrow> string" where
  "MountPath_p1 n = dn1_mount_path n"

record dfs_client_p1 =
  dfc1_deadline_timeout :: "int option"
  dfc1_mount_path :: string
  dfc1_node :: dfs_node_p1

definition InitializeClientNode_p1 :: "string \<Rightarrow> dfs_client_p1 \<Rightarrow> dfs_client_p1" where
  "InitializeClientNode_p1 server_address c = c\<lparr>dfc1_node := CreateStub_p1 server_address (dfc1_node c)\<rparr>"

definition SetMountPath_p1 :: "string \<Rightarrow> dfs_client_p1 \<Rightarrow> dfs_client_p1" where
  "SetMountPath_p1 path c =
     c\<lparr>dfc1_mount_path := dfs_clean_path path, dfc1_node := node_SetMountPath_p1 (dfs_clean_path path) (dfc1_node c)\<rparr>"

definition SetDeadlineTimeout_p1 :: "int \<Rightarrow> dfs_client_p1 \<Rightarrow> dfs_client_p1" where
  "SetDeadlineTimeout_p1 deadline c =
     c\<lparr>dfc1_deadline_timeout := Some deadline, dfc1_node := node_SetDeadlineTimeout_p1 deadline (dfc1_node c)\<rparr>"

definition DFSServerNode_Start_p1 :: "string \<Rightarrow> string \<Rightarrow> string \<times> string" where
  "DFSServerNode_Start_p1 server_address mount_path = (mount_path, server_address)"

text \<open>The handler of the signals, the same in the client of part 1 and in both servers.\<close>

definition HandleSignal_p1 :: "int \<Rightarrow> unit outcome" where
  "HandleSignal_p1 signum = Exits 0"

text \<open>The setup of both clients agrees: the same identifier, mount path, deadline and channel.\<close>

lemma dfs_client_setup_p1:
  "dfc1_node (InitializeClientNode_p1 a (SetDeadlineTimeout_p1 d (SetMountPath_p1 m
      \<lparr>dfc1_deadline_timeout = None, dfc1_mount_path = [], dfc1_node = new_DFSClientNode_p1 h t\<rparr>))) =
    (let n = dfc_node (dfs_client_setup m d a (new_DFSClient h t)) in
     \<lparr>dn1_deadline_timeout = dn_deadline_timeout n, dn1_client_id = ClientId n, dn1_mount_path = MountPath n,
      dn1_stub = dn_stub n\<rparr>)"
  by (simp add: dfs_client_setup_node InitializeClientNode_p1_def SetDeadlineTimeout_p1_def SetMountPath_p1_def
      new_DFSClientNode_p1_def CreateStub_p1_def node_SetMountPath_p1_def node_SetDeadlineTimeout_p1_def
      ClientId_def MountPath_def new_client_id_def Let_def)

section \<open>The log\<close>

text \<open>
  Levels: LL\_SYSINFO 0, LL\_ERROR 1, then the three of debugging. A line above the level of the
  program is not built.
\<close>

definition DFSLog_prefix :: "bool \<Rightarrow> int \<Rightarrow> string" where
  "DFSLog_prefix grader level =
     (if grader then (if level = 0 then ''-S'' else if level = 1 then ''!E'' else ''>D'')
      else (if level = 0 then ''-- SYSINFO'' else if level = 1 then ''!! ERROR'' else ''>> DEBUG'')) @
     (if 1 < level then show_int (level - 1) else []) @ '': ''"

definition dfs_log :: "bool \<Rightarrow> int \<Rightarrow> int \<Rightarrow> string list \<Rightarrow> string" where
  "dfs_log grader log_level level values =
     (if log_level < level then [] else DFSLog_prefix grader level @ concat values @ [LF])"

end
