(* ===== verification/DFSInotify.thy ===== *)
theory DFSInotify
  imports DFSSync
begin

text \<open>
  InotifyWatcher of grpc/part2/src/dfs-client-p2.cpp on the bytes that read puts into its buffer:
  records of the kernel, each a header of 16 bytes and a name that is filled up with NULs.
\<close>

section \<open>Integers in memory\<close>

text \<open>32 bits at an address, the low byte first.\<close>

definition put32 :: "32 word \<Rightarrow> string" where
  "put32 w = map (\<lambda>k. char_of (unat w div 256 ^ k mod 256)) [0, 1, 2, 3]"

definition get32 :: "string \<Rightarrow> nat \<Rightarrow> 32 word" where
  "get32 b i = of_nat (of_char (b ! i) + 256 * of_char (b ! (i + 1)) + 65536 * of_char (b ! (i + 2)) +
     16777216 * of_char (b ! (i + 3)))"

lemma length_put32 [simp]: "length (put32 w) = 4"
  by (simp add: put32_def)

lemma bytes_of_32:
  fixes n :: nat
  assumes "n < 2 ^ 32"
  shows "n mod 256 + 256 * (n div 256 mod 256) + 65536 * (n div 65536 mod 256) + 16777216 * (n div 16777216 mod 256) = n"
proof -
  have "n div 16777216 mod 256 = n div 16777216" using assms by simp
  moreover have "n div 256 = n div 256 mod 256 + 256 * (n div 65536)"
    using div_mult2_eq [of n 256 256] by simp
  moreover have "n div 65536 = n div 65536 mod 256 + 256 * (n div 16777216)"
    using div_mult2_eq [of n 65536 256] by simp
  moreover have "n = n mod 256 + 256 * (n div 256)" by simp
  ultimately show ?thesis by linarith
qed

lemma unat_less_32: "unat (w :: 32 word) < 4294967296"
  by (rule order_less_le_trans [OF unsigned_less]) simp

lemma get32_put32: "get32 (a @ put32 w @ c) (length a) = w"
proof -
  have "get32 (a @ put32 w @ c) (length a) =
      of_nat (unat w mod 256 + 256 * (unat w div 256 mod 256) + 65536 * (unat w div 65536 mod 256) +
        16777216 * (unat w div 16777216 mod 256))"
    by (simp add: get32_def put32_def nth_append)
  also have "\<dots> = w"
    by (subst bytes_of_32) (use unat_less_32 [of w] in simp_all)
  finally show ?thesis .
qed

section \<open>The records of the kernel\<close>

record inotify_event =
  ie_wd :: "32 word"
  ie_mask :: "32 word"
  ie_cookie :: "32 word"
  ie_len :: "32 word"
  ie_name :: string

definition event_bytes :: "inotify_event \<Rightarrow> string" where
  "event_bytes v = put32 (ie_wd v) @ put32 (ie_mask v) @ put32 (ie_cookie v) @ put32 (ie_len v) @
     ie_name v @ replicate (unat (ie_len v) - length (ie_name v)) NUL"

text \<open>
  What inotify documents: the name has no NUL, it is followed by one at least when the record has
  a name, and a record without a name is none of an object in the directory.
\<close>

definition event_ok :: "32 word \<Rightarrow> inotify_event \<Rightarrow> bool" where
  "event_ok flags v \<longleftrightarrow> NUL \<notin> set (ie_name v) \<and>
     (if flags AND ie_mask v \<noteq> 0 then length (ie_name v) < unat (ie_len v)
      else length (ie_name v) \<le> unat (ie_len v))"

section \<open>The loop of the watcher\<close>

definition DFS_I_EVENT_SIZE :: nat where "DFS_I_EVENT_SIZE = 16"

definition DFS_I_BUFFER_SIZE :: nat where "DFS_I_BUFFER_SIZE = 1024 * (DFS_I_EVENT_SIZE + 16)"

text \<open>
  The loop over the buffer, of which \<open>n\<close> bytes are read: a record or a name that goes beyond the
  buffer is read out of bounds, and so is an index that no longer fits an int. The name is a C
  string. The calls of the \<open>k\<close>-th event are \<open>cs k\<close>.
\<close>

function inotify_loop ::
  "dfs_env \<Rightarrow> (nat \<Rightarrow> nat \<Rightarrow> rpc_call) \<Rightarrow> 32 word \<Rightarrow> string \<Rightarrow> int \<Rightarrow> nat \<Rightarrow> nat \<Rightarrow>
   filesys \<Rightarrow> dfs_server \<Rightarrow> dfs_server outcome" where
  "inotify_loop e cs event_type buf n index k lfs s =
     (if n \<le> int index then Ret s
      else if length buf < index + DFS_I_EVENT_SIZE then Undef
      else (let ev = get32 buf (index + 4);
                used = DFS_I_EVENT_SIZE + unat (get32 buf (index + 12));
                rest = drop (index + DFS_I_EVENT_SIZE) buf;
                name = takeWhile (\<lambda>c. c \<noteq> NUL) rest
            in if event_type AND ev \<noteq> 0 \<and> length name = length rest then Undef
               else if INT_MAX < int (index + used) then Undef
               else inotify_loop e cs event_type buf n (index + used) (Suc k) lfs
                      (if event_type AND ev \<noteq> 0 \<and> (name = [] \<or> hd name \<noteq> CHR ''.'')
                       then InotifyEventCallback e (cs k) ev (de_mount e @ name) lfs s else s)))"
  by pat_completeness auto
termination
  by (relation "measure (\<lambda>(e, cs, et, buf, n, index, k, lfs, s). nat (n - int index))")
    (auto simp: DFS_I_EVENT_SIZE_def Let_def intro: less_le_trans [OF _ uint_nonnegative])

declare inotify_loop.simps [simp del]

text \<open>One turn of the watcher: what read returned, and what it left in the buffer.\<close>

definition InotifyWatcher_turn ::
  "dfs_env \<Rightarrow> (nat \<Rightarrow> nat \<Rightarrow> rpc_call) \<Rightarrow> 32 word \<Rightarrow> int \<Rightarrow> string \<Rightarrow> filesys \<Rightarrow> dfs_server \<Rightarrow> dfs_server outcome" where
  "InotifyWatcher_turn e cs event_type len buf lfs s = inotify_loop e cs event_type buf (c_int len) 0 0 lfs s"

lemma event_bytes_length:
  assumes "event_ok flags v"
  shows "length (event_bytes v) = DFS_I_EVENT_SIZE + unat (ie_len v)"
  using assms by (auto simp: event_bytes_def event_ok_def DFS_I_EVENT_SIZE_def split: if_splits)

text \<open>One record in the buffer.\<close>

lemma inotify_loop_event:
  assumes buf: "buf = pre @ event_bytes v @ post" and ok: "event_ok et v"
    and n: "int (length pre) < n" and max: "int (length pre + length (event_bytes v)) \<le> INT_MAX"
  shows "inotify_loop e cs et buf n (length pre) k lfs s =
    inotify_loop e cs et buf n (length pre + length (event_bytes v)) (Suc k) lfs
      (if et AND ie_mask v \<noteq> 0 \<and> (ie_name v = [] \<or> hd (ie_name v) \<noteq> CHR ''.'')
       then InotifyEventCallback e (cs k) (ie_mask v) (de_mount e @ ie_name v) lfs s else s)"
proof -
  let ?rest = "ie_name v @ replicate (unat (ie_len v) - length (ie_name v)) NUL @ post"
  let ?h = "put32 (ie_wd v) @ put32 (ie_mask v) @ put32 (ie_cookie v) @ put32 (ie_len v)"
  have m: "get32 buf (length pre + 4) = ie_mask v"
    using get32_put32 [of "pre @ put32 (ie_wd v)" "ie_mask v"
        "put32 (ie_cookie v) @ put32 (ie_len v) @ ?rest"] by (simp add: buf event_bytes_def)
  have l: "get32 buf (length pre + 12) = ie_len v"
    using get32_put32 [of "pre @ put32 (ie_wd v) @ put32 (ie_mask v) @ put32 (ie_cookie v)" "ie_len v" ?rest]
    by (simp add: buf event_bytes_def)
  have r: "drop (length pre + DFS_I_EVENT_SIZE) buf = ?rest"
    by (simp add: buf event_bytes_def DFS_I_EVENT_SIZE_def)
  have len: "\<not> length buf < length pre + DFS_I_EVENT_SIZE"
    using event_bytes_length [OF ok] by (simp add: buf)
  have nul: "\<forall>x\<in>set (ie_name v). x \<noteq> NUL" using ok by (auto simp: event_ok_def)
  have name: "takeWhile (\<lambda>c. c \<noteq> NUL) ?rest = ie_name v" "length (ie_name v) < unat (ie_len v)" if "et AND ie_mask v \<noteq> 0"
  proof -
    show l: "length (ie_name v) < unat (ie_len v)" using ok that by (simp add: event_ok_def)
    then obtain j where "unat (ie_len v) - length (ie_name v) = Suc j"
      using not0_implies_Suc [of "unat (ie_len v) - length (ie_name v)"] by auto
    with takeWhile_append_stop [OF nul, of NUL] show "takeWhile (\<lambda>c. c \<noteq> NUL) ?rest = ie_name v" by simp
  qed
  have used: "length pre + (DFS_I_EVENT_SIZE + unat (ie_len v)) = length pre + length (event_bytes v)"
    using event_bytes_length [OF ok] by simp
  show ?thesis
  proof (cases "et AND ie_mask v = 0")
    case True
    with m l r len n max show ?thesis
      unfolding inotify_loop.simps [of e cs et buf n "length pre"] by (simp add: Let_def used [symmetric])
  next
    case False
    with m l r len n max name show ?thesis
      unfolding inotify_loop.simps [of e cs et buf n "length pre"] by (simp add: Let_def used [symmetric])
  qed
qed


lemma inotify_loop_events:
  assumes "\<forall>v\<in>set evs. event_ok et v" "int (length (pre @ concat (map event_bytes evs))) \<le> INT_MAX"
  shows "inotify_loop e cs et (pre @ concat (map event_bytes evs) @ post)
      (int (length (pre @ concat (map event_bytes evs)))) (length pre) k lfs s =
    Ret (InotifyWatcher e cs et k (map (\<lambda>v. (ie_mask v, ie_name v)) evs) lfs s)"
  using assms
proof (induction evs arbitrary: pre k s)
  case Nil
  show ?case by (simp add: inotify_loop.simps [of e cs et "pre @ post"])
next
  case (Cons v evs)
  let ?buf = "(pre @ event_bytes v) @ concat (map event_bytes evs) @ post"
  let ?n = "int (length ((pre @ event_bytes v) @ concat (map event_bytes evs)))"
  let ?s = "if et AND ie_mask v \<noteq> 0 \<and> (ie_name v = [] \<or> hd (ie_name v) \<noteq> CHR ''.'')
    then InotifyEventCallback e (cs k) (ie_mask v) (de_mount e @ ie_name v) lfs s else s"
  have ok: "event_ok et v" using Cons.prems(1) by simp
  have pos: "0 < length (event_bytes v)" using event_bytes_length [OF ok] by (simp add: DFS_I_EVENT_SIZE_def)
  have n: "int (length pre) < ?n" using pos unfolding length_append by linarith
  have "inotify_loop e cs et ?buf ?n (length pre) k lfs s =
      inotify_loop e cs et ?buf ?n (length pre + length (event_bytes v)) (Suc k) lfs ?s"
    by (rule inotify_loop_event [OF _ ok n]) (use Cons.prems(2) in auto)
  also have "\<dots> = Ret (InotifyWatcher e cs et (Suc k) (map (\<lambda>v. (ie_mask v, ie_name v)) evs) lfs ?s)"
    using Cons.IH [of "pre @ event_bytes v" "Suc k" ?s] Cons.prems by simp
  finally show ?case by simp
qed

text \<open>
  C27. InotifyWatcher reads back the records of the kernel: when read fills the buffer with the bytes
  of events as inotify documents them, the loop handles exactly these events in their order, with
  their masks and names, and nothing of what was in the buffer before. When read fails no event is
  handled.
\<close>

theorem inotify_roundtrip:
  assumes "\<forall>v\<in>set evs. event_ok et v" "length (concat (map event_bytes evs)) \<le> DFS_I_BUFFER_SIZE"
  shows "InotifyWatcher_turn e cs et (int (length (concat (map event_bytes evs)))) (concat (map event_bytes evs) @ stale) lfs s =
      Ret (InotifyWatcher e cs et 0 (map (\<lambda>v. (ie_mask v, ie_name v)) evs) lfs s) \<and>
    InotifyWatcher_turn e cs et (- 1) stale lfs s = Ret s"
proof -
  have m: "int (length (concat (map event_bytes evs))) \<le> INT_MAX"
    using assms(2) by (simp add: DFS_I_BUFFER_SIZE_def DFS_I_EVENT_SIZE_def INT_MAX_def)
  have c: "c_int (int (length (concat (map event_bytes evs)))) = int (length (concat (map event_bytes evs)))"
    by (rule c_int_nonneg) (use m in simp_all)
  have "c_int (- 1) = - 1" by (simp add: c_int_def)
  with inotify_loop_events [of evs et "[]" e cs stale 0 lfs s] assms(1) m show ?thesis
    unfolding InotifyWatcher_turn_def c by (simp add: inotify_loop.simps [of e cs et stale])
qed

text \<open>The event of a file f.md, and an event of the directory itself that is not asked for.\<close>

definition demo_events :: "inotify_event list" where
  "demo_events =
     [\<lparr>ie_wd = 1, ie_mask = IN_CREATE, ie_cookie = 0, ie_len = 16, ie_name = ''f.md''\<rparr>,
      \<lparr>ie_wd = 1, ie_mask = 0x8000, ie_cookie = 0, ie_len = 0, ie_name = []\<rparr>]"

theorem inotify_roundtrip_witness:
  "InotifyWatcher_turn dfs_A (\<lambda>k j. rpc_ok) event_flags 48 (concat (map event_bytes demo_events) @ ''x'') (p1_fs []) (dfs_srv []) =
    Ret (InotifyWatcher dfs_A (\<lambda>k j. rpc_ok) event_flags 0 [(IN_CREATE, ''f.md''), (0x8000, [])] (p1_fs []) (dfs_srv []))"
proof -
  have ok: "\<forall>v\<in>set demo_events. event_ok event_flags v"
    by (simp add: demo_events_def event_ok_def event_flags_def IN_CREATE_def IN_MODIFY_def IN_DELETE_def)
  have l: "length (concat (map event_bytes demo_events)) = 48"
    by (simp add: demo_events_def event_bytes_def)
  have m: "map (\<lambda>v. (ie_mask v, ie_name v)) demo_events = [(IN_CREATE, ''f.md''), (0x8000, [])]"
    by (simp add: demo_events_def)
  have "length (concat (map event_bytes demo_events)) \<le> DFS_I_BUFFER_SIZE"
    unfolding l by (simp add: DFS_I_BUFFER_SIZE_def DFS_I_EVENT_SIZE_def)
  from conjunct1 [OF inotify_roundtrip [OF ok this, of dfs_A "\<lambda>k j. rpc_ok" "''x''" "p1_fs []" "dfs_srv []"]]
  show ?thesis unfolding l m of_nat_numeral .
qed

end
