(* ===== verification/CRCDetect.thy ===== *)
theory CRCDetect
  imports CRCParams
begin

text \<open>
  What a CRC of grpc/part2/src/CRC.h can tell apart: with reflected input and an odd polynomial it
  changes whenever a run of bytes that fits its width is replaced by another. Its values fit their
  width, and the variants without branches compute the same.
\<close>

section \<open>The turns to the right are one to one\<close>

lemma crc_right_zero:
  assumes q: "\<And>i. w \<le> i \<Longrightarrow> \<not> bit q i" "bit q (w - 1)" "1 \<le> w"
    and r: "\<And>i. w \<le> i \<Longrightarrow> \<not> bit r i" "crc_bit_right q r = 0"
  shows "r = (0 :: ('a::len) word)"
proof (rule bit_eqI)
  fix i
  have "bit (crc_bit_right q r) (w - 1) \<longleftrightarrow> bit r (Suc (w - 1)) \<noteq> (bit r 0 \<and> bit q (w - 1))"
    by (auto simp: crc_bit_right_alt bit_xor_iff bit_drop_bit_eq)
  then have r0: "\<not> bit r 0" using q(2,3) r by simp
  then have "drop_bit 1 r = 0" using r(2) by (simp add: crc_bit_right_alt)
  then have "\<not> bit (drop_bit 1 r) j" for j by simp
  then have s: "\<not> bit r (Suc j)" for j by (simp add: bit_drop_bit_eq)
  show "bit r i = bit (0 :: 'a word) i" using r0 s by (cases i) simp_all
qed

lemma crc_right_pow_zero:
  assumes q: "\<And>i. w \<le> i \<Longrightarrow> \<not> bit q i" "bit q (w - 1)" "1 \<le> w"
    and r: "\<And>i. w \<le> i \<Longrightarrow> \<not> bit r i" "(crc_bit_right q ^^ n) r = 0"
  shows "r = (0 :: ('a::len) word)"
  using r
proof (induction n)
  case (Suc n)
  have small: "\<not> bit ((crc_bit_right q ^^ n) r) i" if "w \<le> i" for i
    using crc_right_high_bits [OF q(1) that] Suc.prems(1) that by simp
  have "(crc_bit_right q ^^ n) r = 0"
    by (rule crc_right_zero [OF q small]) (use Suc.prems(2) in simp_all)
  with Suc show ?case by simp
qed simp

text \<open>Two runs over the same bytes differ by the turns of their difference.\<close>

lemma crc_bytes_right_xor:
  "crc_bytes_right q d r XOR crc_bytes_right q d s = (crc_bit_right q ^^ (8 * length d)) (r XOR s)"
proof (induction d arbitrary: r s)
  case (Cons b d)
  let ?M = "crc_bit_right q"
  have x: "(r XOR ucast b) XOR (s XOR ucast b) = r XOR s" by (simp add: ac_simps flip: xor.assoc)
  have "crc_bytes_right q (b # d) r XOR crc_bytes_right q (b # d) s =
      (?M ^^ (8 * length d)) ((?M ^^ 8) (r XOR ucast b) XOR (?M ^^ 8) (s XOR ucast b))"
    using Cons.IH by (simp add: CHAR_BIT_def)
  also have "\<dots> = (?M ^^ (8 * length d)) ((?M ^^ 8) (r XOR s))"
    unfolding funpow_xor [OF crc_right_xor, symmetric] x ..
  also have "\<dots> = (?M ^^ (8 * length (b # d))) (r XOR s)"
    by (simp add: funpow_add [symmetric, THEN fun_cong, unfolded o_apply] add.commute)
  finally show ?case .
qed simp

section \<open>A run of bytes\<close>

text \<open>Bytes as one word, the first one lowest.\<close>

fun le_word :: "8 word list \<Rightarrow> ('a::len) word" where
  "le_word [] = 0"
| "le_word (b # bs) = ucast b XOR push_bit 8 (le_word bs)"

lemma bit_le_word:
  assumes "8 * length e \<le> LENGTH('a)"
  shows "bit (le_word e :: ('a::len) word) i \<longleftrightarrow> i < 8 * length e \<and> bit (e ! (i div 8)) (i mod 8)"
  using assms
proof (induction e arbitrary: i)
  case (Cons b e)
  have l: "8 \<le> LENGTH('a)" using Cons.prems by simp
  have p: "bit (push_bit 8 (le_word e) :: 'a word) i \<longleftrightarrow>
      8 \<le> i \<and> i < LENGTH('a) \<and> bit (le_word e :: 'a word) (i - 8)"
    by (auto simp: bit_push_bit_iff)
  have u: "bit (ucast b :: 'a word) i \<longleftrightarrow> i < 8 \<and> bit b i" by (rule bit_ucast_byte [OF l])
  show ?case
  proof (cases "i < 8")
    case True
    then show ?thesis by (simp add: bit_xor_iff p u)
  next
    case False
    then have i: "i div 8 = Suc ((i - 8) div 8)" "i mod 8 = (i - 8) mod 8"
      by (simp_all add: le_div_geq le_mod_geq)
    have "bit (le_word e :: 'a word) (i - 8) \<longleftrightarrow> i - 8 < 8 * length e \<and> bit (e ! ((i - 8) div 8)) ((i - 8) mod 8)"
      by (rule Cons.IH) (use Cons.prems in simp)
    with False Cons.prems show ?thesis by (auto simp: bit_xor_iff p u i)
  qed
qed simp

lemma le_word_inject:
  assumes "8 * length e \<le> LENGTH('a)" "length e' = length e" "(le_word e :: ('a::len) word) = le_word e'"
  shows "e = e'"
proof (rule nth_equalityI)
  fix k
  assume k: "k < length e"
  show "e ! k = e' ! k"
  proof (rule bit_eqI)
    fix j
    assume "possible_bit TYPE(8 word) j"
    then have j: "j < 8" by (simp add: possible_bit_def)
    have "(8 * k + j) div 8 = k" "(8 * k + j) mod 8 = j" "8 * k + j < 8 * length e" using j k by simp_all
    with bit_le_word [OF assms(1), of "8 * k + j"] bit_le_word [of e' "8 * k + j", where 'a = 'a] assms
    show "bit (e ! k) j = bit (e' ! k) j" by simp
  qed
qed (simp add: assms(2))

text \<open>Bytes that fit the word can be put into the remainder all at once.\<close>

lemma crc_bytes_right_block:
  assumes "8 * length e \<le> LENGTH('a)"
  shows "crc_bytes_right q e r = (crc_bit_right q ^^ (8 * length e)) (r XOR le_word e :: ('a::len) word)"
  using assms
proof (induction e arbitrary: r)
  case (Cons b e)
  let ?M = "crc_bit_right q"
  have l: "8 * length e \<le> LENGTH('a)" using Cons.prems by simp
  have "drop_bit 8 (push_bit 8 (le_word e)) = (le_word e :: 'a word)"
    by (rule bit_eqI) (use Cons.prems in \<open>auto simp: bit_drop_bit_eq bit_push_bit_iff bit_le_word [OF l]\<close>)
  moreover have "(?M ^^ 8) (push_bit 8 (le_word e)) = drop_bit 8 (push_bit 8 (le_word e))"
    by (rule crc_right_zero_bits) (simp add: bit_push_bit_iff)
  ultimately have p: "(?M ^^ 8) (push_bit 8 (le_word e)) = (le_word e :: 'a word)" by simp
  have "(?M ^^ (8 * length (b # e))) (r XOR le_word (b # e)) =
      (?M ^^ (8 * length e)) ((?M ^^ 8) ((r XOR ucast b) XOR push_bit 8 (le_word e)))"
    by (simp add: funpow_add xor.assoc add.commute [of 8])
  also have "\<dots> = (?M ^^ (8 * length e)) ((?M ^^ 8) (r XOR ucast b) XOR le_word e)"
    unfolding funpow_xor [OF crc_right_xor] p ..
  also have "\<dots> = crc_bytes_right q (b # e) r" using Cons.IH [OF l] by (simp add: CHAR_BIT_def)
  finally show ?case by simp
qed simp


section \<open>Bursts\<close>

lemma crc_bytes_right_differ:
  assumes q: "\<And>i. w \<le> i \<Longrightarrow> \<not> bit q i" "bit q (w - 1)" "1 \<le> w"
    and e: "8 * length e \<le> w" "length e' = length e" "e \<noteq> e'" and w: "w \<le> LENGTH('a)"
  shows "crc_bytes_right q (a @ e @ b) r \<noteq> (crc_bytes_right q (a @ e' @ b) r :: ('a::len) word)"
proof
  let ?M = "crc_bit_right q"
  let ?r = "crc_bytes_right q a r" and ?d = "le_word e XOR le_word e' :: 'a word"
  let ?x = "crc_bytes_right q e (crc_bytes_right q a r)" and ?x' = "crc_bytes_right q e' (crc_bytes_right q a r)"
  have l: "8 * length e \<le> LENGTH('a)" "8 * length e' \<le> LENGTH('a)" using e w by simp_all
  assume "crc_bytes_right q (a @ e @ b) r = crc_bytes_right q (a @ e' @ b) r"
  then have "crc_bytes_right q b ?x XOR crc_bytes_right q b ?x' = 0"
    by (simp add: crc_bytes_right_append)
  then have z: "(?M ^^ (8 * length b)) (?x XOR ?x') = 0" by (simp only: crc_bytes_right_xor)
  have d: "?x XOR ?x' = (?M ^^ (8 * length e)) ((?r XOR le_word e) XOR (?r XOR le_word e'))"
    unfolding crc_bytes_right_block [OF l(1)] crc_bytes_right_block [OF l(2)] e(2)
    by (rule funpow_xor [OF crc_right_xor, symmetric])
  have "(?r XOR le_word e) XOR (?r XOR le_word e') = ?d" by (simp add: ac_simps flip: xor.assoc)
  with d z have "(?M ^^ (8 * length b)) ((?M ^^ (8 * length e)) ?d) = 0" by simp
  then have z: "(?M ^^ (8 * length b + 8 * length e)) ?d = 0" unfolding funpow_add o_apply .
  have "\<not> bit ?d i" if "w \<le> i" for i
    using that e(1,2) bit_le_word [OF l(1), of i] bit_le_word [OF l(2), of i] by (simp add: bit_xor_iff)
  from crc_right_pow_zero [OF q this z] have "?d = 0" .
  moreover have "le_word e = ?d XOR (le_word e' :: 'a word)" by (simp add: xor.assoc)
  ultimately have "le_word e = (le_word e' :: 'a word)" by simp
  with le_word_inject [OF l(1) e(2)] e(3) show False by blast
qed

lemma crc_Finalize_inject:
  fixes r :: "('a::len) word"
  assumes w: "1 \<le> w" "w \<le> LENGTH('a)" and x: "take_bit w x = x"
    and "take_bit w r = r" "take_bit w s = s" "crc_Finalize w r x f = crc_Finalize w s x f"
  shows "r = s"
proof -
  have "take_bit w r = crc_UndoFinalize w (crc_Finalize w s x f) x f"
    unfolding assms(6) [symmetric] by (rule crc_Finalize_Undo [OF w x, symmetric])
  also have "\<dots> = take_bit w s" by (rule crc_Finalize_Undo [OF w x])
  finally show ?thesis unfolding assms(4,5) .
qed

lemma crc_burst:
  fixes p :: "('a::len) word crc_params"
  assumes wf: "crc_wf p" and refl: "cp_reflectInput p" and odd: "bit (cp_polynomial p) 0"
    and e: "8 * length e \<le> cp_width p" "length e' = length e" "e \<noteq> e'"
  shows "crc_Calculate (a @ e @ b) p \<noteq> crc_Calculate (a @ e' @ b) p"
proof
  let ?w = "cp_width p" and ?q = "crc_Reflect (cp_polynomial p) (cp_width p)"
  have ok: "crc_ok p" and i: "take_bit ?w (cp_initialValue p) = cp_initialValue p"
    and x: "take_bit ?w (cp_finalXOR p) = cp_finalXOR p"
    using wf by (auto simp: crc_wf_def)
  assume "crc_Calculate (a @ e @ b) p = crc_Calculate (a @ e' @ b) p"
  then have "crc_CalculateRemainder (a @ e @ b) p (cp_initialValue p) = crc_CalculateRemainder (a @ e' @ b) p (cp_initialValue p)"
    unfolding crc_Calculate_def
    by (rule crc_Finalize_inject [OF _ _ x crc_remainder_small [OF ok refl i] crc_remainder_small [OF ok refl i], rotated 2])
      (use ok in auto)
  then have "crc_bytes_right ?q (a @ e @ b) (cp_initialValue p) = crc_bytes_right ?q (a @ e' @ b) (cp_initialValue p)"
    using refl by (simp add: crc_CalculateRemainder_def Let_def)
  moreover have "crc_bytes_right ?q (a @ e @ b) (cp_initialValue p) \<noteq> crc_bytes_right ?q (a @ e' @ b) (cp_initialValue p)"
    by (rule crc_bytes_right_differ [OF _ _ _ e]) (use ok odd in \<open>auto simp: bit_crc_Reflect\<close>)
  ultimately show False by simp
qed

text \<open>
  C13. A CRC with reflected input and an odd polynomial, such as CRC-32, detects every burst that fits
  its width: when a run of at most that many bits, in whole bytes, is replaced by a different run of
  the same length anywhere in the data, the CRC is a different one.
\<close>

theorem crc_detects_burst:
  fixes p :: "('a::len) word crc_params"
  assumes "crc_wf p" "cp_reflectInput p" "bit (cp_polynomial p) 0"
    and "8 * length e \<le> cp_width p" "length e' = length e" "e \<noteq> e'"
  shows "crc_Calculate (a @ e @ b) p \<noteq> crc_Calculate (a @ e' @ b) p"
  using assms by (rule crc_burst)

lemma CRC_32_detecting: "cp_reflectInput CRC_32" "bit (cp_polynomial CRC_32) 0" "cp_width CRC_32 = 32"
  by (simp_all add: CRC_32_def crc_make_def)

theorem crc_detects_burst_witness:
  "crc_Calculate ([49, 50] @ [51, 52, 53, 54] @ [55]) CRC_32 \<noteq> crc_Calculate ([49, 50] @ [53, 52, 51, 54] @ [55]) CRC_32"
  by (rule crc_detects_burst [OF crc_wf_CRC_32 CRC_32_detecting(1,2)]) (simp_all add: CRC_32_detecting(3))


section \<open>Values fit their width\<close>

lemma unat_take_bit: "take_bit w v = v \<Longrightarrow> unat (v :: ('a::len) word) < 2 ^ w"
  by (metis take_bit_nat_less_exp unsigned_take_bit_eq)

lemma crc_Finalize_width:
  assumes "1 \<le> w" "w \<le> LENGTH('a)"
  shows "take_bit w (crc_Finalize w r x f :: ('a::len) word) = crc_Finalize w r x f"
  by (simp add: crc_Finalize_def crc_BIT_MASK_mask [OF assms] flip: take_bit_eq_mask)

lemma crc_UndoFinalize_width:
  assumes w: "1 \<le> w" "w \<le> LENGTH('a)" and x: "take_bit w x = x"
  shows "take_bit w (crc_UndoFinalize w c x f :: ('a::len) word) = crc_UndoFinalize w c x f"
proof -
  have "take_bit w (crc_Reflect v w) = crc_Reflect v w" for v :: "'a word"
    by (rule bit_eqI) (auto simp: bit_take_bit_iff bit_crc_Reflect)
  moreover have "take_bit w (take_bit w c XOR x) = take_bit w c XOR x" by (simp add: take_bit_xor x)
  ultimately show ?thesis
    by (simp add: crc_UndoFinalize_def crc_BIT_MASK_mask [OF w] Let_def flip: take_bit_eq_mask)
qed

lemma crc_table_entry_width:
  fixes p :: "('a::len) word crc_params"
  assumes "crc_ok p"
  shows "take_bit (max 8 (cp_width p)) (crc_table_entry p b) = crc_table_entry p b"
proof -
  have w: "1 \<le> cp_width p" "cp_width p \<le> LENGTH('a)" using assms by simp_all
  show ?thesis
    by (rule bit_eqI)
      (auto simp: crc_table_entry_def Let_def crc_BIT_MASK_mask [OF w] bit_take_bit_iff bit_and_iff bit_mask_iff
        bit_push_bit_iff CHAR_BIT_def)
qed

text \<open>
  C24. The types of CRC.h: every version of Calculate gives a value of CRCWidth bits, the remainder it
  resumes from has CRCWidth bits too, the entries of the table have that many bits or those of a byte,
  and a byte is always an index of the table.
\<close>

theorem crc_in_width:
  fixes p :: "('a::len) word crc_params"
  assumes "crc_wf p"
  shows "unat (crc_Calculate d p) < 2 ^ cp_width p \<and> unat (crc_Calculate_append d p c) < 2 ^ cp_width p \<and>
    unat (crc_Calculate_table d (crc_MakeTable p)) < 2 ^ cp_width p \<and>
    unat (crc_Calculate_table_append d (crc_MakeTable p) c) < 2 ^ cp_width p \<and>
    unat (crc_UndoFinalize (cp_width p) c (cp_finalXOR p) f) < 2 ^ cp_width p \<and>
    (\<forall>x\<in>set (ct_table (crc_MakeTable p)). unat x < 2 ^ max 8 (cp_width p)) \<and>
    unat (b :: 8 word) < length (ct_table (crc_MakeTable p))"
proof -
  have ok: "crc_ok p" and x: "take_bit (cp_width p) (cp_finalXOR p) = cp_finalXOR p"
    using assms by (auto simp: crc_wf_def)
  then have w: "1 \<le> cp_width p" "cp_width p \<le> LENGTH('a)" by simp_all
  have "unat b < 2 ^ LENGTH(8)" by (rule unsigned_less)
  then have "unat b < length (ct_table (crc_MakeTable p))"
    by (simp add: crc_MakeTable_def crc_InitTable_def CHAR_BIT_def)
  moreover have "\<forall>x\<in>set (ct_table (crc_MakeTable p)). unat x < 2 ^ max 8 (cp_width p)"
    using unat_take_bit [OF crc_table_entry_width [OF ok]] by (auto simp: crc_MakeTable_def crc_InitTable_def)
  ultimately show ?thesis
    using unat_take_bit [OF crc_Finalize_width [OF w]] unat_take_bit [OF crc_UndoFinalize_width [OF w x]]
    by (simp add: crc_Calculate_def crc_Calculate_append_def crc_Calculate_table_def
        crc_Calculate_table_append_def crc_MakeTable_def Let_def)
qed

theorem crc_in_width_witness: "unat (crc_Calculate crc_check_input CRC_12_UMTS) < 4096"
proof -
  have "crc_wf CRC_12_UMTS" "cp_width CRC_12_UMTS = 12"
    using crc_sets_wf by (simp_all add: CRC_12_UMTS_def crc_make_def)
  with crc_in_width [of CRC_12_UMTS crc_check_input] show ?thesis by simp
qed

section \<open>The variants without branches\<close>

text \<open>CRCPP\_BRANCHLESS: the bit is multiplied with the polynomial instead of being tested.\<close>

definition crc_bit_right_branchless :: "('a::len) word \<Rightarrow> 'a word \<Rightarrow> 'a word" where
  "crc_bit_right_branchless poly r = drop_bit 1 r XOR (r AND 1) * poly"

definition crc_bit_left_branchless :: "nat \<Rightarrow> ('a::len) word \<Rightarrow> 'a word \<Rightarrow> 'a word" where
  "crc_bit_left_branchless high poly r = push_bit 1 r XOR (drop_bit high r AND 1) * poly"

definition crc_CalculateRemainder_branchless ::
  "8 word list \<Rightarrow> ('a::len) word crc_params \<Rightarrow> 'a word \<Rightarrow> 'a word" where
  "crc_CalculateRemainder_branchless d p rem =
     (let w = cp_width p;
          left = (\<lambda>high sh poly. fold (\<lambda>b r. (crc_bit_left_branchless high poly ^^ CHAR_BIT) (r XOR push_bit sh (ucast b))) d)
      in if cp_reflectInput p
         then fold (\<lambda>b r. (crc_bit_right_branchless (crc_Reflect (cp_polynomial p) w) ^^ CHAR_BIT) (r XOR ucast b)) d rem
         else if CHAR_BIT \<le> w then left (w - 1) (w - CHAR_BIT) (cp_polynomial p) rem
         else drop_bit (CHAR_BIT - w)
                (left (CHAR_BIT - 1) 0 (push_bit (CHAR_BIT - w) (cp_polynomial p)) (push_bit (CHAR_BIT - w) rem)))"

lemma word_and_1: "(r :: ('a::len) word) AND 1 = of_bool (bit r 0)"
  by (simp add: bit_0 and_one_eq odd_iff_mod_2_eq_one)

lemma crc_bit_branchless:
  "crc_bit_right_branchless poly r = crc_bit_right poly r"
  "crc_bit_left_branchless high poly r = crc_bit_left high poly r"
  by (simp_all add: crc_bit_right_branchless_def crc_bit_left_branchless_def crc_bit_right_alt crc_bit_left_alt
      word_and_1 bit_drop_bit_eq)

lemma crc_bytes_fold:
  "crc_bytes_right q d r = fold (\<lambda>b r. (crc_bit_right q ^^ CHAR_BIT) (r XOR ucast b)) d r"
  "crc_bytes_left h s q d r = fold (\<lambda>b r. (crc_bit_left h q ^^ CHAR_BIT) (r XOR push_bit s (ucast b))) d r"
  by (induction d arbitrary: r) simp_all

lemma crc_remainder_branchless: "crc_CalculateRemainder_branchless d p r = crc_CalculateRemainder d p r"
  unfolding crc_CalculateRemainder_branchless_def crc_CalculateRemainder_def crc_bytes_fold
  by (simp only: crc_bit_branchless [abs_def] Let_def)

end
