(* ===== verification/DFSDetect.thy ===== *)
theory DFSDetect
  imports DFSClient2 CRCDetect
begin

text \<open>
  Which changes of a file the checksums of grpc/part2 notice: what CRC-32 detects is detected by
  dfs\_file\_checksum when the last chunk is full, and then Store and Fetch do not mistake the file
  for the one that they have.
\<close>

text \<open>The sizes for which the last chunk is full: even ones below the buffer, and its multiples.\<close>

definition full_chunks :: "string \<Rightarrow> bool" where
  "full_chunks d \<longleftrightarrow> d \<noteq> [] \<and> length d < 2 ^ 32 \<and> length d mod checksum_bufsize (length d) = 0"

lemma full_chunks_even:
  "d \<noteq> [] \<Longrightarrow> length d < DFS_BUFFERSIZE \<Longrightarrow> even (length d) \<Longrightarrow> full_chunks d"
  by (auto simp: full_chunks_def checksum_bufsize_def DFS_BUFFERSIZE_def elim!: evenE)

lemma full_chunks_multiple:
  "d \<noteq> [] \<Longrightarrow> length d < 2 ^ 32 \<Longrightarrow> DFS_BUFFERSIZE dvd length d \<Longrightarrow> full_chunks d"
  by (auto simp: full_chunks_def checksum_bufsize_def dest: dvd_imp_le)

lemma byte_of_inject: "byte_of a = byte_of b \<Longrightarrow> a = b"
proof -
  assume "byte_of a = byte_of b"
  then have "(of_nat (of_char a) :: 8 word) = of_nat (of_char b)" by (simp only: byte_of_def of_nat_of_char)
  then have "unat (of_nat (of_char a) :: 8 word) = unat (of_nat (of_char b) :: 8 word)" by (simp only:)
  moreover have "unat (of_nat (of_char c) :: 8 word) = of_char c" for c
  proof -
    have "of_char c < (2 ^ LENGTH(8) :: nat)" by simp
    then show ?thesis by (simp only: unsigned_of_nat take_bit_nat_eq_self of_nat_id)
  qed
  ultimately have "(of_char a :: nat) = of_char b" by (simp only:)
  then show "a = b" by simp
qed

lemma checksum_burst:
  assumes f: "full_chunks (a @ e @ b)" and e: "length e \<le> 4" "length e' = length e" "e \<noteq> e'"
    and j: "\<And>n. length (junk n) = n"
  shows "dfs_file_checksum dfs_crc_table junk (Some (a @ e @ b)) \<noteq> dfs_file_checksum dfs_crc_table junk (Some (a @ e' @ b))"
proof -
  have c: "dfs_file_checksum dfs_crc_table junk (Some d) = crc32 d" if "full_chunks d" for d
    using that checksum_of_file [of d junk, OF _ _ j] by (auto simp: full_chunks_def checksum_input_def Let_def)
  have "length (a @ e' @ b) = length (a @ e @ b)" using e(2) by simp
  with f have f': "full_chunks (a @ e' @ b)"
    unfolding full_chunks_def by (metis length_0_conv)
  have "map byte_of e \<noteq> map byte_of e'"
    using e(3) by (simp add: inj_map_eq_map inj_on_def byte_of_inject)
  with crc_burst [OF crc_wf_CRC_32 CRC_32_detecting(1,2), of "map byte_of e" "map byte_of e'"] e(1,2)
  show ?thesis unfolding c [OF f] c [OF f'] by (simp add: CRC_32_detecting(3))
qed

text \<open>
  C11. Part 2 notices a change: when the file of the client differs from the server's in a run of at
  most four bytes and its last chunk is full, Store is not turned away with ALREADY\_EXISTS but puts
  the new content on the server, and Fetch brings the server's content to the client.
\<close>

theorem p2_change_noticed:
  assumes "fs_content lfs (WrapPath (de_mount e) n) = Some (a @ x @ b)"
    and "fs_content (ds_fs s) (WrapPath (de_server_mount e) n) = Some (a @ y @ b)"
    and "length x \<le> 4" "length y = length x" "x \<noteq> y" "full_chunks (a @ x @ b)" "\<And>k. length (de_junk e k) = k"
    and "ds_write_map s n = [] \<or> ds_write_map s n = de_client_id e"
    and "fs_writable (ds_fs s) (WrapPath (de_server_mount e) n)" "fs_writable lfs (WrapPath (de_mount e) n)"
  shows "(\<exists>s'. Store_p2 e rpc_ok rpc_ok n lfs s = (DFS_OK, s') \<and>
      fs_content (ds_fs s') (WrapPath (de_server_mount e) n) = Some (a @ x @ b)) \<and>
    (\<exists>lfs'. Fetch_p2 e rpc_ok rpc_ok n s lfs = (DFS_OK, lfs') \<and>
      fs_content lfs' (WrapPath (de_mount e) n) = Some (a @ y @ b))"
proof (rule conjI)
  let ?sp = "WrapPath (de_server_mount e) n" and ?lp = "WrapPath (de_mount e) n"
  have crc: "file_crc (de_junk e) ?lp lfs \<noteq> file_crc (de_junk e) ?sp (ds_fs s)"
    unfolding file_crc_def assms(1,2) by (rule checksum_burst) (use assms(3-7) in auto)
  have "fs_content (ds_fs (ReleaseLock n (s\<lparr>ds_fs := ofstream_write ?sp (a @ x @ b) (ds_fs s)\<rparr>))) ?sp = Some (a @ x @ b)"
    using assms(9) by (simp add: ReleaseLock_def ofstream_write_content)
  then show "\<exists>s'. Store_p2 e rpc_ok rpc_ok n lfs s = (DFS_OK, s') \<and> fs_content (ds_fs s') ?sp = Some (a @ x @ b)"
    using Store_p2_result [OF assms(1,8)] crc assms(9) by simp
  obtain f where f: "fs_files (ds_fs s) ?sp = Some f" "df_content f = a @ y @ b"
    using assms(2) by (auto simp: fs_content_def)
  then show "\<exists>lfs'. Fetch_p2 e rpc_ok rpc_ok n s lfs = (DFS_OK, lfs') \<and> fs_content lfs' ?lp = Some (a @ y @ b)"
    using Fetch_p2_result [OF f(1) assms(10) crc [symmetric]] ofstream_write_content [OF assms(10)] by simp
qed

theorem p2_change_noticed_witness:
  "\<exists>s'. Store_p2 dfs_A rpc_ok rpc_ok ''f'' (p1_fs [(''a/f'', ''a red hat.'')]) (dfs_srv [(''s/f'', ''a big hat.'')]) =
     (DFS_OK, s') \<and> fs_content (ds_fs s') ''s/f'' = Some ''a red hat.''"
proof -
  have "full_chunks (''a '' @ ''red'' @ '' hat.'')"
    by (rule full_chunks_even) (simp_all add: DFS_BUFFERSIZE_def)
  from p2_change_noticed [of "p1_fs [(''a/f'', ''a red hat.'')]" dfs_A "''f''" "''a ''" "''red''" "'' hat.''"
      "dfs_srv [(''s/f'', ''a big hat.'')]" "''big''", OF _ _ _ _ _ this]
  show ?thesis by (simp add: WrapPath_def)
qed

end
