(* ===== verification/DFSService.thy ===== *)
theory DFSService
  imports DFSClient2
begin

text \<open>
  The abstract specification of the file servers of grpc: a map from names to contents, which a
  Store updates and a Delete of a file restricts. Both servers implement it, for every sequence of
  requests by any clients; part 2 as long as its checksums tell the contents apart.
\<close>

section \<open>The specification\<close>

datatype 'c dfs_job = JStore 'c string | JDelete 'c string

text \<open>A store of a file that the client does not have, or a delete of one that is not there, is no job.\<close>

fun spec_jobs ::
  "('c \<Rightarrow> string \<Rightarrow> string option) \<Rightarrow> 'c dfs_job list \<Rightarrow> (string \<Rightarrow> string option) \<Rightarrow> (string \<Rightarrow> string option) option" where
  "spec_jobs files [] m = Some m"
| "spec_jobs files (JStore c n # js) m =
     (case files c n of None \<Rightarrow> None | Some d \<Rightarrow> spec_jobs files js (m(n \<mapsto> d)))"
| "spec_jobs files (JDelete c n # js) m =
     (case m n of None \<Rightarrow> None | Some d \<Rightarrow> spec_jobs files js (m(n := None)))"

fun run_jobs ::
  "('c \<Rightarrow> string \<Rightarrow> 's \<Rightarrow> 's) \<Rightarrow> ('c \<Rightarrow> string \<Rightarrow> 's \<Rightarrow> 's) \<Rightarrow> 'c dfs_job list \<Rightarrow> 's \<Rightarrow> 's" where
  "run_jobs store delete [] s = s"
| "run_jobs store delete (JStore c n # js) s = run_jobs store delete js (store c n s)"
| "run_jobs store delete (JDelete c n # js) s = run_jobs store delete js (delete c n s)"

fun job_client :: "'c dfs_job \<Rightarrow> 'c" where
  "job_client (JStore c n) = c"
| "job_client (JDelete c n) = c"

text \<open>What a provider promises: each request does to its contents what it does to the map.\<close>

locale file_map =
  fixes store :: "'c \<Rightarrow> string \<Rightarrow> 's \<Rightarrow> 's"
    and delete :: "'c \<Rightarrow> string \<Rightarrow> 's \<Rightarrow> 's"
    and content :: "'s \<Rightarrow> string \<Rightarrow> string option"
    and files :: "'c \<Rightarrow> string \<Rightarrow> string option"
    and inv :: "'s \<Rightarrow> bool"
    and client :: "'c \<Rightarrow> bool"
  assumes store_law: "inv s \<Longrightarrow> client c \<Longrightarrow> files c n = Some d \<Longrightarrow>
      inv (store c n s) \<and> content (store c n s) = (content s)(n \<mapsto> d)"
    and delete_law: "inv s \<Longrightarrow> client c \<Longrightarrow> content s n = Some d \<Longrightarrow>
      inv (delete c n s) \<and> content (delete c n s) = (content s)(n := None)"
begin

lemma run_refines_spec:
  assumes "inv s" "\<forall>j\<in>set js. client (job_client j)" "spec_jobs files js (content s) = Some m"
  shows "inv (run_jobs store delete js s) \<and> content (run_jobs store delete js s) = m"
  using assms
proof (induction js arbitrary: s)
  case (Cons j js)
  show ?case
  proof (cases j)
    case (JStore c n)
    with Cons.prems obtain d where d: "files c n = Some d" by (auto split: option.splits)
    with Cons.prems JStore have l: "inv (store c n s)" "content (store c n s) = (content s)(n \<mapsto> d)"
      using store_law [OF Cons.prems(1) _ d] by auto
    have "inv (run_jobs store delete js (store c n s)) \<and> content (run_jobs store delete js (store c n s)) = m"
    proof (rule Cons.IH [OF l(1)])
      show "spec_jobs files js (content (store c n s)) = Some m"
        unfolding l(2) using Cons.prems(3) by (simp add: JStore d)
    qed (use Cons.prems(2) in simp)
    then show ?thesis by (simp add: JStore)
  next
    case (JDelete c n)
    with Cons.prems obtain d where d: "content s n = Some d" by (auto split: option.splits)
    with Cons.prems JDelete have l: "inv (delete c n s)" "content (delete c n s) = (content s)(n := None)"
      using delete_law [OF Cons.prems(1) _ d] by auto
    have "inv (run_jobs store delete js (delete c n s)) \<and> content (run_jobs store delete js (delete c n s)) = m"
    proof (rule Cons.IH [OF l(1)])
      show "spec_jobs files js (content (delete c n s)) = Some m"
        unfolding l(2) using Cons.prems(3) by (simp add: JDelete d)
    qed (use Cons.prems(2) in simp)
    then show ?thesis by (simp add: JDelete)
  qed
qed simp

end

section \<open>Part 1\<close>

text \<open>A client is its mount path and its files.\<close>

definition p1_store :: "string \<Rightarrow> string \<times> filesys \<Rightarrow> string \<Rightarrow> filesys \<Rightarrow> filesys" where
  "p1_store sm c n sfs = snd (Store_p1 (fst c) sm rpc_ok n (snd c) sfs)"

definition p1_delete :: "string \<Rightarrow> string \<times> filesys \<Rightarrow> string \<Rightarrow> filesys \<Rightarrow> filesys" where
  "p1_delete sm c n sfs = snd (Delete_p1 sm rpc_ok n sfs)"

definition served :: "string \<Rightarrow> filesys \<Rightarrow> string \<Rightarrow> string option" where
  "served sm fs n = fs_content fs (WrapPath sm n)"

definition p1_files :: "string \<times> filesys \<Rightarrow> string \<Rightarrow> string option" where
  "p1_files c n = fs_content (snd c) (WrapPath (fst c) n)"

lemma served_write: "fs_writable fs (WrapPath sm n) \<Longrightarrow>
    served sm (ofstream_write (WrapPath sm n) d fs) = (served sm fs)(n \<mapsto> d)"
  by (rule ext) (auto simp: served_def fs_content_def ofstream_write_def)

lemma served_remove: "served sm (remove_file (WrapPath sm n) fs) = (served sm fs)(n := None)"
  by (rule ext) (auto simp: served_def fs_content_def remove_file_def)

lemma p1_store_write:
  assumes "p1_files c n = Some d"
  shows "p1_store sm c n s = ofstream_write (WrapPath sm n) d s"
proof -
  obtain m ms where "file_msgs n [] 0 d = m # ms" "fm_name m = n" "msg_data m @ concat (map msg_data ms) = d"
    using file_msgs_Cons [of n "[]" 0 d] by metis
  with assms show ?thesis by (simp add: p1_store_def Store_p1_def p1_files_def StoreFile_p1_def Let_def)
qed

lemma p1_delete_remove: "served sm s n = Some d \<Longrightarrow> p1_delete sm c n s = remove_file (WrapPath sm n) s"
  by (auto simp: p1_delete_def Delete_p1_def DeleteFile_p1_def served_def fs_content_def)

interpretation p1: file_map "p1_store sm" "p1_delete sm" "served sm" p1_files
    "\<lambda>fs. \<forall>n. fs_writable fs (WrapPath sm n)" "\<lambda>c. True" for sm
  by unfold_locales (simp_all add: p1_store_write p1_delete_remove served_write served_remove)

section \<open>Part 2\<close>

text \<open>
  A client is its environment and its files. The contents of a set \<open>D\<close> are told apart by the
  checksums, also from a file that does not exist.
\<close>

definition p2_store :: "dfs_env \<times> filesys \<Rightarrow> string \<Rightarrow> dfs_server \<Rightarrow> dfs_server" where
  "p2_store c n s = snd (Store_p2 (fst c) rpc_ok rpc_ok n (snd c) s)"

definition p2_delete :: "dfs_env \<times> filesys \<Rightarrow> string \<Rightarrow> dfs_server \<Rightarrow> dfs_server" where
  "p2_delete c n s = snd (Delete_p2 (fst c) rpc_ok rpc_ok n s)"

definition p2_files :: "dfs_env \<times> filesys \<Rightarrow> string \<Rightarrow> string option" where
  "p2_files c n = fs_content (snd c) (WrapPath (de_mount (fst c)) n)"

definition p2_ready :: "string \<Rightarrow> string set \<Rightarrow> dfs_server \<Rightarrow> bool" where
  "p2_ready sm D s \<longleftrightarrow> (\<forall>n. ds_write_map s n = [] \<and> fs_writable (ds_fs s) (WrapPath sm n) \<and>
     (\<forall>d. served sm (ds_fs s) n = Some d \<longrightarrow> d \<in> D))"

definition p2_client :: "string \<Rightarrow> string set \<Rightarrow> dfs_env \<times> filesys \<Rightarrow> bool" where
  "p2_client sm D c \<longleftrightarrow> de_server_mount (fst c) = sm \<and>
     inj_on (dfs_file_checksum dfs_crc_table (de_junk (fst c))) (insert None (Some ` D)) \<and>
     (\<forall>n d. p2_files c n = Some d \<longrightarrow> d \<in> D)"

lemma ReleaseLock_free [simp]: "ds_write_map s n = [] \<Longrightarrow> ReleaseLock n s = s"
  by (simp add: ReleaseLock_def fun_upd_idem)

text \<open>A store that is turned away because of its checksum would not have changed anything.\<close>

lemma p2_store_write:
  assumes r: "p2_ready sm D s" and c: "p2_client sm D c" and d: "p2_files c n = Some d"
  shows "p2_ready sm D (p2_store c n s) \<and> served sm (ds_fs (p2_store c n s)) = (served sm (ds_fs s))(n \<mapsto> d)"
proof -
  obtain e lfs where e: "c = (e, lfs)" by force
  have sm: "de_server_mount e = sm" and dD: "d \<in> D" using c d by (auto simp: p2_client_def e)
  have free: "ds_write_map s n = []" and w: "fs_writable (ds_fs s) (WrapPath sm n)" using r by (auto simp: p2_ready_def)
  have lfs: "fs_content lfs (WrapPath (de_mount e) n) = Some d" using d by (simp add: p2_files_def e)
  note res = Store_p2_result [OF lfs, of s, unfolded sm]
  show ?thesis
  proof (cases "file_crc (de_junk e) (WrapPath (de_mount e) n) lfs = file_crc (de_junk e) (WrapPath sm n) (ds_fs s)")
    case True
    then have eq: "dfs_file_checksum dfs_crc_table (de_junk e) (Some d) =
        dfs_file_checksum dfs_crc_table (de_junk e) (served sm (ds_fs s) n)"
      by (simp add: file_crc_def lfs served_def)
    have inj: "inj_on (dfs_file_checksum dfs_crc_table (de_junk e)) (insert None (Some ` D))"
      using c by (simp add: p2_client_def e)
    have "served sm (ds_fs s) n \<in> insert None (Some ` D)"
      using r by (cases "served sm (ds_fs s) n") (auto simp: p2_ready_def)
    with inj_onD [OF inj eq] dD have "served sm (ds_fs s) n = Some d" by simp
    moreover have "p2_store c n s = s" using res free True by (simp add: p2_store_def e)
    ultimately show ?thesis using r by (simp add: fun_upd_idem)
  next
    case False
    let ?s = "s\<lparr>ds_fs := ofstream_write (WrapPath sm n) d (ds_fs s)\<rparr>"
    have "p2_store c n s = ?s" using res free w False by (simp add: p2_store_def e)
    with r w dD show ?thesis by (auto simp: p2_ready_def served_write split: if_splits)
  qed
qed

lemma p2_delete_remove:
  assumes r: "p2_ready sm D s" and c: "p2_client sm D c" and d: "served sm (ds_fs s) n = Some d"
  shows "p2_ready sm D (p2_delete c n s) \<and> served sm (ds_fs (p2_delete c n s)) = (served sm (ds_fs s))(n := None)"
proof -
  obtain e lfs where e: "c = (e, lfs)" by force
  have sm: "de_server_mount e = sm" using c by (simp add: p2_client_def e)
  have free: "ds_write_map s n = []" using r by (simp add: p2_ready_def)
  have "p2_delete c n s = s\<lparr>ds_fs := remove_file (WrapPath sm n) (ds_fs s)\<rparr>"
    using d free unfolding p2_delete_def Delete_p2_def e fst_conv RequestWriteAccess_ok [OF disjI1 [OF free]]
    by (auto simp: DeleteFile_p2_def CheckLock_own ReleaseLock_def fun_upd_idem served_def fs_content_def sm)
  with r show ?thesis by (auto simp: p2_ready_def served_remove split: if_splits)
qed

interpretation p2: file_map p2_store p2_delete "\<lambda>s. served sm (ds_fs s)" p2_files "p2_ready sm D" "p2_client sm D" for sm D
  by unfold_locales (rule p2_store_write p2_delete_remove; assumption)+


section \<open>The servers refine the map\<close>

text \<open>What a FetchFile sends.\<close>

lemma FetchFile_served:
  "FetchFile sm rpc_ok n fs =
     (case served sm fs n of None \<Rightarrow> (DFS_NOT_FOUND, []) | Some d \<Rightarrow> (DFS_OK, file_msgs n [] 0 d))"
  by (simp add: FetchFile_def served_def split: option.splits)



text \<open>A stores a file, B deletes it, and A stores another one.\<close>

definition demo_jobs :: "'c \<Rightarrow> 'c \<Rightarrow> 'c dfs_job list" where
  "demo_jobs a b = [JStore a ''f'', JDelete b ''f'', JStore a ''g'']"


text \<open>Its condition on the checksums holds for the content of one byte.\<close>

lemma p2_client_1:
  assumes "\<And>n. length (de_junk e n) = n" and "\<And>p d. fs_content lfs p = Some d \<Longrightarrow> d = ''1''"
  shows "p2_client (de_server_mount e) {''1''} (e, lfs)"
proof -
  have "dfs_file_checksum dfs_crc_table (de_junk e) (Some ''1'') \<noteq> 0" by (rule checksum_1) (rule assms(1))
  then have "inj_on (dfs_file_checksum dfs_crc_table (de_junk e)) (insert None (Some ` {''1''}))"
    by (simp add: checksum_None)
  moreover have "d \<in> {''1''}" if "p2_files (e, lfs) n = Some d" for n d
    using assms(2) [of "WrapPath (de_mount e) n" d] that by (simp add: p2_files_def)
  ultimately show ?thesis unfolding p2_client_def fst_conv by blast
qed


end
