(* ===== verification/Spec2Isabelle.thy ===== *)
theory Spec2Isabelle
  imports Echo FileTransfer GetfileSystem GFServerMain MTDownload CacheProxy CacheSystem CommandLine
    DFSReaders DFSHandlers DFSNode DFSInotify DFSDetect DFSService
begin

text \<open>
  A verification library for the three parts of this repository: multithreading (TCP programs, the
  Getfile library, its multithreaded client and server), ipc (a web proxy and a cache that share
  memory) and grpc (a distributed file system).

  \<^bold>\<open>How the code is modelled.\<close> A C function is a HOL function on the values it
  reads; what it writes is in its result. \<^typ>\<open>'a outcome\<close> of
  \<^theory_text>\<open>Prelude\<close> says how a call can end: it returns, the process exits
  with a status, the behaviour is undefined (a null pointer, a buffer that is overrun), or it
  waits for ever. C integers are \<^typ>\<open>int\<close> values with the wrap-around of each
  conversion written out (c\_int, c\_ushort, c\_uint, c\_size). Buffers are lists of bytes of
  fixed length. What the operating system, the network and libraries without source return is an
  argument of the definitions, so the theorems hold for every behaviour of it that the hypotheses
  allow. Threads are program counters in a shared state; a schedule is the list of the steps.

  \<^bold>\<open>Parts, and the theories that model them.\<close>
  \<^item> CStrings, Network, Options: the functions of string.h and stdio.h that are called, what
    recv and the address list of getaddrinfo can give, and the loop over the options. GetOpt:
    getopt\_long on the command line; CommandLine: the option tables of all 15 programs.
  \<^item> Echo (multithreading/echo) and FileTransfer (multithreading/transfer): the four mains.
  \<^item> GFClient (gflib/gfclient.c), GFServer (gflib/gfserver.c), GFServerMain
    (gflib/gfserver\_main.c), GFProtocol (the two libraries together), GFDownload
    (gflib/gfclient\_download.c with its file operations).
  \<^item> Content (the three copies of the table of open files), Workload, Steque (the linked
    list in an explicit heap, with the contract work\_queue that its users rely on).
  \<^item> MTClient, MTDownload (mtgf/gfclient\_download.c) and MTServer (mtgf/gfserver\_main.c,
    mtgf/handler.c): boss and workers step by step with mutex, condition variable and queue.
    GetfileSystem: one request through the table of files, the worker, both libraries and the
    network.
  \<^item> WebProxy (ipc/server), CacheIPC (handle\_with\_cache.c and the thread of simplecached.c
    over one segment), CacheProxy (the pool of segments and both mains) and CacheSystem (all
    threads of both processes over all segments, one pool and one message queue; what it needs of
    the exchange over one segment is the locale exchange, interpreted on CacheIPC).
  \<^item> CRC, CRCParams (part2/src/CRC.h of grpc): the bit-by-bit and the table-driven CRC for
    every word type, and the 50 parameter sets; CRCDetect: the bursts that a CRC detects, the
    width of its values, the variants without branches. DFSChecksum (dfs\_file\_checksum of
    dfs-utils.h).
  \<^item> DFSCommon (streams of file messages, what gRPC can do to a call), DFSPart1 (server,
    client and mains of grpc/part1), DFSServer2 (dfslib-servernode-p2.cpp with its write locks and
    their contract lock\_service), DFSClient2 (dfslib-clientnode-p2.cpp, dfs-client-p2.cpp,
    dfs-server-p2.cpp), DFSCallData (dfslibx-call-data.h, dfslibx-service-runner.h: the pool of
    asynchronous calls as a step relation).
  \<^item> DFSConcurrent, DFSReaders, DFSHandlers: StoreFile, FetchFile and DeleteFile of the
    second server step by step, as its threads run them at once, with WriteLock between their
    steps. DFSSync: two mounted clients and the server together. DFSNode: the fields of the client
    node, the request for the list that is under way, the start of the server, the log.
    DFSInotify: the inotify watcher on the bytes it reads. DFSDetect: the changes of a file that
    the checksums notice. DFSService: the abstract specification of both servers, a map from names
    to contents (locale file\_map), interpreted on the code of part 1 and of part 2.

  \<^bold>\<open>What the lemmas show.\<close> Each component has an invariant that every step
  keeps, the result of its operations on every branch, and termination of its loops by a measure.
  The multithreaded programs are free of deadlock and end; the exchange between proxy and cache
  delivers every file whole and in order in every interleaving of any number of requests, without
  a deadlock; the Getfile libraries agree on the protocol, and a file of the server's table
  arrives at the client unchanged. The CRC table computes what the bit-by-bit loop computes; a
  stored file is fetched unchanged over any network that answers OK; a write lock keeps every
  other client from the file, also when the threads of the server overlap inside StoreFile and
  DeleteFile. Both servers refine a map from names to contents. A client that asks for the list of
  files can always be answered. A change under one mount path reaches the other clients, and the
  checksums notice every change of up to four bytes in a file whose last chunk is full. Theorems
  that begin from a defect of the code state exactly what happens.

  \<^bold>\<open>Bounds.\<close> Loops over a stream terminate because each receive consumes part
  of it (net\_size). A schedule is finite; the weights client\_weight, proxy\_weight,
  cache\_weight and sys\_weight bound its length. steque\_destroy is a partial function, shown to
  return on every well-formed queue. A chunk of a file stream has at most 8192 bytes; the checksum
  loop is exact for files below 2^32 bytes, where the 32 bit counter of the code does not wrap.
  The index of the inotify watcher stays far below 2^31, because its buffer has 32768 bytes.

  \<^bold>\<open>Not modelled.\<close> Output to the terminal, log.h, the empty shm\_channel.c,
  usleep, signals that interrupt a call, and the object files without source (the Getfile library
  of mtgf and ipc), which are parameters. In grpc: gRPC and protobuf themselves, StatusFile,
  ListFile and the list of ProcessCallback that overlap with other handlers inside (each is one
  step), directories below the mount path, and the destructors that run when a process exits.
\<close>

end
